(* ===== verification/Prelude.thy ===== *)
theory Prelude
  imports Main "HOL-Library.Word" "HOL-Library.AList" "HOL-Library.Multiset"
begin

unbundle bit_operations_syntax

section \<open>Prelude: the Rust machine and the shared lemmas\<close>

text \<open>
  What every component of the development shares: the machine integers of the
  64-bit target, the two build profiles with their panics, the checked,
  saturating and profile-dependent arithmetic of the Rust standard library,
  little-endian encoding, and \<open>std::collections::HashMap\<close> as an association list
  whose iteration order is a parameter. The generic lemmas on words, lists and
  maps that the component proofs rewrite with are collected here.
\<close>

subsection \<open>Machine integers\<close>

type_synonym u8 = "8 word"
type_synonym u16 = "16 word"
type_synonym u32 = "32 word"
type_synonym u64 = "64 word"
type_synonym i32 = "32 word"
type_synonym usize = "64 word"

subsection \<open>Build profiles and panics\<close>

text \<open>
  A debug build checks \<open>debug_assert!\<close> and arithmetic overflow and panics; a
  release build skips the assertions and wraps. Index checks, \<open>assert!\<close>, \<open>unwrap\<close>,
  \<open>expect\<close> and \<open>Vec\<close> capacity checks panic in both. \<open>AccessOutsideMapping\<close> is
  the raw-pointer read that leaves the readable part of an \<open>mmap\<close> region.
\<close>

datatype build = Debug | Release

datatype panic =
    ArithmeticOverflow
  | DebugAssertion
  | IndexOutOfBounds
  | AssertionFailed
  | ExpectNone
  | UnwrapFailed
  | CapacityOverflow
  | AccessOutsideMapping

type_synonym 'a run = "panic + 'a"

definition and_then :: "'e + 'a \<Rightarrow> ('a \<Rightarrow> 'e + 'b) \<Rightarrow> 'e + 'b" where
  "and_then m f = (case m of Inl e \<Rightarrow> Inl e | Inr x \<Rightarrow> f x)"

text \<open>A loop whose body may panic: the first panic ends it.\<close>

fun fold_run :: "('s \<Rightarrow> 'a \<Rightarrow> 'e + 's) \<Rightarrow> 's \<Rightarrow> 'a list \<Rightarrow> 'e + 's" where
  "fold_run f s [] = Inr s"
| "fold_run f s (x # xs) = and_then (f s x) (\<lambda>s'. fold_run f s' xs)"

text \<open>The macros \<open>assert!\<close> and \<open>assert_eq!\<close>, and \<open>Result::unwrap\<close> and \<open>Option::unwrap\<close>.\<close>

definition assert_that :: "bool \<Rightarrow> unit run" where
  "assert_that P = (if P then Inr () else Inl AssertionFailed)"

definition unwrap :: "'e + 'a \<Rightarrow> 'a run" where
  "unwrap r = (case r of Inl _ \<Rightarrow> Inl UnwrapFailed | Inr x \<Rightarrow> Inr x)"

definition unwrap_some :: "'a option \<Rightarrow> 'a run" where
  "unwrap_some r = (case r of None \<Rightarrow> Inl UnwrapFailed | Some x \<Rightarrow> Inr x)"

subsection \<open>Arithmetic of the standard library\<close>

text \<open>The operator \<open>a + b\<close>: the overflow check is the build profile's.\<close>

definition plus_build :: "build \<Rightarrow> 'l::len word \<Rightarrow> 'l word \<Rightarrow> 'l word run" where
  "plus_build b x y =
     (if b = Debug \<and> 2 ^ LENGTH('l) \<le> unat x + unat y then Inl ArithmeticOverflow
      else Inr (x + y))"

definition times_build :: "build \<Rightarrow> 'l::len word \<Rightarrow> 'l word \<Rightarrow> 'l word run" where
  "times_build b x y =
     (if b = Debug \<and> 2 ^ LENGTH('l) \<le> unat x * unat y then Inl ArithmeticOverflow
      else Inr (x * y))"

definition checked_add :: "'l::len word \<Rightarrow> 'l word \<Rightarrow> 'l word option" where
  "checked_add x y = (if 2 ^ LENGTH('l) \<le> unat x + unat y then None else Some (x + y))"

definition checked_mul :: "'l::len word \<Rightarrow> 'l word \<Rightarrow> 'l word option" where
  "checked_mul x y = (if 2 ^ LENGTH('l) \<le> unat x * unat y then None else Some (x * y))"

definition saturating_sub :: "'l::len word \<Rightarrow> 'l word \<Rightarrow> 'l word" where
  "saturating_sub x y = (if x < y then 0 else x - y)"

definition to_le_bytes :: "u64 \<Rightarrow> u8 list" where
  "to_le_bytes w = map (\<lambda>i. ucast (drop_bit (8 * i) w)) [0..<8]"

subsection \<open>HashMap\<close>

text \<open>
  A \<open>HashMap\<close> that the code iterates over is an association list with distinct
  keys; the order in which \<open>iter\<close> yields the entries is not specified by the
  library, so it is an argument \<open>ord\<close> of the operation that iterates, of a type that
  holds every rearrangement of lists. A \<open>HashMap\<close> that is only read and written by key is
  a HOL map.
\<close>

type_synonym ('k, 'v) hash_map = "('k \<times> 'v) list"

definition hm_insert :: "'k \<Rightarrow> 'v \<Rightarrow> ('k, 'v) hash_map \<Rightarrow> ('k, 'v) hash_map" where
  "hm_insert k v m = AList.update k v m"

definition hm_get :: "('k, 'v) hash_map \<Rightarrow> 'k \<Rightarrow> 'v option" where
  "hm_get m k = map_of m k"

definition hm_inv :: "('k, 'v) hash_map \<Rightarrow> bool" where
  "hm_inv m = distinct (map fst m)"

typedef 'a iter_order = "{f :: 'a list \<Rightarrow> 'a list. \<forall>xs. mset (f xs) = mset xs}"
  morphisms iterate Iter_order
  by (rule exI [of _ "\<lambda>xs. xs"]) simp

definition insertion_order :: "'a iter_order" where
  "insertion_order = Iter_order (\<lambda>xs. xs)"

definition reverse_order :: "'a iter_order" where
  "reverse_order = Iter_order rev"

subsection \<open>Collections of rules\<close>

named_theorems run_simps \<open>evaluation of operations that may panic\<close>
named_theorems unit_tests \<open>translated unit tests pass\<close>

subsection \<open>Results and arithmetic\<close>

lemma and_then_simps [simp, run_simps]:
  "and_then (Inl e) f = Inl e"
  "and_then (Inr x) f = f x"
  by (simp_all add: and_then_def)

lemma and_then_eq_Inr [simp]:
  "and_then m f = Inr y \<longleftrightarrow> (\<exists>x. m = Inr x \<and> f x = Inr y)"
  by (cases m) simp_all

lemma assert_that_True [simp, run_simps]: "assert_that True = Inr ()"
  by (simp add: assert_that_def)

lemma assert_that_eq_Inr [simp]: "assert_that P = Inr () \<longleftrightarrow> P"
  by (simp add: assert_that_def)

lemma unwrap_simps [simp, run_simps]:
  "unwrap (Inl e) = Inl UnwrapFailed" "unwrap (Inr x) = Inr x"
  "unwrap_some None = Inl UnwrapFailed" "unwrap_some (Some x) = Inr x"
  by (simp_all add: unwrap_def unwrap_some_def)

lemma plus_build_Inr [run_simps]:
  fixes x y :: "'l::len word"
  assumes "unat x + unat y < 2 ^ LENGTH('l)"
  shows "plus_build b x y = Inr (x + y)"
  using assms by (simp add: plus_build_def)

lemma plus_build_overflow:
  fixes x y :: "'l::len word"
  assumes "2 ^ LENGTH('l) \<le> unat x + unat y"
  shows "plus_build Debug x y = Inl ArithmeticOverflow"
    and "plus_build Release x y = Inr (x + y)"
  using assms by (simp_all add: plus_build_def)

lemma plus_build_InrD: "plus_build b x y = Inr z \<Longrightarrow> z = x + y"
  by (simp add: plus_build_def split: if_splits)

lemma u32_less: "unat (w :: u32) < 2 ^ 32"
  using unsigned_less [where 'a = nat, of w] by simp

lemma u64_less: "unat (w :: u64) < 2 ^ 64"
  using unsigned_less [where 'a = nat, of w] by simp

lemma unat_ucast_32_64 [simp]: "unat (ucast (w :: u32) :: u64) = unat w"
  using u32_less [of w] by (simp add: unsigned_ucast_eq take_bit_nat_eq_self)

lemma unat_ucast_64_32: "unat (ucast (w :: u64) :: u32) = unat w mod 2 ^ 32"
  by (simp add: unsigned_ucast_eq take_bit_eq_mod)

lemma times_build_Inr [run_simps]:
  fixes x y :: "'l::len word"
  assumes "unat x * unat y < 2 ^ LENGTH('l)"
  shows "times_build b x y = Inr (x * y)"
  using assms by (simp add: times_build_def)

lemma unat_times_small:
  fixes x y :: "'l::len word"
  shows "unat x * unat y < 2 ^ LENGTH('l) \<Longrightarrow> unat (x * y) = unat x * unat y"
  by (simp add: unat_word_ariths)

lemma unat_plus_small:
  fixes x y :: "'l::len word"
  shows "unat x + unat y < 2 ^ LENGTH('l) \<Longrightarrow> unat (x + y) = unat x + unat y"
  by (simp add: unat_word_ariths)

lemma unat_Suc_small:
  fixes x :: "'l::len word"
  shows "unat x + 1 < 2 ^ LENGTH('l) \<Longrightarrow> unat (x + 1) = unat x + 1"
  using unat_plus_small [of x 1] by (simp add: unat_1)

lemma checked_add_SomeD:
  "checked_add x y = Some z \<Longrightarrow> unat z = unat x + unat y \<and> z = x + y"
  by (auto simp: checked_add_def not_le unat_plus_small split: if_splits)

lemma checked_mul_SomeD:
  "checked_mul x y = Some z \<Longrightarrow> unat z = unat x * unat y \<and> z = x * y"
  by (auto simp: checked_mul_def not_le unat_word_ariths split: if_splits)

lemma unat_saturating_sub: "unat (saturating_sub x y) = unat x - unat y"
proof (cases "x < y")
  case True
  then show ?thesis by (simp add: saturating_sub_def word_less_nat_alt)
next
  case False
  then show ?thesis by (simp add: saturating_sub_def unat_sub not_less)
qed

subsection \<open>Single bits of a word\<close>

text \<open>The shift \<open>1 << n\<close> is \<open>push_bit n 1\<close>, which the simplifier writes \<open>2 ^ n\<close>.\<close>

lemma and_mask_eq_0_iff:
  fixes w :: "'l::len word"
  shows "w AND 2 ^ n = 0 \<longleftrightarrow> \<not> bit w n"
  by (simp add: and_exp_eq_0_iff_not_bit)

lemma bit_or_mask_iff:
  fixes w :: "'l::len word"
  assumes "n < LENGTH('l)"
  shows "bit (w OR 2 ^ n) m \<longleftrightarrow> bit w m \<or> m = n"
  using assms by (auto simp: bit_or_iff bit_exp_iff)

subsection \<open>Little-endian bytes\<close>

lemma length_to_le_bytes [simp]: "length (to_le_bytes w) = 8"
  by (simp add: to_le_bytes_def)

lemma to_le_bytes_nth: "i < 8 \<Longrightarrow> to_le_bytes w ! i = ucast (drop_bit (8 * i) w)"
  by (simp add: to_le_bytes_def)

lemma bit_to_le_bytes:
  assumes "n < 64"
  shows "bit w n \<longleftrightarrow> bit (to_le_bytes w ! (n div 8)) (n mod 8)"
proof -
  have "n div 8 < 8" using assms by auto
  moreover have "8 * (n div 8) + n mod 8 = n" by simp
  ultimately show ?thesis
    by (simp add: to_le_bytes_nth bit_ucast_iff bit_drop_bit_eq)
qed

lemma to_le_bytes_inject [simp]: "to_le_bytes v = to_le_bytes w \<longleftrightarrow> v = w"
  by (auto intro!: bit_word_eqI simp: bit_to_le_bytes)

subsection \<open>HashMap\<close>

lemma hm_inv_Nil [simp]: "hm_inv []"
  by (simp add: hm_inv_def)

lemma hm_inv_insert [simp]: "hm_inv m \<Longrightarrow> hm_inv (hm_insert k v m)"
  by (simp add: hm_inv_def hm_insert_def distinct_update)

lemma hm_get_Nil [simp]: "hm_get [] = Map.empty"
  by (rule ext) (simp add: hm_get_def)

lemma hm_get_insert [simp]: "hm_get (hm_insert k v m) = (hm_get m)(k \<mapsto> v)"
  by (rule ext) (simp add: hm_get_def hm_insert_def update_conv)

lemma hm_get_eq_None: "hm_get m k = None \<longleftrightarrow> k \<notin> fst ` set m"
  by (simp add: hm_get_def map_of_eq_None_iff)

lemma hm_get_eq_Some: "hm_inv m \<Longrightarrow> hm_get m k = Some v \<longleftrightarrow> (k, v) \<in> set m"
  by (simp add: hm_get_def hm_inv_def)

lemma dom_hm_get: "dom (hm_get m) = fst ` set m"
  by (rule set_eqI) (metis domIff hm_get_eq_None)

lemma mset_iterate [simp]: "mset (iterate ord xs) = mset xs"
  using iterate [of ord] by simp

lemma set_iterate [simp]: "set (iterate ord xs) = set xs"
  by (metis mset_iterate set_mset_mset)

lemma length_iterate [simp]: "length (iterate ord xs) = length xs"
  by (metis mset_iterate size_mset)

lemma iterate_insertion_order [simp]: "iterate insertion_order xs = xs"
  by (simp add: insertion_order_def Iter_order_inverse)

lemma iterate_reverse_order [simp]: "iterate reverse_order xs = rev xs"
  by (simp add: reverse_order_def Iter_order_inverse)

lemma hm_inv_iterate [simp]: "hm_inv (iterate ord m) \<longleftrightarrow> hm_inv m"
  by (metis hm_inv_def mset_eq_imp_distinct_iff mset_iterate mset_map)

lemma hm_get_iterate: "hm_inv m \<Longrightarrow> hm_get (iterate ord m) = hm_get m"
  using map_of_inject_set [of "iterate ord m" m] hm_inv_iterate [of ord m]
  by (auto simp: hm_get_def hm_inv_def fun_eq_iff)

subsection \<open>Lists\<close>

text \<open>A nested walk over rows of equal width is one walk over all positions.\<close>

lemma upt_add_map: "[a..<a + n] = map (\<lambda>k. a + k) [0..<n]"
  by (simp add: map_add_upt add.commute)

lemma concat_rows_filter:
  assumes "0 < (w::nat)"
  shows "concat (map (\<lambda>i. map (\<lambda>b. w * i + b) (filter (P i) [0..<w])) [0..<n]) =
         filter (\<lambda>k. P (k div w) (k mod w)) [0..<w * n]"
proof (induction n)
  case 0
  then show ?case by simp
next
  case (Suc n)
  have "filter (\<lambda>k. P (k div w) (k mod w)) [w * n..<w * n + w] =
        map (\<lambda>b. w * n + b) (filter (P n) [0..<w])"
    unfolding upt_add_map [of "w * n" w] filter_map
    by (auto intro!: arg_cong [where f = "map _"] filter_cong simp: comp_def)
  moreover have "[0..<w * Suc n] = [0..<w * n] @ [w * n..<w * n + w]"
    using upt_add_eq_append [of 0 "w * n" w] by (simp add: add.commute)
  ultimately show ?case using Suc.IH by simp
qed

lemma sorted_snoc:
  fixes t :: "'a :: linorder"
  assumes "sorted_wrt (<) (x # xs)" and "last (x # xs) \<le> s" and "s < t"
  shows "sorted_wrt (<) ((x # xs) @ [t])"
proof -
  have "y \<le> last (x # xs)" if "y \<in> set (x # xs)" for y
    using that assms(1) by (induction xs arbitrary: x) (fastforce split: if_splits)+
  then show ?thesis using assms by (auto simp: sorted_wrt_append dest: order.strict_trans1)
qed

lemma foldl_invariant:
  assumes "P s" and "\<And>s x. P s \<Longrightarrow> x \<in> set xs \<Longrightarrow> P (f s x)"
  shows "P (foldl f s xs)"
  using assms by (induction xs arbitrary: s) auto

end
