(* ===== verification/Dirty_Pages.thy ===== *)
theory Dirty_Pages
  imports Prelude
begin

unbundle bit_operations_syntax

section \<open>Dirty-page tracking (chronos-mem/src/dirty.rs)\<close>

text \<open>
  \<open>DirtyPageSet\<close>, the bitmap that the checkpoint and the replication pipeline
  share: its operations as the source has them, the invariant that ties the
  cached count to the bits, the set of pages it stands for, and the interface
  \<open>page_set\<close> through which the other components use it.
\<close>

subsection \<open>State and operations\<close>

record dirty_page_set =
  bits :: "u64 list"
  capacity_pages :: u64
  dirty_count :: u64

definition new_DirtyPageSet :: "build \<Rightarrow> u64 \<Rightarrow> dirty_page_set run" where
  "new_DirtyPageSet b capacity =
     and_then (plus_build b capacity 63) (\<lambda>s.
       let words = unat (s div 64)
       in Inr \<lparr>bits = replicate (max words 1) 0, capacity_pages = capacity, dirty_count = 0\<rparr>)"

definition mark :: "build \<Rightarrow> dirty_page_set \<Rightarrow> u64 \<Rightarrow> dirty_page_set run" where
  "mark b d page_idx =
     (if b = Debug \<and> \<not> page_idx < capacity_pages d then Inl DebugAssertion
      else
        let word = unat (page_idx div 64);
            bit_idx = unat (page_idx mod 64);
            mask = push_bit bit_idx 1
        in if length (bits d) \<le> word then Inl IndexOutOfBounds
           else if (bits d ! word) AND mask = 0 then
             and_then (plus_build b (dirty_count d) 1) (\<lambda>c.
               Inr (d\<lparr>bits := (bits d)[word := (bits d ! word) OR mask], dirty_count := c\<rparr>))
           else Inr d)"

definition is_dirty :: "dirty_page_set \<Rightarrow> u64 \<Rightarrow> bool" where
  "is_dirty d page_idx =
     (let word = unat (page_idx div 64);
          bit_idx = unat (page_idx mod 64)
      in word < length (bits d) \<and> (bits d ! word) AND push_bit bit_idx 1 \<noteq> 0)"

definition iter_dirty :: "dirty_page_set \<Rightarrow> u64 list" where
  "iter_dirty d =
     concat (map (\<lambda>(word_idx, word).
       List.map_filter (\<lambda>b. if word AND push_bit b 1 \<noteq> 0
                             then Some (of_nat word_idx * 64 + of_nat b) else None) [0..<64])
       (enumerate 0 (bits d)))"

definition len_DirtyPageSet :: "dirty_page_set \<Rightarrow> u64" where
  "len_DirtyPageSet d = dirty_count d"

definition is_empty_DirtyPageSet :: "dirty_page_set \<Rightarrow> bool" where
  "is_empty_DirtyPageSet d = (dirty_count d = 0)"

definition clear_all :: "dirty_page_set \<Rightarrow> dirty_page_set" where
  "clear_all d = d\<lparr>bits := map (\<lambda>_. 0) (bits d), dirty_count := 0\<rparr>"

subsection \<open>Invariant and abstraction\<close>

text \<open>The pages the bitmap stands for, and the indices as natural numbers.\<close>

definition pages :: "dirty_page_set \<Rightarrow> u64 set" where
  "pages d = {p. is_dirty d p}"

definition dirty_indices :: "dirty_page_set \<Rightarrow> nat list" where
  "dirty_indices d =
     filter (\<lambda>k. bit (bits d ! (k div 64)) (k mod 64)) [0..<64 * length (bits d)]"

definition dps_inv :: "dirty_page_set \<Rightarrow> bool" where
  "dps_inv d \<longleftrightarrow>
     length (bits d) = max ((unat (capacity_pages d) + 63) div 64) 1 \<and>
     unat (capacity_pages d) + 63 < 2 ^ 64 \<and>
     unat (dirty_count d) = length (dirty_indices d)"

subsection \<open>The interface the other components use\<close>

text \<open>
  A set of page indices below a capacity: pages are marked, listed and cleared.
  The laws are what the checkpoint pipeline and the replication pipeline rely on
  at a flush boundary.
\<close>

locale page_set =
  fixes mk :: "'s \<Rightarrow> u64 \<Rightarrow> 's run"
    and iter :: "'s \<Rightarrow> u64 list"
    and clear :: "'s \<Rightarrow> 's"
    and abs :: "'s \<Rightarrow> u64 set"
    and inv :: "'s \<Rightarrow> bool"
    and cap :: "'s \<Rightarrow> u64"
  assumes mk_abs: "inv s \<Longrightarrow> p < cap s \<Longrightarrow>
      \<exists>s'. mk s p = Inr s' \<and> inv s' \<and> cap s' = cap s \<and> abs s' = insert p (abs s)"
    and iter_abs: "inv s \<Longrightarrow> set (iter s) = abs s"
    and iter_sorted: "inv s \<Longrightarrow> sorted (iter s) \<and> distinct (iter s)"
    and clear_abs: "inv s \<Longrightarrow> inv (clear s) \<and> cap (clear s) = cap s \<and> abs (clear s) = {}"
begin

lemma mk_all:
  assumes "inv s" and "\<forall>p\<in>set ps. p < cap s"
  shows "\<exists>s'. fold_run mk s ps = Inr s' \<and> inv s' \<and> cap s' = cap s \<and> abs s' = abs s \<union> set ps"
  using assms
proof (induction ps arbitrary: s)
  case Nil
  then show ?case by simp
next
  case (Cons p ps)
  then obtain s1 where s1: "mk s p = Inr s1" "inv s1" "cap s1 = cap s" "abs s1 = insert p (abs s)"
    using mk_abs [of s p] by auto
  with Cons.prems Cons.IH [of s1] show ?case by auto
qed

lemma flush_epoch:
  assumes "inv s" and "\<forall>p\<in>set ps. p < cap s"
  shows "\<exists>s'. fold_run mk (clear s) ps = Inr s' \<and> inv s' \<and>
              iter s' = sorted_list_of_set (set ps)"
proof -
  obtain s' where s': "fold_run mk (clear s) ps = Inr s'" "inv s'" "abs s' = set ps"
    using mk_all [of "clear s" ps] clear_abs [OF assms(1)] assms(2) by auto
  have "sorted_list_of_set (set (iter s')) = iter s'"
    using iter_sorted [OF s'(2)] by (simp add: sorted_list_of_set_sort_remdups distinct_remdups_id sorted_sort_id)
  with s' show ?thesis by (metis iter_abs)
qed

end

subsection \<open>The bitmap as one list of indices\<close>

lemma iter_dirty_eq: "iter_dirty d = map of_nat (dirty_indices d)"
proof -
  have row: "List.map_filter (\<lambda>b. if w AND push_bit b 1 \<noteq> 0
               then Some (of_nat i * 64 + of_nat b) else None) [0..<64] =
             map of_nat (map (\<lambda>b. 64 * i + b) (filter (bit w) [0..<64]))" for i and w :: u64
    by (simp add: List.map_filter_def and_mask_eq_0_iff comp_def mult.commute)
  have "iter_dirty d = concat (map (\<lambda>i. map of_nat (map (\<lambda>b. 64 * i + b)
           (filter (bit (bits d ! i)) [0..<64]))) [0..<length (bits d)])"
    unfolding iter_dirty_def row enumerate_eq_zip
    by (auto intro!: arg_cong [where f = concat] nth_equalityI)
  also have "\<dots> = map of_nat (concat (map (\<lambda>i. map (\<lambda>b. 64 * i + b)
           (filter (bit (bits d ! i)) [0..<64])) [0..<length (bits d)]))"
    by (simp add: map_concat comp_def)
  finally show ?thesis
    by (simp only: concat_rows_filter dirty_indices_def zero_less_numeral)
qed

lemma unat_div_64: "unat ((p::u64) div 64) = unat p div 64"
  by (simp add: unat_div)

lemma unat_mod_64: "unat ((p::u64) mod 64) = unat p mod 64"
  by (simp add: unat_mod)

lemma is_dirty_iff:
  "is_dirty d p \<longleftrightarrow> unat p < 64 * length (bits d) \<and>
     bit (bits d ! (unat p div 64)) (unat p mod 64)"
proof -
  have "unat p div 64 < length (bits d) \<longleftrightarrow> unat p < 64 * length (bits d)"
    by (simp add: div_less_iff_less_mult mult.commute)
  then show ?thesis
    by (auto simp: is_dirty_def Let_def unat_div_64 unat_mod_64 and_mask_eq_0_iff)
qed

lemma is_dirty_iff_index: "is_dirty d p \<longleftrightarrow> unat p \<in> set (dirty_indices d)"
  by (auto simp: is_dirty_iff dirty_indices_def)

lemma dirty_indices_sorted: "sorted (dirty_indices d)" "distinct (dirty_indices d)"
  by (simp_all add: dirty_indices_def sorted_wrt_filter)

text \<open>Under the invariant no index wraps around.\<close>

lemma dps_inv_width:
  assumes "dps_inv d"
  shows "64 * length (bits d) < 2 ^ 64"
proof -
  have "unat (capacity_pages d) + 63 < 2 ^ 64"
    using assms by (simp add: dps_inv_def)
  then have "64 * ((unat (capacity_pages d) + 63) div 64) < 2 ^ 64" by simp
  then show ?thesis using assms by (simp add: dps_inv_def max_def)
qed

lemma dirty_indices_less:
  assumes "dps_inv d" and "k \<in> set (dirty_indices d)"
  shows "k < 2 ^ 64"
  using assms dps_inv_width [OF assms(1)] by (auto simp: dirty_indices_def)

lemma unat_of_index:
  assumes "dps_inv d" and "k \<in> set (dirty_indices d)"
  shows "unat (of_nat k :: u64) = k"
  using dirty_indices_less [OF assms] by (simp add: unat_of_nat)

lemma map_unat_iter_dirty: "dps_inv d \<Longrightarrow> map unat (iter_dirty d) = dirty_indices d"
  by (auto simp: iter_dirty_eq comp_def unat_of_index intro: map_idI)

lemma set_iter_dirty: "dps_inv d \<Longrightarrow> set (iter_dirty d) = pages d"
proof (rule set_eqI)
  fix p assume d: "dps_inv d"
  have "p \<in> set (iter_dirty d) \<longleftrightarrow> unat p \<in> unat ` set (iter_dirty d)"
    by (auto simp flip: word_unat_eq_iff)
  also have "\<dots> \<longleftrightarrow> unat p \<in> set (dirty_indices d)"
    by (metis d list.set_map map_unat_iter_dirty)
  finally show "p \<in> set (iter_dirty d) \<longleftrightarrow> p \<in> pages d"
    by (simp add: pages_def is_dirty_iff_index)
qed

lemma iter_dirty_sorted:
  assumes "dps_inv d"
  shows "sorted (iter_dirty d)" and "distinct (iter_dirty d)"
proof -
  have "sorted (map unat (iter_dirty d))" "distinct (map unat (iter_dirty d))"
    by (simp_all only: map_unat_iter_dirty [OF assms] dirty_indices_sorted)
  then show "sorted (iter_dirty d)" and "distinct (iter_dirty d)"
    by (simp_all add: sorted_map distinct_map flip: word_le_nat_alt)
qed

lemma iter_dirty_eq_sorted: "dps_inv d \<Longrightarrow> iter_dirty d = sorted_list_of_set (pages d)"
  using iter_dirty_sorted [of d] set_iter_dirty [of d]
  by (metis sorted_list_of_set.idem_if_sorted_distinct)

lemma dirty_count_card: "dps_inv d \<Longrightarrow> unat (dirty_count d) = card (pages d)"
  by (metis distinct_card dps_inv_def iter_dirty_sorted(2) length_map map_unat_iter_dirty
      set_iter_dirty)

subsection \<open>Marking\<close>

lemma dirty_indices_set_bit:
  fixes p :: nat
  assumes "p < 64 * length (bits d)"
  shows "set (dirty_indices (d\<lparr>bits := (bits d)[p div 64 := bits d ! (p div 64) OR 2 ^ (p mod 64)],
           dirty_count := c\<rparr>)) = insert p (set (dirty_indices d))"
proof -
  have *: "k div 64 = p div 64 \<Longrightarrow> k mod 64 = p mod 64 \<Longrightarrow> k = p" for k :: nat
    by (metis div_mult_mod_eq)
  have "p div 64 < length (bits d)" using assms by (simp add: div_less_iff_less_mult mult.commute)
  then show ?thesis
    using assms by (auto simp: dirty_indices_def nth_list_update bit_or_mask_iff dest: * * [OF sym])
qed

lemma mark_in_range:
  assumes "dps_inv d" and "unat p < 64 * length (bits d)" and "b = Debug \<longrightarrow> p < capacity_pages d"
  shows "\<exists>d'. mark b d p = Inr d' \<and> dps_inv d' \<and> capacity_pages d' = capacity_pages d \<and>
              pages d' = insert p (pages d)"
proof (cases "is_dirty d p")
  case True
  then have "mark b d p = Inr d"
    using assms(3) by (auto simp: mark_def is_dirty_def Let_def)
  with True assms(1) show ?thesis by (auto simp: pages_def)
next
  case False
  let ?d = "d\<lparr>bits := (bits d)[unat p div 64 := bits d ! (unat p div 64) OR 2 ^ (unat p mod 64)],
              dirty_count := dirty_count d + 1\<rparr>"
  have idx: "set (dirty_indices ?d) = insert (unat p) (set (dirty_indices d))"
    by (rule dirty_indices_set_bit [OF assms(2)])
  have fresh: "unat p \<notin> set (dirty_indices d)" using False by (simp add: is_dirty_iff_index)
  have sub: "set (dirty_indices ?d) \<subseteq> {..<64 * length (bits d)}"
    by (auto simp: dirty_indices_def)
  have "length (dirty_indices ?d) = card (set (dirty_indices ?d))"
    by (rule distinct_card [OF dirty_indices_sorted(2), symmetric])
  also have "\<dots> = length (dirty_indices d) + 1"
    using fresh by (simp add: idx distinct_card [OF dirty_indices_sorted(2)])
  finally have len: "length (dirty_indices ?d) = unat (dirty_count d) + 1"
    using assms(1) by (simp add: dps_inv_def)
  have "card (set (dirty_indices ?d)) \<le> 64 * length (bits d)"
    using card_mono [OF _ sub] by simp
  then have small: "unat (dirty_count d) + 1 < 2 ^ 64"
    using len dps_inv_width [OF assms(1)] by (simp add: distinct_card dirty_indices_sorted(2))
  have "mark b d p = Inr ?d"
    using False assms small
    by (auto simp: mark_def is_dirty_iff Let_def unat_div_64 unat_mod_64 and_mask_eq_0_iff
          div_less_iff_less_mult mult.commute not_le plus_build_Inr)
  moreover have "dps_inv ?d"
    using assms(1) len small by (simp add: dps_inv_def unat_Suc_small)
  moreover have "pages ?d = insert p (pages d)"
    using idx by (auto simp: pages_def is_dirty_iff_index word_unat_eq_iff)
  ultimately show ?thesis by auto
qed

subsection \<open>The operations under the invariant\<close>

lemma new_DirtyPageSet_inv:
  assumes "unat capacity + 63 < 2 ^ 64"
  shows "\<exists>d. new_DirtyPageSet b capacity = Inr d \<and> dps_inv d \<and>
             capacity_pages d = capacity \<and> pages d = {}"
proof -
  let ?d = "\<lparr>bits = replicate (max (unat ((capacity + 63) div 64)) 1) 0,
             capacity_pages = capacity, dirty_count = 0\<rparr>"
  have sum: "unat (capacity + 63) = unat capacity + 63"
    using assms by (simp add: unat_plus_small)
  have none: "dirty_indices ?d = []"
    by (simp add: dirty_indices_def div_less_iff_less_mult mult.commute)
  have "new_DirtyPageSet b capacity = Inr ?d"
    using assms by (simp add: new_DirtyPageSet_def plus_build_Inr Let_def)
  moreover have "dps_inv ?d"
    using assms none by (simp add: dps_inv_def unat_div sum)
  moreover have "pages ?d = {}"
    by (simp only: pages_def is_dirty_iff_index none) simp
  ultimately show ?thesis by auto
qed

lemma clear_all_inv:
  assumes "dps_inv d"
  shows "dps_inv (clear_all d) \<and> capacity_pages (clear_all d) = capacity_pages d \<and>
         pages (clear_all d) = {}"
proof -
  have none: "dirty_indices (clear_all d) = []"
    by (simp add: dirty_indices_def clear_all_def div_less_iff_less_mult mult.commute)
  then have "pages (clear_all d) = {}"
    by (simp add: pages_def is_dirty_iff_index)
  moreover have "dps_inv (clear_all d)"
    using assms none by (simp add: dps_inv_def) (simp add: clear_all_def)
  ultimately show ?thesis by (simp add: clear_all_def)
qed

lemma capacity_covered: "dps_inv d \<Longrightarrow> p < capacity_pages d \<Longrightarrow> unat p < 64 * length (bits d)"
  by (auto simp: dps_inv_def word_less_nat_alt max_def)

interpretation dirty: page_set "mark b" iter_dirty clear_all pages dps_inv capacity_pages for b
  by unfold_locales
    (simp_all add: mark_in_range capacity_covered set_iter_dirty iter_dirty_sorted clear_all_inv)

subsection \<open>Properties\<close>

text \<open>
  Property C38. Marking a page below the capacity never panics, in either build,
  and is exactly the insertion of that page into the set of dirty pages: the
  invariant and the capacity are kept, \<open>is_dirty\<close> then answers for the new set,
  and the cached \<open>len\<close> is its cardinality (marking twice counts once).
\<close>

theorem mark_refines_insert:
  assumes "dps_inv d" and "p < capacity_pages d"
  shows "\<exists>d'. mark b d p = Inr d' \<and> dps_inv d' \<and> capacity_pages d' = capacity_pages d \<and>
              (\<forall>q. is_dirty d' q \<longleftrightarrow> q = p \<or> is_dirty d q) \<and>
              unat (len_DirtyPageSet d') = card (insert p (pages d))"
proof -
  obtain d' where d': "mark b d p = Inr d'" "dps_inv d'" "capacity_pages d' = capacity_pages d"
      "pages d' = insert p (pages d)"
    using dirty.mk_abs [OF assms, of b] by auto
  then have "\<forall>q. is_dirty d' q \<longleftrightarrow> q = p \<or> is_dirty d q"
    by (auto simp: pages_def)
  moreover have "unat (len_DirtyPageSet d') = card (insert p (pages d))"
    using d' by (simp add: len_DirtyPageSet_def dirty_count_card)
  ultimately show ?thesis using d' by blast
qed

theorem mark_refines_insert_witness:
  "\<exists>d d'. new_DirtyPageSet Debug 200 = Inr d \<and> mark Debug d 199 = Inr d' \<and>
         is_dirty d' 199 \<and> unat (len_DirtyPageSet d') = 1"
proof -
  obtain d where d: "new_DirtyPageSet Debug 200 = Inr d" "dps_inv d" "capacity_pages d = 200"
      "pages d = {}"
    using new_DirtyPageSet_inv [of 200 Debug] by auto
  then show ?thesis using mark_refines_insert [of d 199 Debug] by auto
qed

text \<open>
  What a flush consumes: after \<open>clear_all\<close>, whatever pages below
  the capacity the guest's stores mark, in whatever order and however often,
  \<open>iter_dirty\<close> lists exactly those pages, each once and in ascending order, and
  \<open>len\<close> counts them.
\<close>

theorem iter_dirty_after_clear:
  assumes "dps_inv d" and "\<forall>p\<in>set ps. p < capacity_pages d"
  shows "\<exists>d'. fold_run (mark b) (clear_all d) ps = Inr d' \<and>
              iter_dirty d' = sorted_list_of_set (set ps) \<and>
              unat (len_DirtyPageSet d') = card (set ps)"
proof -
  obtain d' where d': "fold_run (mark b) (clear_all d) ps = Inr d'" "dps_inv d'"
      "iter_dirty d' = sorted_list_of_set (set ps)"
    using dirty.flush_epoch [OF assms, of b] by auto
  then have "pages d' = set ps"
    by (metis List.finite_set set_iter_dirty set_sorted_list_of_set)
  with d' show ?thesis by (auto simp: len_DirtyPageSet_def dirty_count_card)
qed

theorem iter_dirty_after_clear_witness:
  "\<exists>d d'. new_DirtyPageSet Release 200 = Inr d \<and>
         fold_run (mark Release) (clear_all d) [64, 0, 199, 63, 0] = Inr d' \<and>
         iter_dirty d' = [0, 63, 64, 199] \<and> unat (len_DirtyPageSet d') = 4"
proof -
  obtain d where d: "new_DirtyPageSet Release 200 = Inr d" "dps_inv d" "capacity_pages d = 200"
    using new_DirtyPageSet_inv [of 200 Release] by auto
  have "sorted_list_of_set (set [64, 0, 199, 63, 0]) = [0, 63, 64, 199 :: u64]"
    by (simp only: sorted_list_of_set_sort_remdups) simp
  moreover have "card (set [64, 0, 199, 63, 0 :: u64]) = 4"
    by (simp add: card_insert_if)
  ultimately show ?thesis
    using d iter_dirty_after_clear [of d "[64, 0, 199, 63, 0]" Release] by fastforce
qed

text \<open>
  Marking a page outside the tracked range. A debug build always
  stops at the assertion. A release build has no assertion: beyond the bitmap the
  index check of the \<open>Vec\<close> panics, but in the slack of the last 64-bit word the
  page is silently recorded as dirty although it is not below the capacity.
\<close>

theorem mark_out_of_range:
  assumes "dps_inv d" and "capacity_pages d \<le> p"
  shows "mark Debug d p = Inl DebugAssertion \<and>
         (if 64 * length (bits d) \<le> unat p then mark Release d p = Inl IndexOutOfBounds
          else \<exists>d'. mark Release d p = Inr d' \<and> dps_inv d' \<and> pages d' = insert p (pages d))"
proof -
  have "mark Debug d p = Inl DebugAssertion"
    using assms(2) by (simp add: mark_def not_less)
  moreover have "mark Release d p = Inl IndexOutOfBounds" if "64 * length (bits d) \<le> unat p"
    using that by (simp add: mark_def Let_def unat_div_64 less_eq_div_iff_mult_less_eq mult.commute)
  moreover have "\<exists>d'. mark Release d p = Inr d' \<and> dps_inv d' \<and> pages d' = insert p (pages d)"
    if "unat p < 64 * length (bits d)"
    using mark_in_range [OF assms(1) that, of Release] by auto
  ultimately show ?thesis by (simp add: not_le)
qed

theorem mark_out_of_range_witness:
  "\<exists>d d'. new_DirtyPageSet Release 10 = Inr d \<and> mark Debug d 20 = Inl DebugAssertion \<and>
         mark Release d 20 = Inr d' \<and> is_dirty d' 20 \<and> mark Release d 64 = Inl IndexOutOfBounds"
proof -
  obtain d where d: "new_DirtyPageSet Release 10 = Inr d" "dps_inv d" "capacity_pages d = 10"
    using new_DirtyPageSet_inv [of 10 Release] by auto
  then have "length (bits d) = 1" by (simp add: dps_inv_def)
  then show ?thesis
    using d mark_out_of_range [of d 20] mark_out_of_range [of d 64] by (auto simp: pages_def)
qed

end
