(* ===== verification/Guarded_Memory.thy ===== *)
theory Guarded_Memory
  imports Dirty_Pages
begin

unbundle bit_operations_syntax

section \<open>Guarded linear memory (chronos-mem/src/guarded_memory.rs)\<close>

text \<open>
  \<open>MmapGuardedMemory\<close>: construction over \<open>mmap\<close> and \<open>mprotect\<close> with its error
  paths, the bounds-checked \<open>translate\<close>, quota-checked \<open>grow\<close>, dirty marking and the
  raw page view. The operating system's answers are arguments; the calls made are
  returned as a list, so that what is mapped and unmapped can be stated. The
  interface \<open>guarded_memory\<close> holds the contract of the trait \<open>GuardedMemory\<close>.
\<close>

subsection \<open>State and faults\<close>

definition PAGE_SIZE :: nat where
  "PAGE_SIZE = 4096"

type_synonym os_error = int

datatype mem_fault =
    OutOfBounds u32 u32 u32
  | QuotaExceeded u32 u32
  | MmapFailed os_error
  | MprotectFailed os_error
  | LayoutOverflow

text \<open>
  \<open>base\<close> is the address of the mapping and \<open>region\<close> the bytes of the mapping by
  offset, which the value owns exclusively.
\<close>

record mmap_guarded_memory =
  base :: u64
  mapped_len :: usize
  size_bytes :: u32
  quota_bytes :: u32
  dirty :: dirty_page_set
  region :: "nat \<Rightarrow> u8"

text \<open>
  What the operating system answers: \<open>sys_mmap\<close> for an anonymous private mapping of a
  given length (the address it chose and the contents), \<open>sys_mprotect\<close> for
  \<open>PROT_NONE\<close> on a range. \<open>syscall\<close> records the calls made.
\<close>

record os_calls =
  sys_mmap :: "usize \<Rightarrow> os_error + (u64 \<times> (nat \<Rightarrow> u8))"
  sys_mprotect :: "u64 \<Rightarrow> usize \<Rightarrow> os_error option"

datatype syscall =
    Mmap usize
  | Mprotect u64 usize
  | Munmap u64 usize

subsection \<open>Operations\<close>

definition new_MmapGuardedMemory ::
  "build \<Rightarrow> os_calls \<Rightarrow> u32 \<Rightarrow> u32 \<Rightarrow> syscall list \<times> (mem_fault + mmap_guarded_memory) run" where
  "new_MmapGuardedMemory b os initial_bytes quota =
     (if quota < initial_bytes then ([], Inr (Inl (QuotaExceeded initial_bytes quota)))
      else case plus_build b (ucast quota) (of_nat PAGE_SIZE) of
        Inl e \<Rightarrow> ([], Inl e)
      | Inr s \<Rightarrow>
        let quota_pages = (s - 1) div of_nat PAGE_SIZE
        in case checked_mul quota_pages (of_nat PAGE_SIZE) of
          None \<Rightarrow> ([], Inr (Inl LayoutOverflow))
        | Some quota_rounded \<Rightarrow>
          let guard_bytes = of_nat PAGE_SIZE
          in case checked_add quota_rounded guard_bytes of
            None \<Rightarrow> ([], Inr (Inl LayoutOverflow))
          | Some mlen \<Rightarrow>
            (case sys_mmap os mlen of
              Inl e \<Rightarrow> ([Mmap mlen], Inr (Inl (MmapFailed e)))
            | Inr (addr, contents) \<Rightarrow>
              let guard_ptr = addr + quota_rounded
              in case sys_mprotect os guard_ptr guard_bytes of
                Some e \<Rightarrow> ([Mmap mlen, Mprotect guard_ptr guard_bytes, Munmap addr mlen],
                           Inr (Inl (MprotectFailed e)))
              | None \<Rightarrow> ([Mmap mlen, Mprotect guard_ptr guard_bytes],
                  and_then (new_DirtyPageSet b (quota_rounded div of_nat PAGE_SIZE)) (\<lambda>d.
                    Inr (Inr \<lparr>base = addr, mapped_len = mlen, size_bytes = initial_bytes,
                              quota_bytes = quota, dirty = d, region = contents\<rparr>)))))"

definition drop_MmapGuardedMemory :: "mmap_guarded_memory \<Rightarrow> syscall list" where
  "drop_MmapGuardedMemory m = [Munmap (base m) (mapped_len m)]"

definition translate :: "mmap_guarded_memory \<Rightarrow> u32 \<Rightarrow> u32 \<Rightarrow> mem_fault + u64" where
  "translate m guest_ptr len =
     (case checked_add guest_ptr len of
        None \<Rightarrow> Inl (OutOfBounds guest_ptr len (size_bytes m))
      | Some e \<Rightarrow>
        if size_bytes m < e then Inl (OutOfBounds guest_ptr len (size_bytes m))
        else Inr (base m + ucast guest_ptr))"

definition grow :: "mmap_guarded_memory \<Rightarrow> u32 \<Rightarrow> mem_fault + (u32 \<times> mmap_guarded_memory)" where
  "grow m delta_pages =
     (let delta_bytes = (ucast delta_pages :: u64) * of_nat PAGE_SIZE;
          new_size = ucast (size_bytes m) + delta_bytes
      in if ucast (quota_bytes m) < new_size
         then Inl (QuotaExceeded (ucast new_size) (quota_bytes m))
         else
           let previous_pages = size_bytes m div of_nat PAGE_SIZE
           in Inr (previous_pages, m\<lparr>size_bytes := ucast new_size\<rparr>))"

definition size_bytes_of :: "mmap_guarded_memory \<Rightarrow> u32" where
  "size_bytes_of m = size_bytes m"

definition dirty_pages :: "mmap_guarded_memory \<Rightarrow> dirty_page_set" where
  "dirty_pages m = dirty m"

text \<open>The mutable borrow \<open>dirty_pages_mut\<close>: \<open>f\<close> is what the caller does through it.\<close>

definition dirty_pages_mut ::
  "mmap_guarded_memory \<Rightarrow> (dirty_page_set \<Rightarrow> dirty_page_set) \<Rightarrow> mmap_guarded_memory" where
  "dirty_pages_mut m f = m\<lparr>dirty := f (dirty m)\<rparr>"

definition mark_dirty :: "build \<Rightarrow> mmap_guarded_memory \<Rightarrow> u64 \<Rightarrow> mmap_guarded_memory run" where
  "mark_dirty b m page_idx =
     and_then (mark b (dirty m) page_idx) (\<lambda>d. Inr (m\<lparr>dirty := d\<rparr>))"

text \<open>
  The raw view of one page. The last condition is not in the source: the slice is
  only meaningful inside the readable part of the mapping, in front of the guard
  page, and the model makes leaving it a fault.
\<close>

definition page_bytes :: "build \<Rightarrow> mmap_guarded_memory \<Rightarrow> u64 \<Rightarrow> u8 list run" where
  "page_bytes b m page_idx =
     and_then (times_build b page_idx (of_nat PAGE_SIZE)) (\<lambda>offset.
     and_then (if b = Debug
               then and_then (plus_build b offset (of_nat PAGE_SIZE)) (\<lambda>e.
                      if e \<le> ucast (size_bytes m) then Inr () else Inl DebugAssertion)
               else Inr ()) (\<lambda>_.
       if unat offset + 2 * PAGE_SIZE \<le> unat (mapped_len m)
       then Inr (map (\<lambda>i. region m (unat offset + i)) [0..<PAGE_SIZE])
       else Inl AccessOutsideMapping))"

text \<open>The trait \<open>GuardedMemory\<close> as a record of its methods, and the implementation above.\<close>

record 'm guarded_memory_ops =
  gm_translate :: "'m \<Rightarrow> u32 \<Rightarrow> u32 \<Rightarrow> mem_fault + u64"
  gm_grow :: "'m \<Rightarrow> u32 \<Rightarrow> mem_fault + (u32 \<times> 'm)"
  gm_size_bytes :: "'m \<Rightarrow> u32"
  gm_dirty_pages :: "'m \<Rightarrow> dirty_page_set"
  gm_dirty_pages_mut :: "'m \<Rightarrow> (dirty_page_set \<Rightarrow> dirty_page_set) \<Rightarrow> 'm"
  gm_mark_dirty :: "'m \<Rightarrow> u64 \<Rightarrow> 'm run"
  gm_page_bytes :: "'m \<Rightarrow> u64 \<Rightarrow> u8 list run"

definition mmap_ops :: "build \<Rightarrow> mmap_guarded_memory guarded_memory_ops" where
  "mmap_ops b =
     \<lparr>gm_translate = translate, gm_grow = grow, gm_size_bytes = size_bytes_of, gm_dirty_pages = dirty_pages,
      gm_dirty_pages_mut = dirty_pages_mut, gm_mark_dirty = mark_dirty b, gm_page_bytes = page_bytes b\<rparr>"

subsection \<open>Invariant and the behaviour of the operating system\<close>

definition quota_pages :: "u32 \<Rightarrow> nat" where
  "quota_pages q = (unat q + (PAGE_SIZE - 1)) div PAGE_SIZE"

definition mem_inv :: "mmap_guarded_memory \<Rightarrow> bool" where
  "mem_inv m \<longleftrightarrow>
     size_bytes m \<le> quota_bytes m \<and>
     unat (mapped_len m) = (quota_pages (quota_bytes m) + 1) * PAGE_SIZE \<and>
     unat (base m) + unat (mapped_len m) \<le> 2 ^ 64 \<and>
     dps_inv (dirty m) \<and>
     unat (capacity_pages (dirty m)) = quota_pages (quota_bytes m)"

text \<open>
  Documented behaviour of \<open>mmap\<close> with a null hint and \<open>MAP_ANONYMOUS\<close>: a mapping lies
  inside the address space and not at null, and its contents are zero.
\<close>

definition mmap_sound :: "os_calls \<Rightarrow> bool" where
  "mmap_sound os \<longleftrightarrow>
     (\<forall>len addr contents. sys_mmap os len = Inr (addr, contents) \<longrightarrow>
        addr \<noteq> 0 \<and> unat addr + unat len \<le> 2 ^ 64 \<and> (\<forall>i < unat len. contents i = 0))"

text \<open>The bytes of a whole page as the mapping holds them.\<close>

definition page_content :: "mmap_guarded_memory \<Rightarrow> u64 \<Rightarrow> u8 list" where
  "page_content m p = map (\<lambda>i. region m (unat p * PAGE_SIZE + i)) [0..<PAGE_SIZE]"

subsection \<open>The contract of the trait\<close>

text \<open>
  \<open>GuardedMemory\<close> as its callers rely on it: a translation exists exactly inside the
  committed size and is an offset from a fixed origin, growth commits whole pages
  and moves nothing, a committed page can be read, and marking and clearing change the
  dirty set only.
\<close>

locale guarded_memory =
  fixes ops :: "'m guarded_memory_ops"
    and origin :: "'m \<Rightarrow> u64"
    and content :: "'m \<Rightarrow> u64 \<Rightarrow> u8 list"
    and inv :: "'m \<Rightarrow> bool"
  assumes trans_iff: "inv m \<Longrightarrow>
      gm_translate ops m p l = Inr a \<longleftrightarrow> unat p + unat l \<le> unat (gm_size_bytes ops m) \<and> a = origin m + ucast p"
    and grow_law: "inv m \<Longrightarrow> gm_grow ops m d = Inr (n, m') \<Longrightarrow>
      inv m' \<and> origin m' = origin m \<and> content m' = content m \<and>
      unat (gm_size_bytes ops m') = unat (gm_size_bytes ops m) + unat d * PAGE_SIZE"
    and page_law: "inv m \<Longrightarrow> (unat q + 1) * PAGE_SIZE \<le> unat (gm_size_bytes ops m) \<Longrightarrow>
      gm_page_bytes ops m q = Inr (content m q)"
    and mark_law: "inv m \<Longrightarrow> (unat q + 1) * PAGE_SIZE \<le> unat (gm_size_bytes ops m) \<Longrightarrow>
      \<exists>m'. gm_mark_dirty ops m q = Inr m' \<and> inv m' \<and> content m' = content m \<and>
        gm_size_bytes ops m' = gm_size_bytes ops m \<and>
        pages (gm_dirty_pages ops m') = insert q (pages (gm_dirty_pages ops m))"
    and clear_law: "inv m \<Longrightarrow> inv (gm_dirty_pages_mut ops m clear_all) \<and>
      content (gm_dirty_pages_mut ops m clear_all) = content m \<and>
      gm_size_bytes ops (gm_dirty_pages_mut ops m clear_all) = gm_size_bytes ops m \<and>
      pages (gm_dirty_pages ops (gm_dirty_pages_mut ops m clear_all)) = {}"
begin

lemma grow_all:
  assumes "inv m" and "fold_run (\<lambda>m d. and_then (gm_grow ops m d) (\<lambda>(n, m'). Inr m')) m ds = Inr m'"
  shows "inv m' \<and> origin m' = origin m \<and> content m' = content m \<and>
         unat (gm_size_bytes ops m') = unat (gm_size_bytes ops m) + sum_list (map (\<lambda>d. unat d * PAGE_SIZE) ds)"
  using assms
proof (induction ds arbitrary: m)
  case Nil
  then show ?case by simp
next
  case (Cons d ds)
  then obtain n m1 where m1: "gm_grow ops m d = Inr (n, m1)"
      and rest: "fold_run (\<lambda>m d. and_then (gm_grow ops m d) (\<lambda>(n, m'). Inr m')) m1 ds = Inr m'"
    by auto
  with Cons.IH [OF _ rest] grow_law [OF Cons.prems(1) m1] show ?case by auto
qed

lemma approval_survives_growth:
  assumes "inv m" and "fold_run (\<lambda>m d. and_then (gm_grow ops m d) (\<lambda>(n, m'). Inr m')) m ds = Inr m'"
    and "gm_translate ops m p l = Inr a"
  shows "gm_translate ops m' p l = Inr a"
  using assms grow_all [OF assms(1,2)] by (simp add: trans_iff)

lemma page_survives_growth:
  assumes "inv m" and "fold_run (\<lambda>m d. and_then (gm_grow ops m d) (\<lambda>(n, m'). Inr m')) m ds = Inr m'"
    and "(unat q + 1) * PAGE_SIZE \<le> unat (gm_size_bytes ops m)"
  shows "gm_page_bytes ops m' q = gm_page_bytes ops m q"
  using assms grow_all [OF assms(1,2)] by (simp add: page_law)

text \<open>A flush epoch: clearing, then the marks of the stores that follow.\<close>

lemma mark_all:
  assumes "inv m" and "\<forall>q\<in>set qs. (unat q + 1) * PAGE_SIZE \<le> unat (gm_size_bytes ops m)"
  shows "\<exists>m'. fold_run (gm_mark_dirty ops) m qs = Inr m' \<and> inv m' \<and> content m' = content m \<and>
    pages (gm_dirty_pages ops m') = pages (gm_dirty_pages ops m) \<union> set qs"
  using assms
proof (induction qs arbitrary: m)
  case (Cons q qs)
  obtain m1 where m1: "gm_mark_dirty ops m q = Inr m1" "inv m1" "content m1 = content m"
      "gm_size_bytes ops m1 = gm_size_bytes ops m"
      "pages (gm_dirty_pages ops m1) = insert q (pages (gm_dirty_pages ops m))"
    using mark_law [OF Cons.prems(1), of q] Cons.prems(2) by auto
  then show ?case using Cons.IH [OF m1(2)] Cons.prems(2) by auto
qed simp

lemma dirty_epoch:
  assumes "inv m" and "\<forall>q\<in>set qs. (unat q + 1) * PAGE_SIZE \<le> unat (gm_size_bytes ops m)"
  shows "\<exists>m'. fold_run (gm_mark_dirty ops) (gm_dirty_pages_mut ops m clear_all) qs = Inr m' \<and> inv m' \<and>
    content m' = content m \<and> pages (gm_dirty_pages ops m') = set qs"
  using mark_all [of "gm_dirty_pages_mut ops m clear_all" qs] clear_law [OF assms(1)] assms(2) by auto

end

subsection \<open>Layout arithmetic\<close>

lemma PAGE_SIZE_pos [simp]: "0 < PAGE_SIZE"
  by (simp add: PAGE_SIZE_def)

lemma unat_PAGE_SIZE [simp]:
  "unat (of_nat PAGE_SIZE :: u64) = PAGE_SIZE" "unat (of_nat PAGE_SIZE :: u32) = PAGE_SIZE"
  by (simp_all add: PAGE_SIZE_def)

lemma quota_pages_bounds:
  "unat q \<le> quota_pages q * PAGE_SIZE" "quota_pages q \<le> 2 ^ 20"
proof -
  show "unat q \<le> quota_pages q * PAGE_SIZE"
    by (simp add: quota_pages_def PAGE_SIZE_def)
  show "quota_pages q \<le> 2 ^ 20"
    using u32_less [of q] by (simp add: quota_pages_def PAGE_SIZE_def)
qed

lemma layout_pages:
  "unat (((ucast (q :: u32) :: u64) + of_nat PAGE_SIZE - 1) div of_nat PAGE_SIZE) = quota_pages q"
proof -
  have "unat ((ucast q :: u64) + of_nat PAGE_SIZE) = unat q + PAGE_SIZE"
    using u32_less [of q] by (simp add: unat_plus_small PAGE_SIZE_def)
  then have "unat ((ucast q :: u64) + of_nat PAGE_SIZE - 1) = unat q + (PAGE_SIZE - 1)"
    using unat_sub [of 1 "(ucast q :: u64) + of_nat PAGE_SIZE"]
    by (simp add: word_le_nat_alt PAGE_SIZE_def del: unat_1)
  then show ?thesis by (simp add: unat_div quota_pages_def)
qed

subsection \<open>Construction\<close>

definition rounded_len :: "u32 \<Rightarrow> usize" where
  "rounded_len q = of_nat (quota_pages q * PAGE_SIZE)"

lemma unat_rounded_len: "unat (rounded_len q) = quota_pages q * PAGE_SIZE"
  unfolding rounded_len_def unat_of_nat
  using quota_pages_bounds(2) [of q] by (simp add: PAGE_SIZE_def)

lemma unat_rounded_len_guard:
  "unat (rounded_len q + of_nat PAGE_SIZE) = (quota_pages q + 1) * PAGE_SIZE"
  using quota_pages_bounds(2) [of q]
  by (simp add: unat_plus_small unat_rounded_len PAGE_SIZE_def)

lemma rounded_len_div: "unat (rounded_len q div of_nat PAGE_SIZE) = quota_pages q"
  by (simp add: unat_div unat_rounded_len)

text \<open>The overflow branches of the layout computation are never taken.\<close>

lemma new_MmapGuardedMemory_eq:
  assumes "initial_bytes \<le> quota"
  shows "new_MmapGuardedMemory b os initial_bytes quota =
     (let mlen = rounded_len quota + of_nat PAGE_SIZE
      in case sys_mmap os mlen of
           Inl e \<Rightarrow> ([Mmap mlen], Inr (Inl (MmapFailed e)))
         | Inr (addr, contents) \<Rightarrow>
           let guard_ptr = addr + rounded_len quota
           in case sys_mprotect os guard_ptr (of_nat PAGE_SIZE) of
                Some e \<Rightarrow> ([Mmap mlen, Mprotect guard_ptr (of_nat PAGE_SIZE), Munmap addr mlen],
                           Inr (Inl (MprotectFailed e)))
              | None \<Rightarrow> ([Mmap mlen, Mprotect guard_ptr (of_nat PAGE_SIZE)],
                  and_then (new_DirtyPageSet b (rounded_len quota div of_nat PAGE_SIZE)) (\<lambda>d.
                    Inr (Inr \<lparr>base = addr, mapped_len = mlen, size_bytes = initial_bytes,
                              quota_bytes = quota, dirty = d, region = contents\<rparr>))))"
proof -
  let ?pages = "((ucast quota :: u64) + of_nat PAGE_SIZE - 1) div of_nat PAGE_SIZE"
  have sum: "plus_build b (ucast quota :: u64) (of_nat PAGE_SIZE) =
             Inr (ucast quota + of_nat PAGE_SIZE)"
    using u32_less [of quota] by (intro plus_build_Inr) (simp add: PAGE_SIZE_def)
  have "unat ?pages * unat (of_nat PAGE_SIZE :: u64) < 2 ^ 64"
    using quota_pages_bounds(2) [of quota] by (simp add: layout_pages) (simp add: PAGE_SIZE_def)
  moreover from this have "?pages * of_nat PAGE_SIZE = rounded_len quota"
    by (simp add: word_unat_eq_iff unat_times_small layout_pages unat_rounded_len)
  ultimately have mul: "checked_mul ?pages (of_nat PAGE_SIZE) = Some (rounded_len quota)"
    by (simp add: checked_mul_def)
  have add: "checked_add (rounded_len quota) (of_nat PAGE_SIZE) =
             Some (rounded_len quota + of_nat PAGE_SIZE)"
    using quota_pages_bounds(2) [of quota]
    by (simp add: checked_add_def unat_rounded_len) (simp add: PAGE_SIZE_def)
  have "\<not> quota < initial_bytes" using assms by simp
  then show ?thesis
    by (simp only: new_MmapGuardedMemory_def sum mul add Let_def if_False sum.case option.case)
qed

lemma new_MmapGuardedMemory_success:
  assumes "i \<le> q" and "sys_mmap os (rounded_len q + of_nat PAGE_SIZE) = Inr (a, c)"
    and "sys_mprotect os (a + rounded_len q) (of_nat PAGE_SIZE) = None"
  obtains m where "new_MmapGuardedMemory b os i q =
      ([Mmap (rounded_len q + of_nat PAGE_SIZE), Mprotect (a + rounded_len q) (of_nat PAGE_SIZE)],
       Inr (Inr m))"
    and "base m = a" and "mapped_len m = rounded_len q + of_nat PAGE_SIZE"
proof -
  have "unat (rounded_len q div of_nat PAGE_SIZE) + 63 < 2 ^ 64"
    using quota_pages_bounds(2) [of q] by (simp add: rounded_len_div)
  then obtain d where d: "new_DirtyPageSet b (rounded_len q div of_nat PAGE_SIZE) = Inr d"
    using new_DirtyPageSet_inv by blast
  let ?m = "\<lparr>base = a, mapped_len = rounded_len q + of_nat PAGE_SIZE, size_bytes = i,
             quota_bytes = q, dirty = d, region = c\<rparr>"
  show ?thesis
    by (rule that [of ?m]) (simp_all add: new_MmapGuardedMemory_eq assms d Let_def)
qed

lemma new_MmapGuardedMemory_ok:
  assumes "mmap_sound os" and "new_MmapGuardedMemory b os i q = (tr, Inr (Inr m))"
  shows "mem_inv m \<and> size_bytes m = i \<and> quota_bytes m = q \<and> pages (dirty m) = {} \<and>
         base m \<noteq> 0 \<and> (\<forall>k < unat (mapped_len m). region m k = 0) \<and>
         tr = [Mmap (mapped_len m), Mprotect (base m + rounded_len q) (of_nat PAGE_SIZE)] \<and>
         sys_mmap os (mapped_len m) = Inr (base m, region m)"
proof -
  have le: "i \<le> q"
    using assms(2) by (auto simp: new_MmapGuardedMemory_def split: if_splits)
  have cap: "unat (rounded_len q div of_nat PAGE_SIZE) + 63 < 2 ^ 64"
    using quota_pages_bounds(2) [of q] by (simp add: rounded_len_div)
  obtain d where d: "new_DirtyPageSet b (rounded_len q div of_nat PAGE_SIZE) = Inr d"
      "dps_inv d" "capacity_pages d = rounded_len q div of_nat PAGE_SIZE" "pages d = {}"
    using new_DirtyPageSet_inv [OF cap] by blast
  have m: "sys_mmap os (rounded_len q + of_nat PAGE_SIZE) = Inr (base m, region m)"
    and fields: "mapped_len m = rounded_len q + of_nat PAGE_SIZE" "size_bytes m = i"
      "quota_bytes m = q" "dirty m = d"
      "tr = [Mmap (mapped_len m), Mprotect (base m + rounded_len q) (of_nat PAGE_SIZE)]"
    using assms(2) d(1)
    by (auto simp: new_MmapGuardedMemory_eq [OF le] Let_def
        split: sum.splits prod.splits option.splits)
  have sound: "base m \<noteq> 0 \<and> unat (base m) + unat (mapped_len m) \<le> 2 ^ 64 \<and>
               (\<forall>k < unat (mapped_len m). region m k = 0)"
    using assms(1) m unfolding mmap_sound_def fields(1) by blast
  moreover have "mem_inv m"
    using sound d le
    by (simp add: mem_inv_def fields rounded_len_div) (simp add: unat_rounded_len_guard)
  ultimately show ?thesis using d m by (simp add: fields)
qed

text \<open>A failed construction leaves nothing mapped.\<close>

definition nothing_mapped :: "os_calls \<Rightarrow> syscall list \<Rightarrow> bool" where
  "nothing_mapped os tr \<longleftrightarrow>
     tr = [] \<or> (\<exists>len e. tr = [Mmap len] \<and> sys_mmap os len = Inl e) \<or>
     (\<exists>len a c g l. tr = [Mmap len, Mprotect g l, Munmap a len] \<and> sys_mmap os len = Inr (a, c))"

lemma new_MmapGuardedMemory_total:
  "\<exists>tr r. new_MmapGuardedMemory b os i q = (tr, Inr r) \<and> (isl r \<longrightarrow> nothing_mapped os tr)"
proof (cases "q < i")
  case True
  then show ?thesis by (simp add: new_MmapGuardedMemory_def nothing_mapped_def)
next
  case False
  then have le: "i \<le> q" by simp
  let ?len = "rounded_len q + of_nat PAGE_SIZE :: usize"
  show ?thesis
  proof (cases "sys_mmap os ?len")
    case (Inl e)
    then show ?thesis by (auto simp: new_MmapGuardedMemory_eq [OF le] Let_def nothing_mapped_def)
  next
    case (Inr p)
    obtain a c where p: "p = (a, c)" by (cases p)
    show ?thesis
    proof (cases "sys_mprotect os (a + rounded_len q) (of_nat PAGE_SIZE)")
      case None
      show ?thesis
        by (rule new_MmapGuardedMemory_success [OF le Inr [unfolded p] None, of b]) auto
    next
      case (Some e)
      then show ?thesis using Inr p
        by (auto simp: new_MmapGuardedMemory_eq [OF le] Let_def nothing_mapped_def)
    qed
  qed
qed

subsection \<open>Translation, growth and the page view\<close>

lemma translate_eq:
  "translate m p l =
     (if unat p + unat l \<le> unat (size_bytes m) then Inr (base m + ucast p)
      else Inl (OutOfBounds p l (size_bytes m)))"
proof (cases "2 ^ 32 \<le> unat p + unat l")
  case True
  then show ?thesis
    using u32_less [of "size_bytes m"] by (simp add: translate_def checked_add_def)
next
  case False
  then have "size_bytes m < p + l \<longleftrightarrow> unat (size_bytes m) < unat p + unat l"
    by (simp add: word_less_nat_alt unat_plus_small)
  with False show ?thesis by (simp add: translate_def checked_add_def not_le)
qed

lemma translate_range:
  assumes "mem_inv m" and "translate m p l = Inr a"
  shows "unat a = unat (base m) + unat p" and "unat a + unat l + PAGE_SIZE \<le> unat (base m) + unat (mapped_len m)"
proof -
  have a: "unat p + unat l \<le> unat (size_bytes m)" "a = base m + ucast p"
    using assms(2) by (simp_all add: translate_eq split: if_splits)
  have len: "unat p + unat l + PAGE_SIZE \<le> unat (mapped_len m)"
    using a(1) assms(1) quota_pages_bounds(1) [of "quota_bytes m"]
    by (simp add: mem_inv_def word_le_nat_alt)
  then show eq: "unat a = unat (base m) + unat p"
    using assms(1) unfolding a(2) by (subst unat_plus_small) (simp_all add: mem_inv_def PAGE_SIZE_def)
  show "unat a + unat l + PAGE_SIZE \<le> unat (base m) + unat (mapped_len m)" using eq len by simp
qed

lemma grow_eq:
  "grow m d =
     (if unat (size_bytes m) + unat d * PAGE_SIZE \<le> unat (quota_bytes m)
      then Inr (size_bytes m div of_nat PAGE_SIZE,
                m\<lparr>size_bytes := of_nat (unat (size_bytes m) + unat d * PAGE_SIZE)\<rparr>)
      else Inl (QuotaExceeded (of_nat (unat (size_bytes m) + unat d * PAGE_SIZE)) (quota_bytes m)))"
proof -
  let ?new = "(ucast (size_bytes m) :: u64) + ucast d * of_nat PAGE_SIZE"
  have "unat (ucast d * of_nat PAGE_SIZE :: u64) = unat d * PAGE_SIZE"
    using u32_less [of d] by (subst unat_times_small) (simp_all, simp add: PAGE_SIZE_def)
  then have new: "unat ?new = unat (size_bytes m) + unat d * PAGE_SIZE"
    using u32_less [of d] u32_less [of "size_bytes m"]
    by (subst unat_plus_small) (simp_all, simp add: PAGE_SIZE_def)
  have "(ucast ?new :: u32) = of_nat (unat ?new)"
    by (simp add: word_unat_eq_iff unat_ucast_64_32 unat_of_nat)
  then show ?thesis
    unfolding grow_def Let_def word_less_nat_alt new by (simp add: not_le)
qed

lemma grow_inv:
  assumes "mem_inv m" and "grow m d = Inr (n, m')"
  shows "mem_inv m' \<and> base m' = base m \<and> region m' = region m \<and> dirty m' = dirty m \<and>
         unat (size_bytes m') = unat (size_bytes m) + unat d * PAGE_SIZE \<and>
         n = size_bytes m div of_nat PAGE_SIZE"
proof -
  let ?s = "unat (size_bytes m) + unat d * PAGE_SIZE"
  have le: "?s \<le> unat (quota_bytes m)" and m': "m' = m\<lparr>size_bytes := of_nat ?s\<rparr>"
    and n: "n = size_bytes m div of_nat PAGE_SIZE"
    using assms(2) by (simp_all add: grow_eq split: if_splits)
  have "unat (of_nat ?s :: u32) = ?s"
    unfolding unat_of_nat using le u32_less [of "quota_bytes m"] by simp
  then show ?thesis
    using assms(1) le m' n by (simp add: mem_inv_def word_le_nat_alt del: of_nat_add)
qed

lemma page_bytes_eq:
  assumes "mem_inv m" and "unat q < quota_pages (quota_bytes m)"
  shows "page_bytes b m q =
     (if b = Debug \<and> unat (size_bytes m) < (unat q + 1) * PAGE_SIZE then Inl DebugAssertion
      else Inr (page_content m q))"
proof -
  have q: "unat q < 2 ^ 20"
    using assms(2) quota_pages_bounds(2) [of "quota_bytes m"] by linarith
  then have mul: "times_build b q (of_nat PAGE_SIZE) = Inr (q * of_nat PAGE_SIZE)"
    by (intro times_build_Inr) (simp, simp add: PAGE_SIZE_def)
  have off: "unat (q * of_nat PAGE_SIZE :: u64) = unat q * PAGE_SIZE"
    using q by (subst unat_times_small) (simp_all, simp add: PAGE_SIZE_def)
  have add: "plus_build c (q * of_nat PAGE_SIZE) (of_nat PAGE_SIZE) =
             Inr (q * of_nat PAGE_SIZE + of_nat PAGE_SIZE)" for c
    using q by (intro plus_build_Inr) (simp add: off, simp add: PAGE_SIZE_def)
  have e: "unat (q * of_nat PAGE_SIZE + of_nat PAGE_SIZE :: u64) = (unat q + 1) * PAGE_SIZE"
    using q by (subst unat_plus_small) (simp_all add: off, simp add: PAGE_SIZE_def)
  have "(unat q + 2) * PAGE_SIZE \<le> unat (mapped_len m)"
    using assms by (simp add: mem_inv_def del: mult_Suc)
  then have inside: "unat (q * of_nat PAGE_SIZE :: u64) + 2 * PAGE_SIZE \<le> unat (mapped_len m)"
    by (simp add: off algebra_simps)
  have "q * of_nat PAGE_SIZE + of_nat PAGE_SIZE \<le> (ucast (size_bytes m) :: u64) \<longleftrightarrow>
        (unat q + 1) * PAGE_SIZE \<le> unat (size_bytes m)"
    by (simp only: word_le_nat_alt e unat_ucast_32_64)
  then show ?thesis
    using inside by (simp add: page_bytes_def mul add page_content_def off not_le)
qed

lemma committed_page:
  assumes "mem_inv m" and "(unat q + 1) * PAGE_SIZE \<le> unat (size_bytes m)"
  shows "unat q < quota_pages (quota_bytes m)" "page_bytes b m q = Inr (page_content m q)"
proof -
  have "(unat q + 1) * PAGE_SIZE \<le> quota_pages (quota_bytes m) * PAGE_SIZE"
    using assms quota_pages_bounds(1) [of "quota_bytes m"] by (simp add: mem_inv_def word_le_nat_alt)
  then have "unat q + 1 \<le> quota_pages (quota_bytes m)"
    using PAGE_SIZE_pos mult_le_cancel2 by blast
  then show q: "unat q < quota_pages (quota_bytes m)" by simp
  show "page_bytes b m q = Inr (page_content m q)"
    using assms by (simp add: page_bytes_eq [OF _ q])
qed

lemma length_page_content [simp]: "length (page_content m q) = PAGE_SIZE"
  by (simp add: page_content_def)

lemma mark_dirty_inv:
  assumes "mem_inv m" and "unat p < quota_pages (quota_bytes m)"
  shows "\<exists>m'. mark_dirty b m p = Inr m' \<and> mem_inv m' \<and> pages (dirty m') = insert p (pages (dirty m)) \<and>
              m' = m\<lparr>dirty := dirty m'\<rparr>"
proof -
  have "p < capacity_pages (dirty m)"
    using assms by (simp add: mem_inv_def word_less_nat_alt)
  then obtain d where "mark b (dirty m) p = Inr d" "dps_inv d"
      "capacity_pages d = capacity_pages (dirty m)" "pages d = insert p (pages (dirty m))"
    using dirty.mk_abs [of "dirty m" p b] assms(1) by (auto simp: mem_inv_def)
  then show ?thesis using assms(1) by (simp add: mark_dirty_def mem_inv_def)
qed

lemma mmap_ops_simps [simp]:
  "gm_translate (mmap_ops b) = translate" "gm_grow (mmap_ops b) = grow" "gm_size_bytes (mmap_ops b) = size_bytes"
  "gm_dirty_pages (mmap_ops b) = dirty" "gm_mark_dirty (mmap_ops b) = mark_dirty b"
  "gm_page_bytes (mmap_ops b) = page_bytes b" "gm_dirty_pages_mut (mmap_ops b) = dirty_pages_mut"
  by (simp_all add: mmap_ops_def size_bytes_of_def dirty_pages_def fun_eq_iff)

interpretation mmap: guarded_memory "mmap_ops b" base page_content mem_inv
  rewrites "gm_translate (mmap_ops b) = translate" and "gm_grow (mmap_ops b) = grow"
    and "gm_size_bytes (mmap_ops b) = size_bytes" and "gm_dirty_pages (mmap_ops b) = dirty"
    and "gm_mark_dirty (mmap_ops b) = mark_dirty b" and "gm_page_bytes (mmap_ops b) = page_bytes b"
    and "gm_dirty_pages_mut (mmap_ops b) = dirty_pages_mut"
  for b
proof -
  have content: "page_content (m\<lparr>dirty := d\<rparr>) = page_content m" for m d
    by (simp add: page_content_def fun_eq_iff)
  show "guarded_memory (mmap_ops b) base page_content mem_inv"
  proof (unfold_locales, unfold mmap_ops_simps)
    fix m p l a assume "mem_inv m"
    show "translate m p l = Inr a \<longleftrightarrow> unat p + unat l \<le> unat (size_bytes m) \<and> a = base m + ucast p"
      by (auto simp: translate_eq)
  next
    fix m d n m' assume "mem_inv m" "grow m d = Inr (n, m')"
    then show "mem_inv m' \<and> base m' = base m \<and> page_content m' = page_content m \<and>
               unat (size_bytes m') = unat (size_bytes m) + unat d * PAGE_SIZE"
      using grow_inv [of m d n m'] by (auto simp: page_content_def fun_eq_iff)
  next
    fix m and q :: u64 assume inv: "mem_inv m" and q: "(unat q + 1) * PAGE_SIZE \<le> unat (size_bytes m)"
    show "page_bytes b m q = Inr (page_content m q)" by (rule committed_page [OF inv q])
    obtain m' where "mark_dirty b m q = Inr m'" "mem_inv m'" "pages (dirty m') = insert q (pages (dirty m))"
        and m': "m' = m\<lparr>dirty := dirty m'\<rparr>"
      using mark_dirty_inv [OF inv committed_page(1) [OF inv q]] by blast
    moreover have "page_content m' = page_content m" "size_bytes m' = size_bytes m"
      by (subst m', simp add: content)+
    ultimately show "\<exists>m'. mark_dirty b m q = Inr m' \<and> mem_inv m' \<and> page_content m' = page_content m \<and>
        size_bytes m' = size_bytes m \<and> pages (dirty m') = insert q (pages (dirty m))"
      by blast
  next
    fix m assume "mem_inv m"
    then show "mem_inv (dirty_pages_mut m clear_all) \<and> page_content (dirty_pages_mut m clear_all) = page_content m \<and>
        size_bytes (dirty_pages_mut m clear_all) = size_bytes m \<and> pages (dirty (dirty_pages_mut m clear_all)) = {}"
      using dirty.clear_abs [of "dirty m"] by (simp add: dirty_pages_mut_def mem_inv_def content)
  qed
qed simp_all

subsection \<open>A concrete operating system for the witnesses\<close>

definition example_os :: os_calls where
  "example_os =
     \<lparr>sys_mmap = (\<lambda>len. if unat len \<le> 2 ^ 40 then Inr (65536, \<lambda>_. 0) else Inl 12),
      sys_mprotect = (\<lambda>_ _. None)\<rparr>"

lemma example_os_sound: "mmap_sound example_os"
  by (auto simp: mmap_sound_def example_os_def split: if_splits)

lemma example_memory:
  assumes "i \<le> q"
  shows "\<exists>m. new_MmapGuardedMemory b example_os i q =
               ([Mmap (mapped_len m), Mprotect (base m + rounded_len q) (of_nat PAGE_SIZE)],
                Inr (Inr m)) \<and>
             mem_inv m \<and> size_bytes m = i \<and> quota_bytes m = q \<and> base m = 65536 \<and>
             pages (dirty m) = {}"
proof -
  have "unat (rounded_len q + of_nat PAGE_SIZE) \<le> 2 ^ 40"
    using quota_pages_bounds(2) [of q]
    by (simp add: unat_rounded_len_guard) (simp add: PAGE_SIZE_def)
  then have map: "sys_mmap example_os (rounded_len q + of_nat PAGE_SIZE) = Inr (65536, \<lambda>_. 0)"
    and prot: "sys_mprotect example_os (65536 + rounded_len q) (of_nat PAGE_SIZE) = None"
    by (simp_all add: example_os_def)
  obtain m where m: "new_MmapGuardedMemory b example_os i q =
      ([Mmap (rounded_len q + of_nat PAGE_SIZE), Mprotect (65536 + rounded_len q) (of_nat PAGE_SIZE)],
       Inr (Inr m))" "base m = 65536" "mapped_len m = rounded_len q + of_nat PAGE_SIZE"
    by (rule new_MmapGuardedMemory_success [OF assms map prot])
  have "mem_inv m \<and> size_bytes m = i \<and> quota_bytes m = q \<and> pages (dirty m) = {}"
    using new_MmapGuardedMemory_ok [OF example_os_sound m(1)] by blast
  with m show ?thesis by (intro exI [of _ m]) simp
qed

subsection \<open>Properties\<close>

text \<open>
  Property C11. Software fault isolation: \<open>translate\<close> approves a guest range exactly
  when it lies in the committed size, without wrap-around of \<open>ptr + len\<close>; the host
  range it yields starts at the guest offset and ends inside the mapping, before
  the guard page. Every other request is the \<open>OutOfBounds\<close> fault.
\<close>

theorem translate_confined:
  assumes "mem_inv m"
  shows "case translate m p l of
           Inr a \<Rightarrow> unat p + unat l \<le> unat (size_bytes m) \<and>
                    unat a = unat (base m) + unat p \<and>
                    unat a + unat l + PAGE_SIZE \<le> unat (base m) + unat (mapped_len m)
         | Inl e \<Rightarrow> unat (size_bytes m) < unat p + unat l \<and>
                    e = OutOfBounds p l (size_bytes m)"
proof (cases "translate m p l")
  case (Inr a)
  moreover from this have "unat p + unat l \<le> unat (size_bytes m)" by (simp add: translate_eq split: if_splits)
  ultimately show ?thesis using translate_range [OF assms Inr] by simp
next
  case (Inl e)
  then show ?thesis by (auto simp: translate_eq split: if_splits)
qed

theorem translate_confined_witness:
  "\<exists>m. snd (new_MmapGuardedMemory Debug example_os 4096 65536) = Inr (Inr m) \<and>
       (\<exists>a. translate m 4000 96 = Inr a \<and> unat a = 65536 + 4000) \<and>
       translate m 4000 97 = Inl (OutOfBounds 4000 97 4096)"
proof -
  obtain m where m: "snd (new_MmapGuardedMemory Debug example_os 4096 65536) = Inr (Inr m)"
      "mem_inv m" "size_bytes m = 4096" "base m = 65536"
    using example_memory [of 4096 65536 Debug] by auto
  then show ?thesis
    using translate_confined [OF m(2), of 4000 96] translate_confined [OF m(2), of 4000 97]
    by (auto split: sum.splits)
qed

text \<open>
  Property C29. Construction on every path. It never panics and never reports a
  layout overflow. An initial size above the quota is refused before any call; a
  failed \<open>mmap\<close> leaves nothing behind; a failed \<open>mprotect\<close> unmaps exactly the
  mapping just made; success gives a zeroed memory that satisfies the invariant,
  with the page right behind the quota protected, and \<open>drop\<close> unmaps exactly what
  was mapped.
\<close>

theorem new_MmapGuardedMemory_outcomes:
  assumes "mmap_sound os"
  shows "case new_MmapGuardedMemory b os i q of (tr, r) \<Rightarrow>
           if q < i then tr = [] \<and> r = Inr (Inl (QuotaExceeded i q))
           else let len = rounded_len q + of_nat PAGE_SIZE in
             unat len = (quota_pages q + 1) * PAGE_SIZE \<and>
             (case sys_mmap os len of
                Inl e \<Rightarrow> tr = [Mmap len] \<and> r = Inr (Inl (MmapFailed e))
              | Inr (a, c) \<Rightarrow> let g = a + rounded_len q in
                  unat g = unat a + quota_pages q * PAGE_SIZE \<and>
                  (case sys_mprotect os g (of_nat PAGE_SIZE) of
                     Some e \<Rightarrow> tr = [Mmap len, Mprotect g (of_nat PAGE_SIZE), Munmap a len] \<and>
                               r = Inr (Inl (MprotectFailed e))
                   | None \<Rightarrow> tr = [Mmap len, Mprotect g (of_nat PAGE_SIZE)] \<and>
                       (\<exists>m. r = Inr (Inr m) \<and> mem_inv m \<and> size_bytes m = i \<and> quota_bytes m = q \<and>
                            base m = a \<and> pages (dirty m) = {} \<and>
                            (\<forall>k < unat (mapped_len m). region m k = 0) \<and>
                            drop_MmapGuardedMemory m = [Munmap a len])))"
proof (cases "q < i")
  case True
  then show ?thesis by (simp add: new_MmapGuardedMemory_def)
next
  case False
  then have le: "i \<le> q" by simp
  let ?len = "rounded_len q + of_nat PAGE_SIZE :: usize"
  note len = unat_rounded_len_guard [of q]
  show ?thesis
  proof (cases "sys_mmap os ?len")
    case (Inl e)
    then show ?thesis using False len by (simp add: new_MmapGuardedMemory_eq [OF le] Let_def)
  next
    case (Inr p)
    obtain a c where p: "p = (a, c)" by (cases p)
    have "unat a + unat ?len \<le> 2 ^ 64"
      using assms Inr p unfolding mmap_sound_def by blast
    then have "unat a + unat (rounded_len q) < 2 ^ LENGTH(64)"
      using len by (simp add: unat_rounded_len PAGE_SIZE_def)
    then have g: "unat (a + rounded_len q) = unat a + quota_pages q * PAGE_SIZE"
      by (simp add: unat_plus_small unat_rounded_len)
    show ?thesis
    proof (cases "sys_mprotect os (a + rounded_len q) (of_nat PAGE_SIZE)")
      case None
      obtain m where m: "new_MmapGuardedMemory b os i q =
          ([Mmap ?len, Mprotect (a + rounded_len q) (of_nat PAGE_SIZE)], Inr (Inr m))"
          "base m = a" "mapped_len m = ?len"
        by (rule new_MmapGuardedMemory_success [OF le Inr [unfolded p] None])
      from new_MmapGuardedMemory_ok [OF assms m(1)]
      have "mem_inv m \<and> size_bytes m = i \<and> quota_bytes m = q \<and> pages (dirty m) = {} \<and>
            (\<forall>k < unat (mapped_len m). region m k = 0)" by blast
      then show ?thesis
        using False Inr None p g m len by (simp add: drop_MmapGuardedMemory_def Let_def)
    next
      case (Some e)
      then show ?thesis using False Inr p g len
        by (simp add: new_MmapGuardedMemory_eq [OF le] Let_def)
    qed
  qed
qed

theorem new_MmapGuardedMemory_outcomes_witness:
  "new_MmapGuardedMemory Debug example_os 8192 4096 = ([], Inr (Inl (QuotaExceeded 8192 4096))) \<and>
   (\<exists>m. snd (new_MmapGuardedMemory Debug example_os 4096 65536) = Inr (Inr m) \<and> mem_inv m)"
proof -
  have "sys_mmap example_os (rounded_len 65536 + of_nat PAGE_SIZE) = Inr (65536, \<lambda>_. 0)"
    by (simp add: example_os_def rounded_len_def quota_pages_def PAGE_SIZE_def)
  moreover have "sys_mprotect example_os g l = None" for g l
    by (simp add: example_os_def)
  ultimately show ?thesis
    using new_MmapGuardedMemory_outcomes [OF example_os_sound, where b = Debug and i = 8192 and q = 4096]
      new_MmapGuardedMemory_outcomes [OF example_os_sound, where b = Debug and i = 4096 and q = 65536]
    by (auto simp: Let_def split: prod.splits)
qed

text \<open>
  \<open>grow\<close> follows the quota exactly: it succeeds when the new size fits the
  quota, returns the previous page count, adds whole pages and keeps base, contents,
  dirty set and invariant; otherwise nothing changes and the fault reports the
  requested size reduced modulo \<open>2 ^ 32\<close>.
\<close>

theorem grow_functional:
  assumes "mem_inv m"
  shows "if unat (size_bytes m) + unat d * PAGE_SIZE \<le> unat (quota_bytes m)
         then \<exists>n m'. grow m d = Inr (n, m') \<and> unat n = unat (size_bytes m) div PAGE_SIZE \<and>
                mem_inv m' \<and> unat (size_bytes m') = unat (size_bytes m) + unat d * PAGE_SIZE \<and>
                base m' = base m \<and> region m' = region m \<and> dirty m' = dirty m
         else \<exists>r. grow m d = Inl (QuotaExceeded r (quota_bytes m)) \<and>
                unat r = (unat (size_bytes m) + unat d * PAGE_SIZE) mod 2 ^ 32"
proof (cases "unat (size_bytes m) + unat d * PAGE_SIZE \<le> unat (quota_bytes m)")
  case True
  then obtain m' where m': "grow m d = Inr (size_bytes m div of_nat PAGE_SIZE, m')"
    by (simp add: grow_eq)
  from grow_inv [OF assms m'] m' True show ?thesis by (simp add: unat_div)
next
  case False
  have "unat (of_nat k :: u32) = k mod 2 ^ 32" for k
    by (simp add: unat_of_nat)
  with False show ?thesis by (simp only: grow_eq if_False) blast
qed

theorem grow_functional_witness:
  "\<exists>m. mem_inv m \<and> size_bytes m = 0 \<and>
       grow m 1048576 = Inl (QuotaExceeded 0 65536)"
proof -
  obtain m where m: "mem_inv m" "size_bytes m = 0" "quota_bytes m = 65536"
    using example_memory [of 0 65536 Debug] by auto
  then show ?thesis
    using grow_functional [OF m(1), of 1048576] by (auto simp: PAGE_SIZE_def unat_eq_zero)
qed

text \<open>
  A host address that \<open>translate\<close> approved stays approved, for the same
  guest range, through any sequence of successful \<open>grow\<close> calls, and the page view of a
  committed page does not change: growth never moves or unmaps guest memory.
\<close>

theorem growth_keeps_approvals:
  assumes "mem_inv m" and "fold_run (\<lambda>m d. and_then (grow m d) (\<lambda>(n, m'). Inr m')) m ds = Inr m'"
  shows "(translate m p l = Inr a \<longrightarrow> translate m' p l = Inr a) \<and>
         ((unat q + 1) * PAGE_SIZE \<le> unat (size_bytes m) \<longrightarrow> page_bytes b m' q = page_bytes b m q)"
  using mmap.approval_survives_growth [OF assms, of p l a] mmap.page_survives_growth [OF assms, of q b]
  by blast

theorem growth_keeps_approvals_witness:
  "\<exists>m m'. mem_inv m \<and> fold_run (\<lambda>m d. and_then (grow m d) (\<lambda>(n, m'). Inr m')) m [1, 2] = Inr m' \<and>
         translate m 0 4096 = Inr 65536 \<and> translate m' 0 4096 = Inr 65536"
proof -
  obtain m where m: "mem_inv m" "size_bytes m = 4096" "quota_bytes m = 65536" "base m = 65536"
    using example_memory [of 4096 65536 Debug] by auto
  then obtain m' where m': "fold_run (\<lambda>m d. and_then (grow m d) (\<lambda>(n, m'). Inr m')) m [1, 2] = Inr m'"
    by (simp add: grow_eq PAGE_SIZE_def)
  have "translate m 0 4096 = Inr 65536" using m by (simp add: translate_eq)
  then show ?thesis using m m' growth_keeps_approvals [OF m(1) m', of 0 4096 65536 0 Debug] by blast
qed

text \<open>
  The page view of any page the dirty set can name. A release build returns
  the page's bytes, always from inside the mapping. A debug build does the same for
  fully committed pages, but panics for the last page when the committed size is not
  a multiple of the page size, although \<open>translate\<close> approves accesses there.
\<close>

theorem page_bytes_view:
  assumes "mem_inv m" and "unat q < quota_pages (quota_bytes m)"
  shows "page_bytes Release m q = Inr (page_content m q) \<and>
         page_bytes Debug m q =
           (if (unat q + 1) * PAGE_SIZE \<le> unat (size_bytes m) then Inr (page_content m q)
            else Inl DebugAssertion)"
  using page_bytes_eq [OF assms] by simp

theorem page_bytes_view_witness:
  "\<exists>m a. snd (new_MmapGuardedMemory Debug example_os 100 4096) = Inr (Inr m) \<and>
        translate m 0 100 = Inr a \<and> page_bytes Debug m 0 = Inl DebugAssertion"
proof -
  obtain m where m: "snd (new_MmapGuardedMemory Debug example_os 100 4096) = Inr (Inr m)"
      "mem_inv m" "size_bytes m = 100" "quota_bytes m = 4096"
    using example_memory [of 100 4096 Debug] by auto
  then show ?thesis
    using page_bytes_view [OF m(2), of 0] by (simp add: translate_eq quota_pages_def PAGE_SIZE_def)
qed

end
