(* ===== verification/Delta.thy ===== *)
theory Delta
  imports Guarded_Memory
begin

unbundle bit_operations_syntax

section \<open>Delta compression (chronos-mem/src/delta.rs)\<close>

text \<open>
  The XOR and run-length coder of single pages, with the nested index loops of the
  source, and the \<open>DeltaEngine\<close> that both ends of the replication stream keep: the
  primary diffs a page against its baseline and commits, the standby applies the
  delta to its own baseline. The interface \<open>page_codec\<close> is what the engine needs
  of the coder.
\<close>

subsection \<open>Data\<close>

record run_literal =
  zero_run :: u32
  literal :: "u8 list"

datatype page_delta =
    Xor u64 "run_literal list"
  | Raw u64 "u8 list"

fun page_idx :: "page_delta \<Rightarrow> u64" where
  "page_idx (Xor p _) = p"
| "page_idx (Raw p _) = p"

definition encoded_len :: "page_delta \<Rightarrow> nat" where
  "encoded_len delta =
     (case delta of
        Xor _ runs \<Rightarrow> sum_list (map (\<lambda>r. 4 + 4 + length (literal r)) runs)
      | Raw _ _ \<Rightarrow> PAGE_SIZE)"

record delta_engine =
  baseline :: "u8 list list"
  have_baseline :: "bool list"

subsection \<open>Run-length coding\<close>

text \<open>
  The two inner loops of \<open>rle_encode\<close> advance the index over zero and over nonzero
  bytes; the buffer is an array of \<open>PAGE_SIZE\<close> bytes.
\<close>

function skip_zeros :: "u8 list \<Rightarrow> nat \<Rightarrow> nat" where
  "skip_zeros buf i = (if i < PAGE_SIZE \<and> buf ! i = 0 then skip_zeros buf (i + 1) else i)"
  by pat_completeness auto
termination
  by (relation "measure (\<lambda>(buf, i). PAGE_SIZE - i)") auto

function skip_literal :: "u8 list \<Rightarrow> nat \<Rightarrow> nat" where
  "skip_literal buf i = (if i < PAGE_SIZE \<and> buf ! i \<noteq> 0 then skip_literal buf (i + 1) else i)"
  by pat_completeness auto
termination
  by (relation "measure (\<lambda>(buf, i). PAGE_SIZE - i)") auto

declare skip_zeros.simps [simp del] skip_literal.simps [simp del]

lemma skip_zeros_ge: "i \<le> skip_zeros buf i"
proof (induction buf i rule: skip_zeros.induct)
  case (1 buf i)
  then show ?case by (cases "i < PAGE_SIZE \<and> buf ! i = 0") (auto simp: skip_zeros.simps [of buf i])
qed

lemma skip_literal_ge: "i \<le> skip_literal buf i"
proof (induction buf i rule: skip_literal.induct)
  case (1 buf i)
  then show ?case by (cases "i < PAGE_SIZE \<and> buf ! i \<noteq> 0") (auto simp: skip_literal.simps [of buf i])
qed

text \<open>One turn of the outer loop consumes at least one byte.\<close>

lemma skip_progress:
  assumes "i < PAGE_SIZE"
  shows "i < skip_literal buf (skip_zeros buf i)"
proof (cases "buf ! i = 0")
  case True
  then have "i + 1 \<le> skip_zeros buf i"
    using assms skip_zeros_ge [of "i + 1" buf] by (simp add: skip_zeros.simps [of buf i])
  then show ?thesis using skip_literal_ge [of "skip_zeros buf i" buf] by linarith
next
  case False
  then have "skip_zeros buf i = i" "skip_literal buf i = skip_literal buf (i + 1)"
    using assms by (simp_all add: skip_zeros.simps [of buf i] skip_literal.simps [of buf i])
  then show ?thesis using skip_literal_ge [of "i + 1" buf] by simp
qed

function rle_loop :: "u8 list \<Rightarrow> nat \<Rightarrow> run_literal list \<Rightarrow> run_literal list" where
  "rle_loop buf i runs =
     (if i < PAGE_SIZE then
        let j = skip_zeros buf i;
            zero_len = j - i;
            k = skip_literal buf j;
            lit = take (k - j) (drop j buf)
        in rle_loop buf k
             (if 0 < zero_len \<or> lit \<noteq> []
              then runs @ [\<lparr>zero_run = of_nat zero_len, literal = lit\<rparr>] else runs)
      else runs)"
  by pat_completeness auto
termination
  by (relation "measure (\<lambda>(buf, i, runs). PAGE_SIZE - i)") (simp_all add: skip_progress diff_less_mono2)

declare rle_loop.simps [simp del]

definition rle_encode :: "u8 list \<Rightarrow> run_literal list" where
  "rle_encode buf = rle_loop buf 0 []"

text \<open>
  \<open>out[pos..end].copy_from_slice(&lit[..end - pos])\<close>: slicing panics when the range is reversed or
  ends beyond the array, on either side; the two slices then have the same length. A literal
  that ends beyond the page is cut at the page, and a run that starts there is skipped.
\<close>

definition overwrite :: "'a list \<Rightarrow> nat \<Rightarrow> nat \<Rightarrow> 'a list \<Rightarrow> 'a list run" where
  "overwrite out pos e lit =
     (if \<not> (pos \<le> e \<and> e \<le> length out) then Inl IndexOutOfBounds
      else if \<not> e - pos \<le> length lit then Inl IndexOutOfBounds
      else Inr (take pos out @ take (e - pos) lit @ drop e out))"

definition rle_decode_step :: "nat \<times> u8 list \<Rightarrow> run_literal \<Rightarrow> (nat \<times> u8 list) run" where
  "rle_decode_step st r =
     (let pos = fst st + unat (zero_run r);
          e = min (pos + length (literal r)) PAGE_SIZE
      in and_then (if pos < PAGE_SIZE then overwrite (snd st) pos e (literal r) else Inr (snd st)) (\<lambda>out.
           Inr (e, out)))"

definition rle_decode :: "run_literal list \<Rightarrow> u8 list run" where
  "rle_decode runs = and_then (fold_run rle_decode_step (0, replicate PAGE_SIZE 0) runs) (\<lambda>(pos, out). Inr out)"

subsection \<open>The engine\<close>

text \<open>
  \<open>Vec\<close> refuses to hold more than \<open>isize::MAX\<close> bytes; a page takes \<open>PAGE_SIZE\<close> of them.
\<close>

definition isize_max :: nat where
  "isize_max = 2 ^ 63 - 1"

definition zero_page :: "u8 list" where
  "zero_page = replicate PAGE_SIZE 0"

definition resize :: "nat \<Rightarrow> 'a \<Rightarrow> 'a list \<Rightarrow> 'a list" where
  "resize n x xs = (if n \<le> length xs then take n xs else xs @ replicate (n - length xs) x)"

definition new_DeltaEngine :: "usize \<Rightarrow> delta_engine run" where
  "new_DeltaEngine n =
     (if isize_max < unat n * PAGE_SIZE then Inl CapacityOverflow
      else Inr \<lparr>baseline = replicate (unat n) zero_page, have_baseline = replicate (unat n) False\<rparr>)"

definition ensure_capacity :: "build \<Rightarrow> delta_engine \<Rightarrow> usize \<Rightarrow> delta_engine run" where
  "ensure_capacity b e idx =
     (if length (baseline e) \<le> unat idx
      then and_then (plus_build b idx 1) (\<lambda>n.
             if isize_max < unat n * PAGE_SIZE then Inl CapacityOverflow
             else Inr (e\<lparr>baseline := resize (unat n) zero_page (baseline e),
                         have_baseline := resize (unat n) False (have_baseline e)\<rparr>))
      else Inr e)"

definition xor_page :: "u8 list \<Rightarrow> u8 list \<Rightarrow> u8 list" where
  "xor_page prev cur = map (\<lambda>i. prev ! i XOR cur ! i) [0..<PAGE_SIZE]"

definition diff_and_commit ::
  "build \<Rightarrow> delta_engine \<Rightarrow> u64 \<Rightarrow> u8 list \<Rightarrow> (page_delta \<times> delta_engine) run" where
  "diff_and_commit b e p current =
     (if length current \<noteq> PAGE_SIZE then Inl AssertionFailed
      else and_then (ensure_capacity b e p) (\<lambda>e.
        let idx = unat p
        in if length (have_baseline e) \<le> idx \<or> length (baseline e) \<le> idx
           then Inl IndexOutOfBounds
           else if \<not> have_baseline e ! idx then
             Inr (Raw p current, e\<lparr>baseline := (baseline e)[idx := current],
                                   have_baseline := (have_baseline e)[idx := True]\<rparr>)
           else
             let runs = rle_encode (xor_page (baseline e ! idx) current);
                 rle_size = sum_list (map (\<lambda>r. 8 + length (literal r)) runs);
                 e' = e\<lparr>baseline := (baseline e)[idx := current]\<rparr>
             in if rle_size < PAGE_SIZE then Inr (Xor p runs, e') else Inr (Raw p current, e')))"

definition apply_delta :: "build \<Rightarrow> delta_engine \<Rightarrow> page_delta \<Rightarrow> (u8 list \<times> delta_engine) run" where
  "apply_delta b e delta =
     and_then (ensure_capacity b e (page_idx delta)) (\<lambda>e.
       let idx = unat (page_idx delta)
       in if length (have_baseline e) \<le> idx \<or> length (baseline e) \<le> idx
          then Inl IndexOutOfBounds
          else
            and_then (case delta of
                        Raw _ bytes \<Rightarrow> Inr bytes
                      | Xor _ runs \<Rightarrow>
                        let prev = (if have_baseline e ! idx then baseline e ! idx else zero_page)
                        in and_then (rle_decode runs) (\<lambda>xor_buf. Inr (xor_page prev xor_buf)))
              (\<lambda>out. Inr (out, e\<lparr>baseline := (baseline e)[idx := out],
                                 have_baseline := (have_baseline e)[idx := True]\<rparr>)))"

text \<open>A sequence of page writes through the primary's engine, and of deltas through the standby's.\<close>

fun diff_stream ::
  "build \<Rightarrow> delta_engine \<Rightarrow> (u64 \<times> u8 list) list \<Rightarrow> (page_delta list \<times> delta_engine) run" where
  "diff_stream b e [] = Inr ([], e)"
| "diff_stream b e ((p, c) # ws) =
     and_then (diff_and_commit b e p c) (\<lambda>(d, e'). and_then (diff_stream b e' ws) (\<lambda>(ds, e''). Inr (d # ds, e'')))"

fun apply_stream ::
  "build \<Rightarrow> delta_engine \<Rightarrow> page_delta list \<Rightarrow> (u8 list list \<times> delta_engine) run" where
  "apply_stream b e [] = Inr ([], e)"
| "apply_stream b e (d # ds) =
     and_then (apply_delta b e d) (\<lambda>(c, e'). and_then (apply_stream b e' ds) (\<lambda>(cs, e''). Inr (c # cs, e'')))"

subsection \<open>Invariant and abstraction\<close>

definition engine_inv :: "delta_engine \<Rightarrow> bool" where
  "engine_inv e \<longleftrightarrow> length (have_baseline e) = length (baseline e) \<and>
     (\<forall>i < length (baseline e). length (baseline e ! i) = PAGE_SIZE)"

definition engine_map :: "delta_engine \<Rightarrow> nat \<rightharpoonup> u8 list" where
  "engine_map e i =
     (if i < length (baseline e) \<and> have_baseline e ! i then Some (baseline e ! i) else None)"

text \<open>The pages an engine can hold before \<open>Vec\<close> refuses.\<close>

definition trackable :: "u64 \<Rightarrow> bool" where
  "trackable p \<longleftrightarrow> (unat p + 1) * PAGE_SIZE \<le> isize_max"

subsection \<open>What the engine needs of a coder\<close>

locale page_codec =
  fixes enc :: "u8 list \<Rightarrow> 'c" and dec :: "'c \<Rightarrow> u8 list run"
  assumes dec_enc: "length buf = PAGE_SIZE \<Longrightarrow> dec (enc buf) = Inr buf"
begin

lemma xor_roundtrip:
  assumes "length cur = PAGE_SIZE"
  shows "and_then (dec (enc (xor_page prev cur))) (\<lambda>x. Inr (xor_page prev x)) = Inr cur"
proof -
  have "dec (enc (xor_page prev cur)) = Inr (xor_page prev cur)"
    by (rule dec_enc) (simp add: xor_page_def)
  moreover have "xor_page prev (xor_page prev cur) = cur"
    using assms by (auto simp: xor_page_def xor.assoc [symmetric] intro!: nth_equalityI)
  ultimately show ?thesis by simp
qed

lemma codec_inject:
  "length x = PAGE_SIZE \<Longrightarrow> length y = PAGE_SIZE \<Longrightarrow> enc x = enc y \<Longrightarrow> x = y"
  by (metis dec_enc sum.inject(2))

end

subsection \<open>The coder is lossless\<close>

lemma skip_zeros_bound: "i \<le> PAGE_SIZE \<Longrightarrow> skip_zeros buf i \<le> PAGE_SIZE"
proof (induction buf i rule: skip_zeros.induct)
  case (1 buf i)
  then show ?case by (cases "i < PAGE_SIZE \<and> buf ! i = 0") (auto simp: skip_zeros.simps [of buf i])
qed

lemma skip_literal_bound: "i \<le> PAGE_SIZE \<Longrightarrow> skip_literal buf i \<le> PAGE_SIZE"
proof (induction buf i rule: skip_literal.induct)
  case (1 buf i)
  then show ?case
    by (cases "i < PAGE_SIZE \<and> buf ! i \<noteq> 0") (auto simp: skip_literal.simps [of buf i])
qed

lemma skip_zeros_zero: "i \<le> n \<Longrightarrow> n < skip_zeros buf i \<Longrightarrow> buf ! n = 0"
proof (induction buf i rule: skip_zeros.induct)
  case (1 buf i)
  have stop: "\<not> (i < PAGE_SIZE \<and> buf ! i = 0) \<Longrightarrow> skip_zeros buf i = i"
    by (subst skip_zeros.simps) auto
  show ?case
  proof (cases "i < PAGE_SIZE \<and> buf ! i = 0")
    case True
    with 1 show ?thesis by (cases "i = n") (simp_all add: skip_zeros.simps [of buf i])
  next
    case False
    with 1 stop show ?thesis by simp
  qed
qed

text \<open>
  The byte stream that runs stand for. Decoding yields its first page, filled up with zeros, for
  any runs at all: no slice is out of range, and what lies beyond the page is dropped.
\<close>

definition run_stream :: "run_literal list \<Rightarrow> u8 list" where
  "run_stream runs = concat (map (\<lambda>r. replicate (unat (zero_run r)) 0 @ literal r) runs)"

definition decoded :: "u8 list \<Rightarrow> nat \<times> u8 list" where
  "decoded xs = (min (length xs) PAGE_SIZE, take PAGE_SIZE (xs @ replicate PAGE_SIZE 0))"

lemma run_stream_simps [simp]:
  "run_stream [] = []" "run_stream (r # rs) = replicate (unat (zero_run r)) 0 @ literal r @ run_stream rs"
  "run_stream (rs @ rs') = run_stream rs @ run_stream rs'"
  by (simp_all add: run_stream_def)

lemma overwrite_page:
  assumes "pos < PAGE_SIZE" and "e = min (pos + length lit) PAGE_SIZE" and "length out = PAGE_SIZE"
  shows "overwrite out pos e lit = Inr (take pos out @ take (e - pos) lit @ drop e out)"
  using assms by (auto simp: overwrite_def)

lemma splice_stream:
  assumes "n = length xs + z" and "n < PAGE_SIZE" and "e = min (n + length lit) PAGE_SIZE"
    and "out = xs @ replicate (PAGE_SIZE - length xs) 0"
  shows "take n out @ take (e - n) lit @ drop e out = take PAGE_SIZE (xs @ replicate z 0 @ lit @ replicate PAGE_SIZE 0)"
proof (cases "n + length lit < PAGE_SIZE")
  case True
  then have "e = n + length lit" using assms(3) by simp
  then show ?thesis using assms(1,2,4) True by simp
next
  case False
  then have "e = PAGE_SIZE" using assms(3) by simp
  then show ?thesis using assms(1,2,4) False by simp
qed

lemma rle_decode_step_stream:
  "rle_decode_step (decoded xs) r = Inr (decoded (xs @ replicate (unat (zero_run r)) 0 @ literal r))"
proof (cases "length xs + unat (zero_run r) < PAGE_SIZE")
  case False
  have "take PAGE_SIZE (xs @ replicate (unat (zero_run r)) 0 @ literal r @ replicate PAGE_SIZE 0) =
      take PAGE_SIZE (xs @ replicate PAGE_SIZE 0)"
    using False by (cases "length xs < PAGE_SIZE") simp_all
  then show ?thesis using False by (auto simp: rle_decode_step_def decoded_def Let_def)
next
  case True
  let ?n = "length xs + unat (zero_run r)" and ?out = "xs @ replicate (PAGE_SIZE - length xs) 0"
  let ?e = "min (?n + length (literal r)) PAGE_SIZE"
  have dec: "decoded xs = (length xs, ?out)" using True by (simp add: decoded_def)
  have "overwrite ?out ?n ?e (literal r) = Inr (take ?n ?out @ take (?e - ?n) (literal r) @ drop ?e ?out)"
    by (rule overwrite_page [OF True refl]) (use True in simp)
  also have "\<dots> = Inr (take PAGE_SIZE (xs @ replicate (unat (zero_run r)) 0 @ literal r @ replicate PAGE_SIZE 0))"
    by (simp only: splice_stream [OF refl True refl refl])
  finally show ?thesis using True by (simp only: dec) (simp add: rle_decode_step_def decoded_def Let_def add.assoc)
qed

lemma rle_decode_eq: "rle_decode runs = Inr (take PAGE_SIZE (run_stream runs @ replicate PAGE_SIZE 0))"
proof -
  have "fold_run rle_decode_step (decoded xs) runs = Inr (decoded (xs @ run_stream runs))" for xs
    by (induction runs arbitrary: xs) (simp_all add: rle_decode_step_stream)
  from this [of "[]"] show ?thesis by (simp add: rle_decode_def decoded_def)
qed

lemma run_stream_rle_loop:
  assumes "length buf = PAGE_SIZE" and "i \<le> PAGE_SIZE"
  shows "run_stream (rle_loop buf i runs) = run_stream runs @ drop i buf"
  using assms
proof (induction buf i runs rule: rle_loop.induct)
  case (1 buf i runs)
  show ?case
  proof (cases "i < PAGE_SIZE")
    case True
    let ?j = "skip_zeros buf i"
    let ?k = "skip_literal buf ?j"
    let ?lit = "take (?k - ?j) (drop ?j buf)"
    have le: "i \<le> ?j" "i < ?k" "?j \<le> ?k" "?k \<le> PAGE_SIZE"
      using True by (simp_all add: skip_zeros_ge skip_progress skip_literal_ge skip_literal_bound skip_zeros_bound)
    then have z: "unat (of_nat (?j - i) :: u32) = ?j - i"
      unfolding unat_of_nat by (simp add: PAGE_SIZE_def)
    have push: "0 < ?j - i \<or> ?lit \<noteq> []" using le 1(2) by auto
    have "take (?j - i) (drop i buf) = replicate (?j - i) 0"
      using le 1(2) skip_zeros_zero [of i _ buf] by (intro nth_equalityI) auto
    then have "drop i buf = replicate (?j - i) 0 @ drop ?j buf"
      using append_take_drop_id [of "?j - i" "drop i buf"] le(1) by simp
    moreover have "drop ?j buf = ?lit @ drop ?k buf"
      using append_take_drop_id [of "?k - ?j" "drop ?j buf"] le(3) by simp
    ultimately have split: "drop i buf = replicate (?j - i) 0 @ ?lit @ drop ?k buf" by simp
    from 1(1) [OF True refl refl refl refl 1(2) le(4)] push True z show ?thesis
      by (simp add: rle_loop.simps [of buf i] Let_def) (simp add: split)
  next
    case False
    then have "rle_loop buf i runs = runs" by (simp add: rle_loop.simps [of buf i])
    with False 1 show ?thesis by simp
  qed
qed

lemma rle_roundtrip:
  assumes "length buf = PAGE_SIZE"
  shows "rle_decode (rle_encode buf) = Inr buf"
  using assms run_stream_rle_loop [of buf 0 "[]"] by (simp add: rle_decode_eq rle_encode_def)

interpretation rle: page_codec rle_encode rle_decode
  by unfold_locales (rule rle_roundtrip)

subsection \<open>The engine under its invariant\<close>

lemma length_zero_page [simp]: "length zero_page = PAGE_SIZE"
  by (simp add: zero_page_def)

lemma length_xor_page [simp]: "length (xor_page p c) = PAGE_SIZE"
  by (simp add: xor_page_def)

lemma resize_grow: "length xs \<le> n \<Longrightarrow> resize n x xs = xs @ replicate (n - length xs) x"
  by (simp add: resize_def)

lemma new_DeltaEngine_ok:
  assumes "unat n * PAGE_SIZE \<le> isize_max"
  shows "\<exists>e. new_DeltaEngine n = Inr e \<and> engine_inv e \<and> engine_map e = Map.empty"
  using assms by (auto simp: new_DeltaEngine_def engine_inv_def engine_map_def)

lemma ensure_capacity_ok:
  assumes "engine_inv e" and "trackable p"
  shows "\<exists>e'. ensure_capacity b e p = Inr e' \<and> engine_inv e' \<and> engine_map e' = engine_map e \<and>
              unat p < length (baseline e')"
proof (cases "length (baseline e) \<le> unat p")
  case False
  with assms show ?thesis by (simp add: ensure_capacity_def)
next
  case True
  have small: "unat p + 1 < 2 ^ 64"
    using assms(2) by (simp add: trackable_def isize_max_def PAGE_SIZE_def)
  let ?e = "e\<lparr>baseline := resize (unat p + 1) zero_page (baseline e),
              have_baseline := resize (unat p + 1) False (have_baseline e)\<rparr>"
  have "ensure_capacity b e p = Inr ?e"
    using True assms(2) small
    by (simp add: ensure_capacity_def run_simps unat_Suc_small trackable_def not_less)
  moreover have "engine_inv ?e" "engine_map ?e = engine_map e" "unat p < length (baseline ?e)"
    using True assms(1) by (auto simp: engine_inv_def engine_map_def resize_grow nth_append fun_eq_iff)
  ultimately show ?thesis by blast
qed

lemma engine_commit:
  assumes "engine_inv e" and "i < length (baseline e)" and "length c = PAGE_SIZE"
  shows "engine_inv (e\<lparr>baseline := (baseline e)[i := c], have_baseline := (have_baseline e)[i := True]\<rparr>)"
    and "engine_map (e\<lparr>baseline := (baseline e)[i := c], have_baseline := (have_baseline e)[i := True]\<rparr>) =
         (engine_map e)(i \<mapsto> c)"
  using assms by (auto simp: engine_inv_def engine_map_def nth_list_update fun_eq_iff)

lemma diff_and_commit_ok:
  assumes "engine_inv e" and "trackable p" and "length c = PAGE_SIZE"
  shows "\<exists>d e'. diff_and_commit b e p c = Inr (d, e') \<and> engine_inv e' \<and>
                engine_map e' = (engine_map e)(unat p \<mapsto> c) \<and> page_idx d = p \<and>
                encoded_len d \<le> PAGE_SIZE \<and>
                (d = Raw p c \<or> (\<exists>prev. engine_map e (unat p) = Some prev \<and>
                                     d = Xor p (rle_encode (xor_page prev c))))"
proof -
  obtain e1 where e1: "ensure_capacity b e p = Inr e1" "engine_inv e1" "engine_map e1 = engine_map e"
      "unat p < length (baseline e1)"
    using ensure_capacity_ok [OF assms(1,2)] by blast
  then have len: "unat p < length (have_baseline e1)" by (simp add: engine_inv_def)
  note commit = engine_commit [OF e1(2,4) assms(3)]
  show ?thesis
  proof (cases "have_baseline e1 ! unat p")
    case False
    with commit e1 len assms(3) show ?thesis
      by (simp add: diff_and_commit_def Let_def encoded_len_def)
  next
    case True
    then have same: "(have_baseline e1)[unat p := True] = have_baseline e1"
      by (metis list_update_id)
    have "engine_map e (unat p) = Some (baseline e1 ! unat p)"
      using True e1(3,4) by (metis engine_map_def)
    with True commit e1 len assms(3) show ?thesis
      by (simp add: diff_and_commit_def Let_def encoded_len_def same)
  qed
qed

lemma apply_delta_ok:
  assumes "engine_inv e" and "trackable p" and "length c = PAGE_SIZE"
    and "d = Raw p c \<or> (\<exists>prev. engine_map e (unat p) = Some prev \<and> d = Xor p (rle_encode (xor_page prev c)))"
  shows "\<exists>e'. apply_delta b e d = Inr (c, e') \<and> engine_inv e' \<and>
              engine_map e' = (engine_map e)(unat p \<mapsto> c)"
proof -
  obtain e1 where e1: "ensure_capacity b e p = Inr e1" "engine_inv e1" "engine_map e1 = engine_map e"
      "unat p < length (baseline e1)"
    using ensure_capacity_ok [OF assms(1,2)] by blast
  then have len: "unat p < length (have_baseline e1)" by (simp add: engine_inv_def)
  have idx: "page_idx d = p" using assms(4) by auto
  have "(case d of Raw _ bytes \<Rightarrow> Inr bytes
         | Xor _ runs \<Rightarrow> let prev = (if have_baseline e1 ! unat p then baseline e1 ! unat p else zero_page)
                          in and_then (rle_decode runs) (\<lambda>xor_buf. Inr (xor_page prev xor_buf))) = Inr c"
    using assms(4)
  proof
    assume "\<exists>prev. engine_map e (unat p) = Some prev \<and> d = Xor p (rle_encode (xor_page prev c))"
    then obtain prev where "engine_map e1 (unat p) = Some prev" "d = Xor p (rle_encode (xor_page prev c))"
      using e1(3) by auto
    then show ?thesis
      using rle.xor_roundtrip [OF assms(3), of prev] by (auto simp: engine_map_def Let_def split: if_splits)
  qed simp
  with engine_commit [OF e1(2,4) assms(3)] e1 len idx show ?thesis
    by (simp add: apply_delta_def Let_def)
qed

text \<open>One page through both engines, when the standby knows at least the primary's baselines.\<close>

lemma ship_page:
  assumes "engine_inv e" and "engine_inv s" and "engine_map e \<subseteq>\<^sub>m engine_map s"
    and "trackable p" and "length c = PAGE_SIZE"
  shows "\<exists>d e' s'. diff_and_commit b e p c = Inr (d, e') \<and> apply_delta b' s d = Inr (c, s') \<and>
            engine_inv e' \<and> engine_inv s' \<and> engine_map e' \<subseteq>\<^sub>m engine_map s' \<and>
            engine_map e' = (engine_map e)(unat p \<mapsto> c) \<and>
            engine_map s' = (engine_map s)(unat p \<mapsto> c) \<and> encoded_len d \<le> PAGE_SIZE"
proof -
  obtain d e' where d: "diff_and_commit b e p c = Inr (d, e')" "engine_inv e'"
      "engine_map e' = (engine_map e)(unat p \<mapsto> c)" "encoded_len d \<le> PAGE_SIZE"
    and form: "d = Raw p c \<or> (\<exists>prev. engine_map e (unat p) = Some prev \<and>
                                   d = Xor p (rle_encode (xor_page prev c)))"
    using diff_and_commit_ok [OF assms(1,4,5), of b] by blast
  from form have "d = Raw p c \<or> (\<exists>prev. engine_map s (unat p) = Some prev \<and>
                                   d = Xor p (rle_encode (xor_page prev c)))"
    using assms(3) by (metis domI map_le_def)
  from apply_delta_ok [OF assms(2,4,5) this, of b'] obtain s' where
    "apply_delta b' s d = Inr (c, s')" "engine_inv s'" "engine_map s' = (engine_map s)(unat p \<mapsto> c)"
    by blast
  moreover from this d assms(3) have "engine_map e' \<subseteq>\<^sub>m engine_map s'"
    by (simp add: map_le_upd)
  ultimately show ?thesis using d by blast
qed

text \<open>A stream of pages through both engines.\<close>

lemma stream_sync:
  assumes "engine_inv e" and "engine_inv s" and "engine_map e \<subseteq>\<^sub>m engine_map s"
    and "\<forall>(p, c)\<in>set ws. trackable p \<and> length c = PAGE_SIZE"
  shows "\<exists>ds e' s'. diff_stream b e ws = Inr (ds, e') \<and>
            apply_stream b' s ds = Inr (map snd ws, s') \<and>
            engine_inv e' \<and> engine_inv s' \<and> engine_map e' \<subseteq>\<^sub>m engine_map s' \<and>
            engine_map s' = engine_map s ++ map_of (rev (map (\<lambda>(p, c). (unat p, c)) ws)) \<and>
            list_all (\<lambda>d. encoded_len d \<le> PAGE_SIZE) ds"
  using assms
proof (induction ws arbitrary: e s)
  case Nil
  then show ?case by simp
next
  case (Cons w ws)
  obtain p c where w: "w = (p, c)" by (cases w)
  with Cons.prems have pc: "trackable p" "length c = PAGE_SIZE" by auto
  obtain d e1 s1 where one: "diff_and_commit b e p c = Inr (d, e1)" "apply_delta b' s d = Inr (c, s1)"
      "engine_inv e1" "engine_inv s1" "engine_map e1 \<subseteq>\<^sub>m engine_map s1"
      "engine_map s1 = (engine_map s)(unat p \<mapsto> c)" "encoded_len d \<le> PAGE_SIZE"
    using ship_page [OF Cons.prems(1-3) pc, of b b'] by blast
  have "\<forall>(p, c)\<in>set ws. trackable p \<and> length c = PAGE_SIZE" using Cons.prems(4) by auto
  from Cons.IH [OF one(3-5) this] obtain ds e' s' where
      "diff_stream b e1 ws = Inr (ds, e')" "apply_stream b' s1 ds = Inr (map snd ws, s')"
      "engine_inv e'" "engine_inv s'" "engine_map e' \<subseteq>\<^sub>m engine_map s'" "list_all (\<lambda>d. encoded_len d \<le> PAGE_SIZE) ds"
      "engine_map s' = engine_map s1 ++ map_of (rev (map (\<lambda>(p, c). (unat p, c)) ws))"
    by blast
  with one w show ?case by (simp add: map_add_upd_left map_of_append)
qed

subsection \<open>Properties\<close>

text \<open>
  The run-length coder is lossless on pages: decoding the encoding of
  any buffer of one page gives the buffer back, for all three shapes of a run (zeros
  and a literal, a leading literal, trailing zeros).
\<close>

theorem rle_decode_encode:
  assumes "length buf = PAGE_SIZE"
  shows "rle_decode (rle_encode buf) = Inr buf"
  by (rule rle.dec_enc [OF assms])

theorem rle_decode_encode_witness:
  "rle_decode (rle_encode (replicate 10 0 @ [42] @ replicate 4085 0)) =
   Inr (replicate 10 0 @ [42] @ replicate 4085 0)"
  by (rule rle_decode_encode) (simp add: PAGE_SIZE_def)

text \<open>
  Property C23. Live replication of page contents. Whatever sequence of page writes the
  primary diffs and commits, no call panics, and a standby whose baselines include the
  primary's reconstructs every page exactly from the deltas, in order; afterwards its
  baselines again include the primary's. Every delta is at most a page on the wire.
\<close>

theorem delta_stream_sync:
  assumes "engine_inv e" and "engine_inv s" and "engine_map e \<subseteq>\<^sub>m engine_map s"
    and "\<forall>(p, c)\<in>set ws. trackable p \<and> length c = PAGE_SIZE"
  shows "\<exists>ds e' s'. diff_stream b e ws = Inr (ds, e') \<and>
            apply_stream b' s ds = Inr (map snd ws, s') \<and>
            engine_map e' \<subseteq>\<^sub>m engine_map s' \<and>
            engine_map s' = engine_map s ++ map_of (rev (map (\<lambda>(p, c). (unat p, c)) ws)) \<and>
            list_all (\<lambda>d. encoded_len d \<le> PAGE_SIZE) ds"
  using stream_sync [OF assms, of b b'] by blast

theorem delta_stream_sync_witness:
  "\<exists>e s ds e' s'. new_DeltaEngine 4 = Inr e \<and> new_DeltaEngine 0 = Inr s \<and>
     diff_stream Debug e [(0, zero_page), (9, zero_page), (0, replicate PAGE_SIZE 7)] = Inr (ds, e') \<and>
     apply_stream Release s ds = Inr ([zero_page, zero_page, replicate PAGE_SIZE 7], s') \<and>
     engine_map s' 0 = Some (replicate PAGE_SIZE 7)"
proof -
  obtain e where e: "new_DeltaEngine 4 = Inr e" "engine_inv e" "engine_map e = Map.empty"
    using new_DeltaEngine_ok [of 4] by (auto simp: isize_max_def PAGE_SIZE_def)
  obtain s where s: "new_DeltaEngine 0 = Inr s" "engine_inv s" "engine_map s = Map.empty"
    using new_DeltaEngine_ok [of 0] by auto
  show ?thesis
    using e s delta_stream_sync [of e s "[(0, zero_page), (9, zero_page), (0, replicate PAGE_SIZE 7)]"
        Debug Release]
    by (auto simp: trackable_def isize_max_def PAGE_SIZE_def)
qed

end
