(* ===== verification/Merkle.thy ===== *)
theory Merkle
  imports Delta
begin

unbundle bit_operations_syntax

section \<open>Sparse Merkle tree (chronos-mem/src/smt.rs, tree part)\<close>

text \<open>
  The tree over page hashes: the default hashes, the cached leaves and the level by
  level recomputation of the root over the touched leaves only, in an arbitrary
  iteration order of the hash maps. The reference is the root of the full tree of
  \<open>2 ^ 32\<close> leaves. \<open>blake3\<close> is a third-party crate: its hash function is the
  parameter \<open>H\<close> from byte strings to digests, and an incremental hasher is \<open>H\<close> of the
  concatenated updates.
\<close>

subsection \<open>State and operations\<close>

type_synonym digest = "u8 list"

type_synonym hash_fn = "u8 list \<Rightarrow> digest"

definition TREE_DEPTH :: nat where
  "TREE_DEPTH = 32"

definition default_hashes :: "hash_fn \<Rightarrow> digest list" where
  "default_hashes H =
     foldl (\<lambda>hashes d. let prev = hashes ! (d - 1) in hashes[d := H (prev @ prev)])
       ((replicate (TREE_DEPTH + 1) (H []))[0 := H zero_page]) [1..<TREE_DEPTH + 1]"

record sparse_merkle_tree =
  leaves :: "(u64, digest) hash_map"
  defaults :: "digest list"

definition new_SparseMerkleTree :: "hash_fn \<Rightarrow> sparse_merkle_tree" where
  "new_SparseMerkleTree H = \<lparr>leaves = [], defaults = default_hashes H\<rparr>"

definition default_SparseMerkleTree :: "hash_fn \<Rightarrow> sparse_merkle_tree" where
  "default_SparseMerkleTree H = new_SparseMerkleTree H"

definition update_leaf :: "hash_fn \<Rightarrow> sparse_merkle_tree \<Rightarrow> u64 \<Rightarrow> u8 list \<Rightarrow> sparse_merkle_tree" where
  "update_leaf H t p bytes = t\<lparr>leaves := hm_insert p (H bytes) (leaves t)\<rparr>"

definition leaf_hash :: "sparse_merkle_tree \<Rightarrow> u64 \<Rightarrow> digest" where
  "leaf_hash t p = (case hm_get (leaves t) p of Some h \<Rightarrow> h | None \<Rightarrow> defaults t ! 0)"

definition level_get :: "(u64, digest) hash_map \<Rightarrow> digest \<Rightarrow> u64 \<Rightarrow> digest" where
  "level_get level dflt i = (case hm_get level i of Some h \<Rightarrow> h | None \<Rightarrow> dflt)"

text \<open>
  The shifts \<open>idx >> 1\<close> and \<open>parent << 1\<close>, the body of the loop over the entries of one
  level, and the loop over the levels.
\<close>

definition parent_index :: "u64 \<Rightarrow> u64" where
  "parent_index idx = drop_bit 1 idx"

definition left_child :: "u64 \<Rightarrow> u64" where
  "left_child parent = push_bit 1 parent"

definition combine_parent ::
  "hash_fn \<Rightarrow> (u64, digest) hash_map \<Rightarrow> digest \<Rightarrow> (u64, digest) hash_map \<Rightarrow> u64 \<Rightarrow> (u64, digest) hash_map" where
  "combine_parent H level dflt nxt idx =
     (let parent = parent_index idx
      in if hm_get nxt parent \<noteq> None then nxt
         else
           let left_idx = left_child parent;
               right_idx = left_idx + 1;
               left = level_get level dflt left_idx;
               right = level_get level dflt right_idx
           in hm_insert parent (H (left @ right)) nxt)"

definition next_level ::
  "(u64 \<times> digest) iter_order \<Rightarrow> hash_fn \<Rightarrow> digest \<Rightarrow> (u64, digest) hash_map
     \<Rightarrow> (u64, digest) hash_map" where
  "next_level ord H dflt level = foldl (combine_parent H level dflt) [] (map fst (iterate ord level))"

definition root ::
  "(u64 \<times> digest) iter_order \<Rightarrow> hash_fn \<Rightarrow> sparse_merkle_tree \<Rightarrow> digest" where
  "root ord H t =
     (if leaves t = [] then defaults t ! TREE_DEPTH
      else
        let level = foldl (\<lambda>level depth. next_level ord H (defaults t ! depth) level)
                      (iterate ord (leaves t)) [0..<TREE_DEPTH]
        in case map snd (iterate ord level) of [] \<Rightarrow> defaults t ! TREE_DEPTH | h # _ \<Rightarrow> h)"

subsection \<open>The reference: the full tree\<close>

text \<open>
  \<open>node_hash H f d i\<close> is the hash of the node \<open>i\<close> at height \<open>d\<close> of the complete binary
  tree whose leaf number \<open>n\<close> has the hash \<open>f n\<close>.
\<close>

fun node_hash :: "hash_fn \<Rightarrow> (nat \<Rightarrow> digest) \<Rightarrow> nat \<Rightarrow> nat \<Rightarrow> digest" where
  "node_hash H f 0 i = f i"
| "node_hash H f (Suc d) i = H (node_hash H f d (2 * i) @ node_hash H f d (2 * i + 1))"

fun default_hash :: "hash_fn \<Rightarrow> nat \<Rightarrow> digest" where
  "default_hash H 0 = H zero_page"
| "default_hash H (Suc d) = H (default_hash H d @ default_hash H d)"

text \<open>The messages hashed below a node.\<close>

fun node_msgs :: "hash_fn \<Rightarrow> (nat \<Rightarrow> digest) \<Rightarrow> nat \<Rightarrow> nat \<Rightarrow> u8 list set" where
  "node_msgs H f 0 i = {}"
| "node_msgs H f (Suc d) i =
     insert (node_hash H f d (2 * i) @ node_hash H f d (2 * i + 1))
       (node_msgs H f d (2 * i) \<union> node_msgs H f d (2 * i + 1))"

definition leaf_fn :: "hash_fn \<Rightarrow> sparse_merkle_tree \<Rightarrow> nat \<Rightarrow> digest" where
  "leaf_fn H t n = (if n < 2 ^ 64 then leaf_hash t (of_nat n) else H zero_page)"

definition smt_inv :: "hash_fn \<Rightarrow> sparse_merkle_tree \<Rightarrow> bool" where
  "smt_inv H t \<longleftrightarrow> hm_inv (leaves t) \<and> defaults t = default_hashes H \<and> snd ` set (leaves t) \<subseteq> range H"

definition within_depth :: "sparse_merkle_tree \<Rightarrow> bool" where
  "within_depth t \<longleftrightarrow> (\<forall>k\<in>fst ` set (leaves t). unat k < 2 ^ TREE_DEPTH)"

subsection \<open>What a checkpoint needs of the tree\<close>

text \<open>
  A store of leaf hashes below a bound: updating a page replaces its leaf hash and
  the root is a function of the leaf hashes alone. Rehashing a list of pages then
  has the effect of hashing each of them once, whatever the order.
\<close>

locale leaf_store =
  fixes H :: hash_fn
    and upd :: "'t \<Rightarrow> u64 \<Rightarrow> u8 list \<Rightarrow> 't"
    and lf :: "'t \<Rightarrow> u64 \<Rightarrow> digest"
    and rt :: "'t \<Rightarrow> digest"
    and inv :: "'t \<Rightarrow> bool"
    and bound :: nat
  assumes upd_inv: "inv t \<Longrightarrow> unat p < bound \<Longrightarrow> inv (upd t p bs)"
    and upd_leaf: "inv t \<Longrightarrow> lf (upd t p bs) = (lf t)(p := H bs)"
    and root_leaves: "inv t \<Longrightarrow> inv t' \<Longrightarrow> lf t = lf t' \<Longrightarrow> rt t = rt t'"
begin

lemma rehash:
  assumes "inv t" and "\<forall>p\<in>set ps. pg p = Inr (c p) \<and> unat p < bound"
  shows "\<exists>t'. fold_run (\<lambda>t p. and_then (pg p) (\<lambda>bs. Inr (upd t p bs))) t ps = Inr t' \<and> inv t' \<and>
              lf t' = (\<lambda>p. if p \<in> set ps then H (c p) else lf t p)"
  using assms
proof (induction ps arbitrary: t)
  case Nil
  then show ?case by simp
next
  case (Cons p ps)
  then have "inv (upd t p (c p))" by (simp add: upd_inv)
  from Cons.IH [OF this] Cons.prems(2) obtain t' where
      "fold_run (\<lambda>t p. and_then (pg p) (\<lambda>bs. Inr (upd t p bs))) (upd t p (c p)) ps = Inr t'" "inv t'"
      "lf t' = (\<lambda>q. if q \<in> set ps then H (c q) else ((lf t)(p := H (c p))) q)"
    unfolding upd_leaf [OF Cons.prems(1)] by auto
  with Cons.prems(2) show ?case by (auto simp: fun_eq_iff)
qed

lemma rehash_root:
  assumes "inv t" and "inv t'" and "\<forall>p\<in>set ps. pg p = Inr (c p) \<and> unat p < bound"
    and "\<forall>p. lf t' p = (if p \<in> set ps then H (c p) else lf t p)"
  shows "\<exists>u. fold_run (\<lambda>t p. and_then (pg p) (\<lambda>bs. Inr (upd t p bs))) t ps = Inr u \<and> rt u = rt t'"
proof -
  obtain u where u: "fold_run (\<lambda>t p. and_then (pg p) (\<lambda>bs. Inr (upd t p bs))) t ps = Inr u"
      "inv u" "lf u = (\<lambda>p. if p \<in> set ps then H (c p) else lf t p)"
    using rehash [OF assms(1,3)] by blast
  then have "lf u = lf t'" using assms(4) by (simp add: fun_eq_iff)
  with u root_leaves [OF u(2) assms(2)] show ?thesis by blast
qed

end

subsection \<open>Default hashes\<close>

lemma default_hashes_loop:
  assumes "n \<le> TREE_DEPTH"
  shows "let hs = foldl (\<lambda>hashes d. let prev = hashes ! (d - 1) in hashes[d := H (prev @ prev)])
                    ((replicate (TREE_DEPTH + 1) (H []))[0 := H zero_page]) [1..<n + 1]
         in length hs = TREE_DEPTH + 1 \<and> (\<forall>d \<le> n. hs ! d = default_hash H d)"
  using assms
proof (induction n)
  case 0
  then show ?case by simp
next
  case (Suc n)
  then show ?case by (auto simp: Let_def nth_list_update le_Suc_eq)
qed

lemma default_hashes_nth [simp]: "d \<le> TREE_DEPTH \<Longrightarrow> default_hashes H ! d = default_hash H d"
  using default_hashes_loop [of TREE_DEPTH H] by (simp add: default_hashes_def Let_def)

lemma node_hash_default:
  assumes "\<And>n. i * 2 ^ d \<le> n \<Longrightarrow> n < (i + 1) * 2 ^ d \<Longrightarrow> f n = H zero_page"
  shows "node_hash H f d i = default_hash H d"
  using assms
proof (induction d arbitrary: i)
  case 0
  then show ?case by simp
next
  case (Suc d)
  have "node_hash H f d (2 * i) = default_hash H d"
    by (rule Suc.IH) (rule Suc.prems, simp_all add: algebra_simps)
  moreover have "node_hash H f d (2 * i + 1) = default_hash H d"
    by (rule Suc.IH) (rule Suc.prems, simp_all add: algebra_simps)
  ultimately show ?case by simp
qed

subsection \<open>One level up\<close>

definition parent_hash :: "hash_fn \<Rightarrow> (u64, digest) hash_map \<Rightarrow> digest \<Rightarrow> u64 \<Rightarrow> digest" where
  "parent_hash H level dflt p =
     H (level_get level dflt (left_child p) @ level_get level dflt (left_child p + 1))"

lemma combine_parent_fold:
  assumes "hm_inv nxt" and "\<forall>p h. hm_get nxt p = Some h \<longrightarrow> h = parent_hash H level dflt p"
  shows "let r = foldl (combine_parent H level dflt) nxt idxs in
         hm_inv r \<and> fst ` set r = fst ` set nxt \<union> parent_index ` set idxs \<and>
         (\<forall>p h. hm_get r p = Some h \<longrightarrow> h = parent_hash H level dflt p)"
  using assms
proof (induction idxs arbitrary: nxt)
  case Nil
  then show ?case by simp
next
  case (Cons idx idxs)
  let ?n = "combine_parent H level dflt nxt idx"
  have "dom (hm_get ?n) = insert (parent_index idx) (dom (hm_get nxt))"
    by (auto simp: combine_parent_def Let_def)
  then have keys: "fst ` set ?n = insert (parent_index idx) (fst ` set nxt)"
    by (simp only: dom_hm_get)
  have "hm_inv ?n" using Cons.prems(1) by (simp add: combine_parent_def Let_def)
  moreover have "\<forall>p h. hm_get ?n p = Some h \<longrightarrow> h = parent_hash H level dflt p"
    using Cons.prems(2) by (auto simp: combine_parent_def parent_hash_def Let_def split: if_splits)
  ultimately show ?case using Cons.IH [of ?n] keys by (auto simp: Let_def)
qed

lemma next_level_ok:
  assumes "hm_inv level"
  shows "hm_inv (next_level ord H dflt level)"
    and "fst ` set (next_level ord H dflt level) = parent_index ` fst ` set level"
    and "hm_get (next_level ord H dflt level) p = Some h \<Longrightarrow> h = parent_hash H level dflt p"
  using combine_parent_fold [of "[]" H level dflt "map fst (iterate ord level)"] assms
  by (auto simp: next_level_def Let_def)

lemma unat_children:
  assumes "unat p < 2 ^ 63"
  shows "unat (left_child p) = 2 * unat p" "unat (left_child p + 1) = 2 * unat p + 1"
proof -
  have "left_child p = 2 * p" by (simp add: left_child_def push_bit_eq_mult)
  then show left: "unat (left_child p) = 2 * unat p"
    using assms unat_times_small [of 2 p] by simp
  show "unat (left_child p + 1) = 2 * unat p + 1"
    using assms left by (subst unat_Suc_small) simp_all
qed

lemma unat_parent_index: "unat (parent_index k) = unat k div 2"
  unfolding parent_index_def unat_drop_bit_eq by (simp add: drop_bit_eq_div)

lemma parent_of_children:
  assumes "unat p < 2 ^ 63"
  shows "parent_index (left_child p) = p" "parent_index (left_child p + 1) = p"
  by (simp_all add: word_unat_eq_iff unat_parent_index unat_children [OF assms])

definition level_ok :: "hash_fn \<Rightarrow> (nat \<Rightarrow> digest) \<Rightarrow> nat \<Rightarrow> (u64, digest) hash_map \<Rightarrow> bool" where
  "level_ok H f d level \<longleftrightarrow> hm_inv level \<and> (\<forall>k\<in>fst ` set level. unat k < 2 ^ (64 - d)) \<and>
     (\<forall>k. unat k < 2 ^ (64 - d) \<longrightarrow> level_get level (default_hash H d) k = node_hash H f d (unat k))"

lemma next_level_step:
  assumes "level_ok H f d level" and "d < 64"
  shows "level_ok H f (Suc d) (next_level ord H (default_hash H d) level)"
proof -
  let ?dflt = "default_hash H d"
  let ?nxt = "next_level ord H ?dflt level"
  have inv: "hm_inv level" using assms(1) by (simp add: level_ok_def)
  note nxt = next_level_ok [OF inv, of ord H ?dflt]
  have pow: "(2::nat) ^ (64 - d) = 2 * 2 ^ (64 - Suc d)" "(2::nat) ^ (64 - Suc d) \<le> 2 ^ 63"
    using assms(2) by (simp add: Suc_diff_Suc flip: power_Suc, intro power_increasing, auto)
  have keys: "\<forall>k\<in>fst ` set ?nxt. unat k < 2 ^ (64 - Suc d)"
    using assms(1) unfolding nxt(2) by (auto simp: level_ok_def unat_parent_index pow(1))
  have "level_get ?nxt (default_hash H (Suc d)) k = node_hash H f (Suc d) (unat k)"
    if k: "unat k < 2 ^ (64 - Suc d)" for k
  proof -
    have k63: "unat k < 2 ^ 63" using k pow(2) by linarith
    note pair = unat_children [OF k63]
    have "level_get level ?dflt (left_child k) = node_hash H f d (2 * unat k)"
      "level_get level ?dflt (left_child k + 1) = node_hash H f d (2 * unat k + 1)"
      using assms(1) k pow(1) by (simp_all add: level_ok_def pair)
    then have ph: "parent_hash H level ?dflt k = node_hash H f (Suc d) (unat k)"
      by (simp add: parent_hash_def)
    show ?thesis
    proof (cases "hm_get ?nxt k")
      case (Some h)
      then show ?thesis using nxt(3) ph by (simp add: level_get_def)
    next
      case None
      then have "k \<notin> parent_index ` fst ` set level" unfolding hm_get_eq_None nxt(2) .
      then have "hm_get level (left_child k) = None" "hm_get level (left_child k + 1) = None"
        unfolding hm_get_eq_None using parent_of_children [OF k63] by (metis image_eqI)+
      then show ?thesis using None ph by (simp add: level_get_def parent_hash_def)
    qed
  qed
  with keys nxt(1) show ?thesis by (simp add: level_ok_def)
qed

subsection \<open>All levels\<close>

lemma levels_ok:
  assumes "level_ok H f 0 level" and "n \<le> TREE_DEPTH"
  shows "level_ok H f n (foldl (\<lambda>level depth. next_level ord H (default_hashes H ! depth) level)
           level [0..<n])"
  using assms(2)
proof (induction n)
  case 0
  then show ?case using assms(1) by simp
next
  case (Suc n)
  then have "level_ok H f n (foldl (\<lambda>level depth. next_level ord H (default_hashes H ! depth) level)
               level [0..<n])" by simp
  from next_level_step [OF this] Suc.prems show ?case
    by (simp add: TREE_DEPTH_def)
qed

lemma levels_keys:
  assumes "level_ok H f 0 level" and "n \<le> TREE_DEPTH"
  shows "unat ` fst ` set (foldl (\<lambda>level depth. next_level ord H (default_hashes H ! depth) level)
           level [0..<n]) = (\<lambda>k. k div 2 ^ n) ` unat ` fst ` set level"
  using assms(2)
proof (induction n)
  case 0
  then show ?case by (simp add: image_image)
next
  case (Suc n)
  let ?l = "foldl (\<lambda>level depth. next_level ord H (default_hashes H ! depth) level) level [0..<n]"
  have inv: "hm_inv ?l"
    using levels_ok [OF assms(1), of n] Suc.prems by (simp add: level_ok_def)
  have "unat ` parent_index ` fst ` set ?l = (\<lambda>k. k div 2) ` unat ` fst ` set ?l"
    by (simp add: image_image unat_parent_index)
  also have "\<dots> = (\<lambda>k. k div 2 ^ Suc n) ` unat ` fst ` set level"
    using Suc by (simp add: image_image div_mult2_eq [symmetric] mult.commute)
  finally show ?case by (simp add: next_level_ok(2) [OF inv])
qed

lemma leaf_fn_unat: "leaf_fn H t (unat k) = leaf_hash t k"
  using u64_less [of k] by (simp add: leaf_fn_def)

lemma leaves_level_ok:
  assumes "smt_inv H t"
  shows "level_ok H (leaf_fn H t) 0 (iterate ord (leaves t))"
proof -
  have inv: "hm_inv (leaves t)" using assms(1) by (simp add: smt_inv_def)
  have "level_get (iterate ord (leaves t)) (default_hash H 0) k = leaf_hash t k" for k
    using assms(1) unfolding level_get_def leaf_hash_def hm_get_iterate [OF inv]
    by (simp add: smt_inv_def split: option.split)
  then show ?thesis
    using inv u64_less by (simp add: level_ok_def leaf_fn_unat)
qed

lemma root_eq_node_hash:
  assumes "smt_inv H t" and "within_depth t"
  shows "root ord H t = node_hash H (leaf_fn H t) TREE_DEPTH 0"
proof (cases "leaves t = []")
  case True
  then have "leaf_fn H t n = H zero_page" for n
    using assms(1) by (simp add: leaf_fn_def leaf_hash_def smt_inv_def)
  then have "node_hash H (leaf_fn H t) TREE_DEPTH 0 = default_hash H TREE_DEPTH"
    by (intro node_hash_default)
  then show ?thesis using True assms(1) by (simp add: root_def smt_inv_def)
next
  case False
  define level where "level = foldl (\<lambda>level depth. next_level ord H (default_hashes H ! depth) level)
                       (iterate ord (leaves t)) [0..<TREE_DEPTH]"
  note ok0 = leaves_level_ok [OF assms(1), of ord]
  have ok: "level_ok H (leaf_fn H t) TREE_DEPTH level"
    unfolding level_def by (rule levels_ok [OF ok0]) simp
  have "unat ` fst ` set level = (\<lambda>k. k div 2 ^ TREE_DEPTH) ` unat ` fst ` set (leaves t)"
    unfolding level_def using levels_keys [OF ok0, of TREE_DEPTH ord] by simp
  also have "\<dots> = {0}"
    using False assms(2) by (cases "leaves t") (auto simp: within_depth_def)
  finally have keys: "unat ` fst ` set level = {0}" .
  obtain k h rest where level: "iterate ord level = (k, h) # rest"
    using keys length_iterate [of ord level] by (cases "iterate ord level") auto
  then have "(k, h) \<in> set level" using set_iterate [of ord level] by auto
  moreover from this have "k = 0" using keys by (metis (no_types) fst_conv image_eqI singletonD unat_0_iff)
  ultimately have "level_get level (default_hash H TREE_DEPTH) 0 = h"
    using ok hm_get_eq_Some [of level 0 h] by (auto simp: level_ok_def level_get_def)
  then have "h = node_hash H (leaf_fn H t) TREE_DEPTH 0"
    using ok by (auto simp: level_ok_def)
  then show ?thesis
    using False level assms(1) by (simp add: root_def smt_inv_def flip: level_def)
qed

subsection \<open>The tree as a leaf store\<close>

lemma new_SparseMerkleTree_inv [simp]:
  "smt_inv H (new_SparseMerkleTree H)" "within_depth (new_SparseMerkleTree H)"
  "leaf_hash (new_SparseMerkleTree H) p = H zero_page"
  by (simp_all add: new_SparseMerkleTree_def smt_inv_def within_depth_def leaf_hash_def)

lemma set_hm_insert: "set (hm_insert k v m) \<subseteq> insert (k, v) (set m)"
  by (induction m) (auto simp: hm_insert_def)

lemma update_leaf_inv:
  assumes "smt_inv H t"
  shows "smt_inv H (update_leaf H t p bs)"
    and "within_depth t \<Longrightarrow> unat p < 2 ^ TREE_DEPTH \<Longrightarrow> within_depth (update_leaf H t p bs)"
    and "leaf_hash (update_leaf H t p bs) = (leaf_hash t)(p := H bs)"
proof -
  note sub = set_hm_insert [of p "H bs" "leaves t"]
  have "snd ` set (hm_insert p (H bs) (leaves t)) \<subseteq> snd ` insert (p, H bs) (set (leaves t))"
    using sub by (rule image_mono)
  then show "smt_inv H (update_leaf H t p bs)"
    using assms by (auto simp: smt_inv_def update_leaf_def)
  have "fst ` set (hm_insert p (H bs) (leaves t)) \<subseteq> fst ` insert (p, H bs) (set (leaves t))"
    using sub by (rule image_mono)
  then show "within_depth (update_leaf H t p bs)" if "within_depth t" "unat p < 2 ^ TREE_DEPTH"
    using that unfolding within_depth_def update_leaf_def by fastforce
  show "leaf_hash (update_leaf H t p bs) = (leaf_hash t)(p := H bs)"
    by (simp add: update_leaf_def leaf_hash_def fun_eq_iff split: option.split)
qed

lemma leaf_fn_cong: "leaf_hash t = leaf_hash t' \<Longrightarrow> leaf_fn H t = leaf_fn H t'"
  by (simp add: leaf_fn_def fun_eq_iff)

interpretation smt: leaf_store H "update_leaf H" leaf_hash "root ord H"
  "\<lambda>t. smt_inv H t \<and> within_depth t" "2 ^ TREE_DEPTH" for H ord
  by unfold_locales
    (auto simp: update_leaf_inv root_eq_node_hash intro!: arg_cong [where f = "\<lambda>f. node_hash H f _ _"]
       leaf_fn_cong)

subsection \<open>Binding\<close>

lemma length_node_hash:
  assumes "\<And>x. length (H x) = n" and "\<And>k. length (f k) = n"
  shows "length (node_hash H f d i) = n"
  using assms by (cases d) simp_all

lemma node_binding:
  assumes "\<And>x. length (H x) = n" and "\<And>k. length (f k) = n" and "\<And>k. length (g k) = n"
    and "inj_on H (node_msgs H f d i \<union> node_msgs H g d i)"
    and "node_hash H f d i = node_hash H g d i"
    and "i * 2 ^ d \<le> k" and "k < (i + 1) * 2 ^ d"
  shows "f k = g k"
  using assms(4-)
proof (induction d arbitrary: i)
  case 0
  then have "k = i" by simp
  with 0 show ?case by simp
next
  case (Suc d)
  have "node_hash H f d (2 * i) @ node_hash H f d (2 * i + 1) =
        node_hash H g d (2 * i) @ node_hash H g d (2 * i + 1)"
    by (rule inj_onD [OF Suc.prems(1)]) (use Suc.prems(2) in simp_all)
  then have eq: "node_hash H f d (2 * i) = node_hash H g d (2 * i)"
      "node_hash H f d (2 * i + 1) = node_hash H g d (2 * i + 1)"
    by (simp_all add: length_node_hash [OF assms(1,2)] length_node_hash [OF assms(1,3)])
  have inj: "inj_on H (node_msgs H f d (2 * i) \<union> node_msgs H g d (2 * i))"
      "inj_on H (node_msgs H f d (2 * i + 1) \<union> node_msgs H g d (2 * i + 1))"
    using Suc.prems(1) by (auto elim!: inj_on_subset)
  show ?case
  proof (cases "k < (2 * i + 1) * 2 ^ d")
    case True
    with Suc.IH [OF inj(1) eq(1)] Suc.prems(3) show ?thesis by (simp add: algebra_simps)
  next
    case False
    with Suc.IH [OF inj(2) eq(2)] Suc.prems(4) show ?thesis by (simp add: algebra_simps)
  qed
qed

subsection \<open>A concrete hash function for the witnesses\<close>

text \<open>
  32 bytes: on two concatenated digests the first byte counts the height and the second
  joins the marks of the children; on anything else the mark is the first byte.
\<close>

definition example_digest :: "u8 \<Rightarrow> u8 \<Rightarrow> digest" where
  "example_digest height mk = height # mk # replicate 30 0"

definition example_hash :: hash_fn where
  "example_hash x =
     (if length x = 64 then example_digest (x ! 0 + 1) (x ! 1 OR x ! 33)
      else example_digest 0 (if x = [] then 0 else hd x))"

lemma length_example_hash [simp]: "length (example_hash x) = 32"
  by (simp add: example_hash_def example_digest_def)

lemma example_hash_node [simp]:
  "example_hash (example_digest d a @ example_digest d b) = example_digest (d + 1) (a OR b)"
  by (simp add: example_hash_def example_digest_def nth_append)

lemma example_hash_page [simp]:
  "example_hash zero_page = example_digest 0 0"
  "example_hash (1 # replicate 4095 0) = example_digest 0 1"
  by (simp_all add: example_hash_def zero_page_def PAGE_SIZE_def)

text \<open>The messages of a tree with a mark on at most the leaf 0.\<close>

definition example_msgs :: "u8 list set" where
  "example_msgs = (\<lambda>(d, a). example_digest (of_nat d) a @ example_digest (of_nat d) 0) ` ({..<32} \<times> UNIV)"

lemma example_nodes:
  assumes "\<And>n. f n = example_digest 0 (if n = 0 then a else 0)"
  shows "node_hash example_hash f d i = example_digest (of_nat d) (if i = 0 then a else 0)"
    and "d \<le> 32 \<Longrightarrow> node_msgs example_hash f d i \<subseteq> example_msgs"
proof -
  show eq: "node_hash example_hash f d i = example_digest (of_nat d) (if i = 0 then a else 0)" for d i
    by (induction d arbitrary: i) (simp_all add: assms add.commute)
  show "d \<le> 32 \<Longrightarrow> node_msgs example_hash f d i \<subseteq> example_msgs"
    by (induction d arbitrary: i) (auto simp: eq example_msgs_def)
qed

lemma example_msgs_inj: "inj_on example_hash example_msgs"
proof -
  have "d = e" if "d < 32" "e < 32" "(of_nat d :: u8) + 1 = of_nat e + 1" for d e :: nat
  proof -
    have "unat (of_nat d :: u8) = d" "unat (of_nat e :: u8) = e"
      unfolding unat_of_nat using that(1,2) by simp_all
    moreover have "(of_nat d :: u8) = of_nat e" using that(3) by simp
    ultimately show ?thesis by metis
  qed
  then show ?thesis
    by (auto simp: inj_on_def example_msgs_def) (auto simp: example_digest_def)
qed

subsection \<open>Properties\<close>

text \<open>
  Property C12. The sparse recomputation is the root of the full tree: walking only the
  touched leaves, with default hashes for untouched siblings and in any iteration
  order of the hash maps, \<open>root\<close> is the hash of the complete tree of \<open>2 ^ 32\<close> leaves
  in which every untouched page has the hash of a zero page.
\<close>

theorem root_is_full_merkle_root:
  assumes "smt_inv H t" and "within_depth t"
  shows "root ord H t = node_hash H (leaf_fn H t) TREE_DEPTH 0"
  by (rule root_eq_node_hash [OF assms])

theorem root_is_full_merkle_root_witness:
  "root reverse_order example_hash
     (update_leaf example_hash (new_SparseMerkleTree example_hash) 5 (1 # replicate 4095 0)) =
   node_hash example_hash (leaf_fn example_hash
     (update_leaf example_hash (new_SparseMerkleTree example_hash) 5 (1 # replicate 4095 0))) TREE_DEPTH 0"
  by (rule root_is_full_merkle_root) (simp_all add: update_leaf_inv TREE_DEPTH_def)

text \<open>
  The root binds every page hash: two trees with the same root, whatever
  the iteration orders, agree on the leaf hash of every page index below \<open>2 ^ 32\<close>,
  provided the hash function has no collision among the messages of the two trees.
\<close>

theorem root_binds_leaves:
  assumes "smt_inv H t" and "within_depth t" and "smt_inv H t'" and "within_depth t'"
    and "\<forall>x. length (H x) = 32"
    and "inj_on H (node_msgs H (leaf_fn H t) TREE_DEPTH 0 \<union> node_msgs H (leaf_fn H t') TREE_DEPTH 0)"
    and "root ord H t = root ord' H t'" and "unat p < 2 ^ TREE_DEPTH"
  shows "leaf_hash t p = leaf_hash t' p"
proof -
  have len: "length (leaf_fn H u n) = 32" if "smt_inv H u" for u n
  proof -
    have "leaf_hash u k \<in> range H" for k
      using that by (auto simp: smt_inv_def leaf_hash_def hm_get_eq_Some split: option.split)
    then obtain x where "leaf_hash u (of_nat n) = H x" by blast
    then show ?thesis using assms(5) by (simp add: leaf_fn_def)
  qed
  have "leaf_fn H t (unat p) = leaf_fn H t' (unat p)"
    using assms(5-8) root_eq_node_hash [OF assms(1,2)] root_eq_node_hash [OF assms(3,4)]
    by (intro node_binding [of H 32 "leaf_fn H t" "leaf_fn H t'" TREE_DEPTH 0])
      (simp_all add: len [OF assms(1)] len [OF assms(3)])
  then show ?thesis by (simp add: leaf_fn_unat)
qed

theorem root_binds_leaves_witness:
  "root insertion_order example_hash (new_SparseMerkleTree example_hash) \<noteq>
   root reverse_order example_hash
     (update_leaf example_hash (new_SparseMerkleTree example_hash) 0 (1 # replicate 4095 0))"
proof
  let ?t = "new_SparseMerkleTree example_hash"
  let ?u = "update_leaf example_hash ?t 0 (1 # replicate 4095 0)"
  assume same: "root insertion_order example_hash ?t = root reverse_order example_hash ?u"
  have inv: "smt_inv example_hash ?u" "within_depth ?u"
    by (simp_all add: update_leaf_inv TREE_DEPTH_def)
  have t: "leaf_fn example_hash ?t n = example_digest 0 (if n = 0 then 0 else 0)" for n
    by (simp add: leaf_fn_def)
  have u: "leaf_fn example_hash ?u n = example_digest 0 (if n = 0 then 1 else 0)" for n
  proof (cases "n = 0 \<or> 2 ^ 64 \<le> n")
    case False
    then have "(of_nat n :: u64) \<noteq> 0"
      using unat_of_nat [where 'a = 64, of n] by (auto simp: word_unat_eq_iff)
    with False show ?thesis by (simp add: leaf_fn_def update_leaf_inv(3))
  qed (auto simp: leaf_fn_def update_leaf_inv(3))
  have "inj_on example_hash (node_msgs example_hash (leaf_fn example_hash ?t) TREE_DEPTH 0 \<union>
          node_msgs example_hash (leaf_fn example_hash ?u) TREE_DEPTH 0)"
    using example_nodes(2) [of "leaf_fn example_hash ?t" 0 TREE_DEPTH 0, OF t]
      example_nodes(2) [of "leaf_fn example_hash ?u" 1 TREE_DEPTH 0, OF u]
    by (intro inj_on_subset [OF example_msgs_inj]) (simp add: TREE_DEPTH_def)
  then have "leaf_hash ?t 0 = leaf_hash ?u 0"
    using inv same by (intro root_binds_leaves [of example_hash ?t ?u]) simp_all
  then show False by (simp add: update_leaf_inv(3) example_digest_def)
qed

end
