(* ===== verification/Checkpoint_Chain.thy ===== *)
theory Checkpoint_Chain
  imports Merkle
begin

unbundle bit_operations_syntax

section \<open>Execution-integrity checkpoints (chronos-mem/src/smt.rs, chain part)\<close>

text \<open>
  \<open>CheckpointChain\<close>: taking a checkpoint rehashes the dirty pages, computes the root and
  appends an entry whose chain hash covers the previous one; \<open>verify_chain\<close> refolds a
  claimed sequence. The chain invariant links the entries, and a checkpoint of a
  memory whose clean pages are already in the tree yields the root of the whole
  memory image.
\<close>

subsection \<open>State and operations\<close>

record checkpoint_entry =
  entry_tick :: u64
  smt_root :: digest
  register_digest :: digest
  chain_hash :: digest

record checkpoint_chain =
  tree :: sparse_merkle_tree
  entries :: "checkpoint_entry list"

datatype chain_verify_error = Empty

definition genesis :: "u8 list" where
  "genesis = map of_char ''chronos-uvm-genesis''"

definition new_CheckpointChain :: "hash_fn \<Rightarrow> checkpoint_chain" where
  "new_CheckpointChain H = \<lparr>tree = new_SparseMerkleTree H, entries = []\<rparr>"

text \<open>The four updates of the hasher, for one link of the chain.\<close>

definition default_CheckpointChain :: "hash_fn \<Rightarrow> checkpoint_chain" where
  "default_CheckpointChain H = new_CheckpointChain H"

definition link_msg :: "digest \<Rightarrow> u64 \<Rightarrow> digest \<Rightarrow> digest \<Rightarrow> u8 list" where
  "link_msg prev t r g = prev @ r @ g @ to_le_bytes t"

text \<open>
  \<open>checkpoint\<close> is generic in the memory: \<open>pg\<close> is its \<open>page_bytes\<close>. A panic of \<open>pg\<close> or an
  unfinished walk leaves no entry.
\<close>

definition checkpoint ::
  "(u64 \<times> digest) iter_order \<Rightarrow> hash_fn \<Rightarrow> checkpoint_chain \<Rightarrow> u64 \<Rightarrow> (u64 \<Rightarrow> u8 list run)
     \<Rightarrow> dirty_page_set \<Rightarrow> digest \<Rightarrow> (checkpoint_entry \<times> checkpoint_chain) run" where
  "checkpoint ord H c t pg d reg =
     and_then (fold_run (\<lambda>tr p. and_then (pg p) (\<lambda>bs. Inr (update_leaf H tr p bs)))
                 (tree c) (iter_dirty d)) (\<lambda>tr.
       let r = root ord H tr;
           prev = (if entries c = [] then H genesis else chain_hash (last (entries c)));
           entry = \<lparr>entry_tick = t, smt_root = r, register_digest = reg,
                    chain_hash = H (link_msg prev t r reg)\<rparr>
       in Inr (entry, c\<lparr>tree := tr, entries := entries c @ [entry]\<rparr>))"

definition verify_chain ::
  "hash_fn \<Rightarrow> (u64 \<times> digest \<times> digest) list \<Rightarrow> chain_verify_error + digest" where
  "verify_chain H claims =
     Inr (foldl (\<lambda>h (t, r, g). H (link_msg h t r g)) (H genesis) claims)"

definition latest :: "checkpoint_chain \<Rightarrow> checkpoint_entry option" where
  "latest c = (if entries c = [] then None else Some (last (entries c)))"

subsection \<open>Invariant\<close>

definition claim_of :: "checkpoint_entry \<Rightarrow> u64 \<times> digest \<times> digest" where
  "claim_of e = (entry_tick e, smt_root e, register_digest e)"

fun linked :: "hash_fn \<Rightarrow> digest \<Rightarrow> checkpoint_entry list \<Rightarrow> bool" where
  "linked H h [] = True"
| "linked H h (e # es) \<longleftrightarrow>
     chain_hash e = H (link_msg h (entry_tick e) (smt_root e) (register_digest e)) \<and>
     linked H (chain_hash e) es"

definition chain_inv :: "hash_fn \<Rightarrow> checkpoint_chain \<Rightarrow> bool" where
  "chain_inv H c \<longleftrightarrow> smt_inv H (tree c) \<and> within_depth (tree c) \<and> linked H (H genesis) (entries c)"

text \<open>
  The tree is up to date with a memory on every page that is not dirty, and knows no
  page beyond the quota.
\<close>

definition tree_synced :: "hash_fn \<Rightarrow> sparse_merkle_tree \<Rightarrow> mmap_guarded_memory \<Rightarrow> bool" where
  "tree_synced H t m \<longleftrightarrow>
     (\<forall>p. p \<notin> pages (dirty m) \<longrightarrow>
        leaf_hash t p = H (if unat p < quota_pages (quota_bytes m) then page_content m p else zero_page))"

definition memory_root :: "hash_fn \<Rightarrow> mmap_guarded_memory \<Rightarrow> digest" where
  "memory_root H m =
     node_hash H (\<lambda>n. H (if n < quota_pages (quota_bytes m) then page_content m (of_nat n) else zero_page))
       TREE_DEPTH 0"

text \<open>The messages hashed when a chain of claims is folded.\<close>

fun chain_msgs :: "hash_fn \<Rightarrow> digest \<Rightarrow> (u64 \<times> digest \<times> digest) list \<Rightarrow> u8 list set" where
  "chain_msgs H h [] = {}"
| "chain_msgs H h ((t, r, g) # cs) =
     insert (link_msg h t r g) (chain_msgs H (H (link_msg h t r g)) cs)"

subsection \<open>The chain\<close>

lemma linked_append:
  "linked H h (es @ [e]) \<longleftrightarrow> linked H h es \<and>
     chain_hash e = H (link_msg (if es = [] then h else chain_hash (last es))
                        (entry_tick e) (smt_root e) (register_digest e))"
  by (induction es arbitrary: h) auto

lemma linked_fold:
  "linked H h es \<Longrightarrow>
   foldl (\<lambda>h (t, r, g). H (link_msg h t r g)) h (map claim_of es) =
   (if es = [] then h else chain_hash (last es))"
  by (induction es arbitrary: h) (auto simp: claim_of_def)

lemma linked_take: "linked H h es \<Longrightarrow> linked H h (take n es)"
  by (induction es arbitrary: h n) (auto simp: take_Cons split: nat.split)

lemma new_CheckpointChain_inv [simp]: "chain_inv H (new_CheckpointChain H)"
  by (simp add: chain_inv_def new_CheckpointChain_def)

lemma new_CheckpointChain_entries [simp]: "entries (new_CheckpointChain H) = []"
  by (simp add: new_CheckpointChain_def)

lemma checkpoint_ok:
  assumes "chain_inv H c" and "dps_inv d" and "\<forall>p\<in>pages d. pg p = Inr (cont p) \<and> unat p < 2 ^ TREE_DEPTH"
  shows "\<exists>e c'. checkpoint ord H c t pg d reg = Inr (e, c') \<and> chain_inv H c' \<and>
           entries c' = entries c @ [e] \<and> entry_tick e = t \<and> register_digest e = reg \<and>
           leaf_hash (tree c') = (\<lambda>p. if p \<in> pages d then H (cont p) else leaf_hash (tree c) p) \<and>
           smt_root e = node_hash H (leaf_fn H (tree c')) TREE_DEPTH 0"
proof -
  obtain tr where tr: "fold_run (\<lambda>tr p. and_then (pg p) (\<lambda>bs. Inr (update_leaf H tr p bs)))
        (tree c) (iter_dirty d) = Inr tr" "smt_inv H tr" "within_depth tr"
      "leaf_hash tr = (\<lambda>p. if p \<in> pages d then H (cont p) else leaf_hash (tree c) p)"
    using smt.rehash [of H "tree c" "iter_dirty d" pg cont] assms
    by (auto simp: chain_inv_def set_iter_dirty)
  then show ?thesis
    using assms(1) root_eq_node_hash [OF tr(2,3)]
    by (simp add: checkpoint_def Let_def chain_inv_def linked_append)
qed

lemma memory_root_cong:
  assumes "quota_bytes m = quota_bytes m'" and "\<forall>p. page_content m p = page_content m' p"
  shows "memory_root H m = memory_root H m'"
  using assms by (simp add: memory_root_def cong: if_cong)

text \<open>The root of a tree that knows every page of a memory.\<close>

lemma synced_memory_root:
  assumes "\<And>p. leaf_hash t p = H (if unat p < quota_pages (quota_bytes m) then page_content m p else zero_page)"
  shows "node_hash H (leaf_fn H t) TREE_DEPTH 0 = memory_root H m"
proof -
  have "leaf_fn H t n = H (if n < quota_pages (quota_bytes m) then page_content m (of_nat n) else zero_page)" for n
  proof (cases "n < 2 ^ 64")
    case True
    then have "unat (of_nat n :: u64) = n" by (simp add: unat_of_nat)
    with True show ?thesis by (simp add: leaf_fn_def assms)
  next
    case False
    then show ?thesis using quota_pages_bounds(2) [of "quota_bytes m"] by (auto simp: leaf_fn_def)
  qed
  then show ?thesis unfolding memory_root_def by (metis (no_types, lifting) ext)
qed

lemma tree_synced_checkpoint:
  assumes "chain_inv H c" and "mem_inv m" and "tree_synced H (tree c) m"
    and "\<forall>p\<in>pages (dirty m). unat p < quota_pages (quota_bytes m) \<and>
           (b = Debug \<longrightarrow> (unat p + 1) * PAGE_SIZE \<le> unat (size_bytes m))"
  shows "\<exists>e c'. checkpoint ord H c t (page_bytes b m) (dirty m) reg = Inr (e, c') \<and> chain_inv H c' \<and>
           entries c' = entries c @ [e] \<and> entry_tick e = t \<and> register_digest e = reg \<and>
           smt_root e = memory_root H m \<and>
           tree_synced H (tree c') (m\<lparr>dirty := clear_all (dirty m)\<rparr>)"
proof -
  have q: "unat p < 2 ^ TREE_DEPTH" if "unat p < quota_pages (quota_bytes m)" for p :: u64
    using that quota_pages_bounds(2) [of "quota_bytes m"] by (simp add: TREE_DEPTH_def)
  have readable: "\<forall>p\<in>pages (dirty m). page_bytes b m p = Inr (page_content m p) \<and> unat p < 2 ^ TREE_DEPTH"
    using assms(2,4) q by (auto simp: page_bytes_eq)
  have dps: "dps_inv (dirty m)" using assms(2) by (simp add: mem_inv_def)
  obtain e c' where e: "checkpoint ord H c t (page_bytes b m) (dirty m) reg = Inr (e, c')" "chain_inv H c'"
      "entries c' = entries c @ [e]" "entry_tick e = t" "register_digest e = reg"
      "leaf_hash (tree c') = (\<lambda>p. if p \<in> pages (dirty m) then H (page_content m p) else leaf_hash (tree c) p)"
      "smt_root e = node_hash H (leaf_fn H (tree c')) TREE_DEPTH 0"
    using checkpoint_ok [OF assms(1) dps readable] by blast
  have leaf: "leaf_hash (tree c') p =
      H (if unat p < quota_pages (quota_bytes m) then page_content m p else zero_page)" for p
    using assms(3,4) by (auto simp: e(6) tree_synced_def)
  have "smt_root e = memory_root H m" unfolding e(7) by (rule synced_memory_root) (simp add: leaf)
  moreover have "tree_synced H (tree c') (m\<lparr>dirty := clear_all (dirty m)\<rparr>)"
    by (simp add: tree_synced_def leaf page_content_def)
  ultimately show ?thesis using e by blast
qed

subsection \<open>Tamper evidence\<close>

abbreviation chain_fold :: "hash_fn \<Rightarrow> digest \<Rightarrow> (u64 \<times> digest \<times> digest) list \<Rightarrow> digest" where
  "chain_fold H \<equiv> foldl (\<lambda>h (t, r, g). H (link_msg h t r g))"

lemma chain_msgs_snoc:
  "chain_msgs H h (cs @ [(t, r, g)]) = insert (link_msg (chain_fold H h cs) t r g) (chain_msgs H h cs)"
  by (induction cs arbitrary: h) (auto simp: insert_commute)

lemma length_chain_fold:
  assumes "\<forall>x. length (H x) = n"
  shows "length (chain_fold H (H genesis) cs) = n"
  using assms by (induction cs rule: rev_induct) (auto split: prod.splits)

lemma link_msg_inject:
  assumes "length p = 32" and "length p' = 32" and "length r = 32" and "length r' = 32"
    and "length g = 32" and "length g' = 32" and "link_msg p t r g = link_msg p' t' r' g'"
  shows "p = p' \<and> t = t' \<and> r = r' \<and> g = g'"
  using assms by (simp add: link_msg_def)

lemma genesis_not_link: "length p = 32 \<Longrightarrow> genesis \<noteq> link_msg p t r g"
  by (auto simp: genesis_def link_msg_def dest: arg_cong [where f = length])

lemma chain_fold_inject:
  assumes len: "\<forall>x. length (H x) = 32"
    and "\<forall>(t, r, g)\<in>set xs \<union> set ys. length r = 32 \<and> length g = 32"
    and "inj_on H (insert genesis (chain_msgs H (H genesis) xs \<union> chain_msgs H (H genesis) ys))"
    and "chain_fold H (H genesis) xs = chain_fold H (H genesis) ys"
  shows "xs = ys"
  using assms(2-4)
proof (induction xs arbitrary: ys rule: rev_induct)
  case Nil
  show ?case
  proof (cases ys rule: rev_cases)
    case (snoc ys' y)
    obtain t r g where y: "y = (t, r, g)" by (cases y)
    have "genesis = link_msg (chain_fold H (H genesis) ys') t r g"
      by (rule inj_onD [OF Nil.prems(2)]) (use Nil.prems(3) snoc y in \<open>simp_all add: chain_msgs_snoc\<close>)
    then show ?thesis using genesis_not_link [OF length_chain_fold [OF len]] by blast
  qed simp
next
  case (snoc x xs)
  obtain t r g where x: "x = (t, r, g)" by (cases x)
  show ?case
  proof (cases ys rule: rev_cases)
    case Nil
    have "genesis = link_msg (chain_fold H (H genesis) xs) t r g"
      by (rule inj_onD [OF snoc.prems(2)]) (use snoc.prems(3) Nil x in \<open>simp_all add: chain_msgs_snoc\<close>)
    then show ?thesis using genesis_not_link [OF length_chain_fold [OF len]] by blast
  next
    case ys: (snoc ys' y)
    obtain t' r' g' where y: "y = (t', r', g')" by (cases y)
    have "link_msg (chain_fold H (H genesis) xs) t r g = link_msg (chain_fold H (H genesis) ys') t' r' g'"
      by (rule inj_onD [OF snoc.prems(2)]) (use snoc.prems(3) ys x y in \<open>simp_all add: chain_msgs_snoc\<close>)
    then have eq: "chain_fold H (H genesis) xs = chain_fold H (H genesis) ys'" "x = y"
      using link_msg_inject [OF length_chain_fold [OF len] length_chain_fold [OF len]] snoc.prems(1) ys x y
      by auto
    have "inj_on H (insert genesis (chain_msgs H (H genesis) xs \<union> chain_msgs H (H genesis) ys'))"
      by (rule inj_on_subset [OF snoc.prems(2)]) (auto simp: ys x y chain_msgs_snoc)
    then show ?thesis using snoc.IH [of ys'] snoc.prems(1) ys eq by auto
  qed
qed

subsection \<open>Properties\<close>

text \<open>
  Property C13. Incremental checkpointing is complete: when the tree is up to date on the
  clean pages and every dirty page can be read, a checkpoint succeeds, its root is the
  Merkle root of the whole memory image, exactly one linked entry is appended, and
  after the dirty set is cleared the tree is up to date again.
\<close>

theorem checkpoint_covers_memory:
  assumes "chain_inv H c" and "mem_inv m" and "tree_synced H (tree c) m"
    and "\<forall>p\<in>pages (dirty m). unat p < quota_pages (quota_bytes m) \<and>
           (b = Debug \<longrightarrow> (unat p + 1) * PAGE_SIZE \<le> unat (size_bytes m))"
  shows "\<exists>e c'. checkpoint ord H c t (page_bytes b m) (dirty m) reg = Inr (e, c') \<and> chain_inv H c' \<and>
           entries c' = entries c @ [e] \<and> entry_tick e = t \<and> register_digest e = reg \<and>
           smt_root e = memory_root H m \<and>
           tree_synced H (tree c') (m\<lparr>dirty := clear_all (dirty m)\<rparr>)"
  by (rule tree_synced_checkpoint [OF assms])

text \<open>The first checkpoint of a fresh memory in which one page was written and marked.\<close>

theorem checkpoint_covers_memory_witness:
  "\<exists>m e c'. mem_inv m \<and> pages (dirty m) = {0} \<and> region m 7 = 99 \<and>
     checkpoint reverse_order example_hash (new_CheckpointChain example_hash) 4
       (page_bytes Debug m) (dirty m) (replicate 32 0) = Inr (e, c') \<and>
     smt_root e = memory_root example_hash m"
proof -
  obtain m0 tr where m0: "mem_inv m0" "size_bytes m0 = 4096" "quota_bytes m0 = 65536" "pages (dirty m0) = {}"
      "new_MmapGuardedMemory Debug example_os 4096 65536 = (tr, Inr (Inr m0))"
    using example_memory [of 4096 65536 Debug] by auto
  then have zero: "\<forall>k < unat (mapped_len m0). region m0 k = 0"
    using new_MmapGuardedMemory_ok [OF example_os_sound] by blast
  have q: "quota_pages 65536 = 16" by (simp add: quota_pages_def PAGE_SIZE_def)
  obtain m1 where m1: "mark_dirty Debug m0 0 = Inr m1" "mem_inv m1" "pages (dirty m1) = {0}"
      "m1 = m0\<lparr>dirty := dirty m1\<rparr>"
    using mark_dirty_inv [OF m0(1), of 0 Debug] m0 q by auto
  let ?m = "m1\<lparr>region := (region m1)(7 := 99)\<rparr>"
  have fields: "size_bytes m1 = 4096" "quota_bytes m1 = 65536" "mapped_len m1 = mapped_len m0"
      "region m1 = region m0"
    using m0 by (subst m1(4), simp)+
  have inv: "mem_inv ?m" using m1(2) by (simp add: mem_inv_def)
  have "page_content ?m p = zero_page" if "p \<noteq> 0" "unat p < 16" for p
  proof -
    have "unat p * PAGE_SIZE + i < unat (mapped_len m0)" if "i < PAGE_SIZE" for i
      using m0(1,3) \<open>unat p < 16\<close> that by (simp add: mem_inv_def q PAGE_SIZE_def)
    moreover have "unat p * PAGE_SIZE + i \<noteq> 7" for i
      using \<open>p \<noteq> 0\<close> by (cases "unat p") (auto simp: PAGE_SIZE_def unat_0_iff)
    ultimately show ?thesis
      using zero fields by (auto simp: page_content_def zero_page_def intro!: nth_equalityI)
  qed
  then have "tree_synced example_hash (tree (new_CheckpointChain example_hash)) ?m"
    using m1(3) fields q by (simp add: tree_synced_def new_CheckpointChain_def)
  then show ?thesis
    using checkpoint_covers_memory [of example_hash "new_CheckpointChain example_hash" ?m Debug
        reverse_order 4 "replicate 32 0"] inv m1(3) fields q
    by (intro exI [of _ ?m]) (auto simp: PAGE_SIZE_def)
qed

text \<open>
  An auditor who refolds the recorded claims accepts the chain at every
  length: \<open>verify_chain\<close> of the first \<open>n\<close> entries is the chain hash of the last of
  them, and of no entries it is the genesis hash; it never reports an error.
\<close>

theorem verify_chain_accepts:
  assumes "chain_inv H c" and "n \<le> length (entries c)"
  shows "verify_chain H (map claim_of (take n (entries c))) =
         Inr (if n = 0 then H genesis else chain_hash (entries c ! (n - 1)))"
proof -
  have "linked H (H genesis) (take n (entries c))"
    using assms(1) by (simp add: chain_inv_def linked_take)
  from linked_fold [OF this] show ?thesis
    using assms(2) by (auto simp: verify_chain_def last_conv_nth)
qed

theorem verify_chain_accepts_witness:
  "verify_chain example_hash [] = Inr (example_hash genesis) \<and>
   (\<exists>e c'. checkpoint insertion_order example_hash (new_CheckpointChain example_hash) 1
            (\<lambda>_. Inr zero_page) \<lparr>bits = [0], capacity_pages = 1, dirty_count = 0\<rparr> (replicate 32 0) = Inr (e, c') \<and>
          verify_chain example_hash [claim_of e] = Inr (chain_hash e))"
proof -
  let ?d = "\<lparr>bits = [0], capacity_pages = 1, dirty_count = 0\<rparr>"
  have "dirty_indices ?d = []" by (simp add: dirty_indices_def)
  then have "dps_inv ?d" "pages ?d = {}" by (simp_all add: dps_inv_def pages_def is_dirty_iff_index)
  then obtain e c' where e: "checkpoint insertion_order example_hash (new_CheckpointChain example_hash) 1
        (\<lambda>_. Inr zero_page) ?d (replicate 32 0) = Inr (e, c')" "chain_inv example_hash c'" "entries c' = [e]"
    using checkpoint_ok [of example_hash "new_CheckpointChain example_hash" ?d "\<lambda>_. Inr zero_page"
        "\<lambda>_. zero_page" insertion_order 1 "replicate 32 0"]
    by (auto simp: new_CheckpointChain_entries)
  show ?thesis
    using e verify_chain_accepts [OF e(2), of 0] verify_chain_accepts [OF e(2), of 1] by auto
qed

text \<open>
  Property C14. Tamper evidence: two claimed sequences of (tick, root, register digest)
  that verify to the same chain hash are equal, entry for entry and in length, provided
  the hash function has no collision among the messages the two folds hash.
\<close>

theorem verify_chain_tamper_evident:
  assumes "\<forall>x. length (H x) = 32"
    and "\<forall>(t, r, g)\<in>set xs \<union> set ys. length r = 32 \<and> length g = 32"
    and "inj_on H (insert genesis (chain_msgs H (H genesis) xs \<union> chain_msgs H (H genesis) ys))"
    and "verify_chain H xs = verify_chain H ys"
  shows "xs = ys"
  using chain_fold_inject [OF assms(1-3)] assms(4) by (simp add: verify_chain_def)

text \<open>A claim whose tick was altered, under a hash that keeps the last 32 bytes.\<close>

theorem verify_chain_tamper_evident_witness:
  "let H = \<lambda>x. drop (length x) (replicate 32 0 @ x); z = replicate 32 0
   in (\<forall>x. length (H x) = 32) \<and> verify_chain H [(1, z, z)] \<noteq> verify_chain H [(2, z, z)]"
proof -
  define H :: hash_fn where "H = (\<lambda>x. drop (length x) (replicate 32 0 @ x))"
  let ?z = "replicate 32 0 :: u8 list"
  have len: "\<forall>x. length (H x) = 32" by (simp add: H_def del: drop_append)
  have tail: "drop 24 (H (link_msg p t r g)) = to_le_bytes t" if "length p = 32" "length r = 32" "length g = 32"
    for p t r g using that by (simp add: H_def link_msg_def)
  have gen: "drop 24 (H genesis) = map of_char ''-genesis''" by (simp add: H_def genesis_def)
  have ne: "to_le_bytes 1 \<noteq> map of_char ''-genesis''" "to_le_bytes 2 \<noteq> map of_char ''-genesis''"
    by (simp_all add: to_le_bytes_def upt_rec)
  let ?m = "\<lambda>t. link_msg (H genesis) t ?z ?z"
  have m: "drop 24 (H (?m t)) = to_le_bytes t" for t by (rule tail) (simp_all add: len)
  have "H genesis \<noteq> H (?m 1)" "H genesis \<noteq> H (?m 2)" using gen ne m by metis+
  moreover have "H (?m 1) \<noteq> H (?m 2)"
  proof
    assume "H (?m 1) = H (?m 2)"
    then have "to_le_bytes 1 = to_le_bytes 2" using m by metis
    then show False by simp
  qed
  ultimately have inj: "inj_on H (insert genesis (chain_msgs H (H genesis) [(1, ?z, ?z)] \<union>
      chain_msgs H (H genesis) [(2, ?z, ?z)]))"
    by (simp add: inj_on_def)
  have "verify_chain H [(1, ?z, ?z)] \<noteq> verify_chain H [(2, ?z, ?z)]"
    using verify_chain_tamper_evident [of H "[(1, ?z, ?z)]" "[(2, ?z, ?z)]", OF len _ inj] by auto
  then show ?thesis using len unfolding H_def Let_def by blast
qed

end
