(* ===== verification/Logical_Clock.thy ===== *)
theory Logical_Clock
  imports Prelude
begin

section \<open>Logical clock (chronos-core/src/clock.rs)\<close>

text \<open>
  \<open>LogicalClock\<close>: the tick counter that only the scheduler advances. \<open>advance\<close> adds one
  with the profile's overflow behaviour.
\<close>

type_synonym Tick = u64

record logical_clock =
  clock_tick :: Tick

definition new_LogicalClock :: logical_clock where
  "new_LogicalClock = \<lparr>clock_tick = 0\<rparr>"

definition default_LogicalClock :: logical_clock where
  "default_LogicalClock = new_LogicalClock"

definition advance :: "build \<Rightarrow> logical_clock \<Rightarrow> (Tick \<times> logical_clock) run" where
  "advance b c = and_then (plus_build b (clock_tick c) 1) (\<lambda>t. Inr (t, c\<lparr>clock_tick := t\<rparr>))"

definition snapshot :: "logical_clock \<Rightarrow> Tick" where
  "snapshot c = clock_tick c"

lemma snapshot_new [simp]: "snapshot new_LogicalClock = 0"
  by (simp add: snapshot_def new_LogicalClock_def)

lemma snapshot_inject [simp]: "snapshot c = snapshot c' \<longleftrightarrow> c = c'"
  by (cases c; cases c') (simp add: snapshot_def)

text \<open>Until the counter is exhausted, an advance yields exactly the next tick in both profiles.\<close>

lemma advance_ok:
  assumes "unat (snapshot c) + 1 < 2 ^ 64"
  shows "\<exists>c'. advance b c = Inr (snapshot c + 1, c') \<and> snapshot c' = snapshot c + 1 \<and>
           unat (snapshot c') = unat (snapshot c) + 1"
  using assms unat_Suc_small [of "snapshot c"]
  by (simp add: advance_def snapshot_def run_simps unat_1)

lemma advance_exhausted:
  assumes "unat (snapshot c) + 1 = 2 ^ 64"
  shows "advance Debug c = Inl ArithmeticOverflow"
  using assms by (simp add: advance_def snapshot_def plus_build_def unat_1)

lemma advance_InrD: "advance b c = Inr (t, c') \<Longrightarrow> t = snapshot c + 1 \<and> snapshot c' = t"
  by (auto simp: advance_def snapshot_def dest: plus_build_InrD)

end
