(* ===== verification/Event_Log.thy ===== *)
theory Event_Log
  imports Logical_Clock
begin

section \<open>Non-determinism capture and replay (chronos-core/src/event_log.rs)\<close>

text \<open>
  \<open>EventRecorder\<close> and its implementation of the trait \<open>NonDeterminismSource\<close>. The
  closures \<open>real_now_fn\<close> and \<open>real_random_fn\<close> are functions on a host state of type
  \<open>'s\<close>, so that consulting the host is visible as a change of that state. A sequence
  of host calls is run by \<open>run_calls\<close>; the keys it uses are given independently by
  \<open>call_keys\<close>.
\<close>

subsection \<open>Data\<close>

datatype recorder_mode = Record | Replay

datatype event_key = EventKey (key_tick: Tick) (call_ordinal: u64)

datatype recorded_value = RecordedClock u64 | RecordedRandom "u8 list"

datatype replay_entry = EntryClock u64 | EntryRandom "u8 list"

datatype replay_error =
    MissingEntry Tick u64
  | TypeMismatch Tick u64

record event_recorder =
  mode :: recorder_mode
  log :: "(event_key, recorded_value) hash_map"
  current_tick :: Tick
  current_ordinal :: u64

text \<open>Keys are ordered by tick, then by ordinal: the order in which a run uses them.\<close>

instantiation event_key :: linorder
begin

definition less_eq_event_key :: "event_key \<Rightarrow> event_key \<Rightarrow> bool" where
  "less_eq_event_key a c \<longleftrightarrow>
     key_tick a < key_tick c \<or> key_tick a = key_tick c \<and> call_ordinal a \<le> call_ordinal c"

definition less_event_key :: "event_key \<Rightarrow> event_key \<Rightarrow> bool" where
  "less_event_key a c \<longleftrightarrow>
     key_tick a < key_tick c \<or> key_tick a = key_tick c \<and> call_ordinal a < call_ordinal c"

instance
  by standard (auto simp: less_eq_event_key_def less_event_key_def event_key.expand)

end

subsection \<open>Operations\<close>

definition new_EventRecorder :: "recorder_mode \<Rightarrow> event_recorder" where
  "new_EventRecorder md = \<lparr>mode = md, log = [], current_tick = 0, current_ordinal = 0\<rparr>"

fun recorded_of_entry :: "replay_entry \<Rightarrow> recorded_value" where
  "recorded_of_entry (EntryClock v) = RecordedClock v"
| "recorded_of_entry (EntryRandom v) = RecordedRandom v"

fun entry_of_recorded :: "recorded_value \<Rightarrow> replay_entry" where
  "entry_of_recorded (RecordedClock v) = EntryClock v"
| "entry_of_recorded (RecordedRandom v) = EntryRandom v"

definition from_replay_log :: "(Tick \<times> u64 \<times> replay_entry) list \<Rightarrow> event_recorder" where
  "from_replay_log es =
     \<lparr>mode = Replay,
      log = foldl (\<lambda>m (t, n, e). hm_insert (EventKey t n) (recorded_of_entry e) m) [] es,
      current_tick = 0, current_ordinal = 0\<rparr>"

definition next_ordinal :: "build \<Rightarrow> event_recorder \<Rightarrow> Tick \<Rightarrow> (u64 \<times> event_recorder) run" where
  "next_ordinal b r t =
     (let r1 = (if t \<noteq> current_tick r then r\<lparr>current_tick := t, current_ordinal := 0\<rparr> else r);
          n = current_ordinal r1
      in and_then (plus_build b (current_ordinal r1) 1) (\<lambda>n'. Inr (n, r1\<lparr>current_ordinal := n'\<rparr>)))"

definition export_log ::
  "(event_key \<times> recorded_value) iter_order \<Rightarrow> event_recorder \<Rightarrow> (Tick \<times> u64 \<times> replay_entry) list" where
  "export_log ord r =
     map (\<lambda>(k, v). (key_tick k, call_ordinal k, entry_of_recorded v)) (iterate ord (log r))"

definition wall_clock_now ::
  "build \<Rightarrow> event_recorder \<Rightarrow> Tick \<Rightarrow> ('s \<Rightarrow> u64 \<times> 's) \<Rightarrow> 's
     \<Rightarrow> ((replay_error + u64) \<times> event_recorder \<times> 's) run" where
  "wall_clock_now b r t real_now_fn s =
     and_then (next_ordinal b r t) (\<lambda>(n, r1).
       let key = EventKey t n in
       case mode r1 of
         Record \<Rightarrow>
           (let (v, s') = real_now_fn s
            in Inr (Inr v, r1\<lparr>log := hm_insert key (RecordedClock v) (log r1)\<rparr>, s'))
       | Replay \<Rightarrow>
           (case hm_get (log r1) key of
              Some (RecordedClock v) \<Rightarrow> Inr (Inr v, r1, s)
            | Some _ \<Rightarrow> Inr (Inl (TypeMismatch t n), r1, s)
            | None \<Rightarrow> Inr (Inl (MissingEntry t n), r1, s)))"

text \<open>On success the result is the final content of the caller's buffer.\<close>

definition random_bytes ::
  "build \<Rightarrow> event_recorder \<Rightarrow> Tick \<Rightarrow> u8 list \<Rightarrow> ('s \<Rightarrow> u8 list \<Rightarrow> u8 list \<times> 's) \<Rightarrow> 's
     \<Rightarrow> ((replay_error + u8 list) \<times> event_recorder \<times> 's) run" where
  "random_bytes b r t buf real_random_fn s =
     and_then (next_ordinal b r t) (\<lambda>(n, r1).
       let key = EventKey t n in
       case mode r1 of
         Record \<Rightarrow>
           (let (buf', s') = real_random_fn s buf
            in Inr (Inr buf', r1\<lparr>log := hm_insert key (RecordedRandom buf') (log r1)\<rparr>, s'))
       | Replay \<Rightarrow>
           (case hm_get (log r1) key of
              Some (RecordedRandom v) \<Rightarrow>
                if length v \<noteq> length buf then Inr (Inl (TypeMismatch t n), r1, s)
                else Inr (Inr v, r1, s)
            | Some _ \<Rightarrow> Inr (Inl (TypeMismatch t n), r1, s)
            | None \<Rightarrow> Inr (Inl (MissingEntry t n), r1, s)))"

subsection \<open>Sequences of host calls\<close>

text \<open>
  A host source bundles the two closures. \<open>random_fills\<close> says what the type \<open>&mut [u8]\<close>
  says: the closure may change the bytes of the slice, not its length.
\<close>

record 's host_source =
  real_now :: "'s \<Rightarrow> u64 \<times> 's"
  real_random :: "'s \<Rightarrow> u8 list \<Rightarrow> u8 list \<times> 's"

definition random_fills :: "'s host_source \<Rightarrow> bool" where
  "random_fills src \<longleftrightarrow> (\<forall>s buf. length (fst (real_random src s buf)) = length buf)"

datatype host_request =
    ClockCall (call_tick: Tick)
  | RandomCall (call_tick: Tick) (call_buf: "u8 list")

text \<open>The trait \<open>NonDeterminismSource\<close> as a record of its methods, and a call through it.\<close>

record ('r, 's) nondeterminism_source_ops =
  nd_wall_clock_now :: "'r \<Rightarrow> Tick \<Rightarrow> ('s \<Rightarrow> u64 \<times> 's) \<Rightarrow> 's \<Rightarrow> ((replay_error + u64) \<times> 'r \<times> 's) run"
  nd_random_bytes :: "'r \<Rightarrow> Tick \<Rightarrow> u8 list \<Rightarrow> ('s \<Rightarrow> u8 list \<Rightarrow> u8 list \<times> 's) \<Rightarrow> 's
    \<Rightarrow> ((replay_error + u8 list) \<times> 'r \<times> 's) run"

definition recorder_ops :: "build \<Rightarrow> (event_recorder, 's) nondeterminism_source_ops" where
  "recorder_ops b = \<lparr>nd_wall_clock_now = wall_clock_now b, nd_random_bytes = random_bytes b\<rparr>"

fun host_call :: "('r, 's) nondeterminism_source_ops \<Rightarrow> 's host_source \<Rightarrow> 'r \<Rightarrow> host_request \<Rightarrow> 's
    \<Rightarrow> ((replay_error + recorded_value) \<times> 'r \<times> 's) run" where
  "host_call ops src r (ClockCall t) s =
     and_then (nd_wall_clock_now ops r t (real_now src) s)
       (\<lambda>(x, r', s'). Inr (map_sum id RecordedClock x, r', s'))"
| "host_call ops src r (RandomCall t buf) s =
     and_then (nd_random_bytes ops r t buf (real_random src) s)
       (\<lambda>(x, r', s'). Inr (map_sum id RecordedRandom x, r', s'))"

lemma recorder_ops_simps [simp]:
  "nd_wall_clock_now (recorder_ops b) = wall_clock_now b" "nd_random_bytes (recorder_ops b) = random_bytes b"
  by (simp_all add: recorder_ops_def)

fun run_calls :: "('r \<Rightarrow> host_request \<Rightarrow> 's \<Rightarrow> ((replay_error + recorded_value) \<times> 'r \<times> 's) run)
    \<Rightarrow> 'r \<Rightarrow> host_request list \<Rightarrow> 's \<Rightarrow> ((replay_error + recorded_value) list \<times> 'r \<times> 's) run" where
  "run_calls call r [] s = Inr ([], r, s)"
| "run_calls call r (c # cs) s =
     and_then (call r c s) (\<lambda>(x, r', s').
       and_then (run_calls call r' cs s') (\<lambda>(xs, r'', s''). Inr (x # xs, r'', s'')))"

text \<open>The keys of a sequence of calls, from the tick and ordinal the recorder is at.\<close>

definition key_at :: "Tick \<Rightarrow> u64 \<Rightarrow> host_request \<Rightarrow> event_key" where
  "key_at ct n c = EventKey (call_tick c) (if call_tick c = ct then n else 0)"

fun call_keys :: "Tick \<Rightarrow> u64 \<Rightarrow> host_request list \<Rightarrow> event_key list" where
  "call_keys ct n [] = []"
| "call_keys ct n (c # cs) =
     key_at ct n c # call_keys (call_tick c) (call_ordinal (key_at ct n c) + 1) cs"

text \<open>What a replayed call answers, given what the log holds under its key.\<close>

fun answers :: "host_request \<Rightarrow> recorded_value \<Rightarrow> bool" where
  "answers (ClockCall t) (RecordedClock v) = True"
| "answers (RandomCall t buf) (RecordedRandom v) \<longleftrightarrow> length v = length buf"
| "answers _ _ = False"

definition replay_answer ::
  "(event_key \<rightharpoonup> recorded_value) \<Rightarrow> host_request \<Rightarrow> event_key \<Rightarrow> replay_error + recorded_value" where
  "replay_answer m c k =
     (case m k of
        None \<Rightarrow> Inl (MissingEntry (key_tick k) (call_ordinal k))
      | Some v \<Rightarrow> if answers c v then Inr v else Inl (TypeMismatch (key_tick k) (call_ordinal k)))"

text \<open>Two calls of the same shape: same host call, same tick, same buffer length.\<close>

fun same_shape :: "host_request \<Rightarrow> host_request \<Rightarrow> bool" where
  "same_shape (ClockCall t) (ClockCall u) \<longleftrightarrow> t = u"
| "same_shape (RandomCall t buf) (RandomCall u buf') \<longleftrightarrow> t = u \<and> length buf = length buf'"
| "same_shape _ _ = False"

subsection \<open>Keys\<close>

lemma length_call_keys [simp]: "length (call_keys ct n cs) = length cs"
  by (induction cs arbitrary: ct n) simp_all

lemma call_keys_above:
  assumes "\<forall>c\<in>set cs. ct \<le> call_tick c" and "sorted (map call_tick cs)" and "unat n + length cs < 2 ^ 64"
  shows "sorted_wrt (<) (call_keys ct n cs) \<and> (\<forall>k\<in>set (call_keys ct n cs). EventKey ct n \<le> k)"
  using assms
proof (induction cs arbitrary: ct n)
  case Nil
  then show ?case by simp
next
  case (Cons c cs)
  define m where "m = call_ordinal (key_at ct n c)"
  have m: "unat m + length (c # cs) < 2 ^ 64" using Cons.prems(3) by (simp add: m_def key_at_def)
  then have m1: "unat (m + 1) = unat m + 1" by (intro unat_Suc_small) simp
  have IH: "sorted_wrt (<) (call_keys (call_tick c) (m + 1) cs)"
      "\<forall>k\<in>set (call_keys (call_tick c) (m + 1) cs). EventKey (call_tick c) (m + 1) \<le> k"
    using Cons.IH [of "call_tick c" "m + 1"] Cons.prems(2) m m1 by auto
  have "EventKey (call_tick c) m < EventKey (call_tick c) (m + 1)"
    using m1 by (simp add: less_event_key_def word_less_nat_alt)
  then have above: "\<forall>k\<in>set (call_keys (call_tick c) (m + 1) cs). EventKey (call_tick c) m < k"
    using IH(2) by (meson less_le_trans)
  have "EventKey ct n \<le> EventKey (call_tick c) m"
    using Cons.prems(1) by (auto simp: less_eq_event_key_def m_def key_at_def)
  moreover have "key_at ct n c = EventKey (call_tick c) m" by (simp add: m_def key_at_def)
  ultimately show ?case
    using IH(1) above by (auto simp: m_def [symmetric] intro: less_imp_le order_trans)
qed

lemma call_keys_distinct:
  assumes "sorted (map call_tick cs)" and "length cs < 2 ^ 64"
  shows "distinct (call_keys 0 0 cs)"
  using call_keys_above [of cs 0 0] assms by (simp add: strict_sorted_iff)

lemma call_keys_same_shape: "list_all2 same_shape cs cs' \<Longrightarrow> call_keys ct n cs = call_keys ct n cs'"
proof (induction arbitrary: ct n rule: list_all2_induct)
  case (Cons c cs c' cs')
  then have "call_tick c = call_tick c'" by (cases c; cases c') auto
  then show ?case by (simp add: Cons.IH key_at_def)
qed simp

lemma answers_same_shape: "same_shape c c' \<Longrightarrow> answers c v \<longleftrightarrow> answers c' v"
  by (cases c; cases c'; cases v) auto

subsection \<open>The contract of a recorder\<close>

text \<open>
  The trait \<open>NonDeterminismSource\<close> as an interface: \<open>pos\<close> is the tick and ordinal the
  source is at, \<open>stored\<close> what it has under each key. A replaying source answers from
  \<open>stored\<close> and leaves the host alone; a recording one stores what the host answered.
\<close>

locale nondeterminism_source =
  fixes ops :: "('r, 's) nondeterminism_source_ops"
    and replaying :: "'r \<Rightarrow> bool"
    and stored :: "'r \<Rightarrow> event_key \<rightharpoonup> recorded_value"
    and pos :: "'r \<Rightarrow> Tick \<times> u64"
  assumes replay_call: "replaying r \<Longrightarrow> unat (snd (pos r)) + 1 < 2 ^ 64 \<Longrightarrow>
      \<exists>r'. host_call ops src r c s = Inr (replay_answer (stored r) c (key_at (fst (pos r)) (snd (pos r)) c), r', s) \<and>
        replaying r' \<and> stored r' = stored r \<and>
        pos r' = (call_tick c, call_ordinal (key_at (fst (pos r)) (snd (pos r)) c) + 1)"
    and record_call: "\<not> replaying r \<Longrightarrow> random_fills src \<Longrightarrow> unat (snd (pos r)) + 1 < 2 ^ 64 \<Longrightarrow>
      \<exists>v r' s'. host_call ops src r c s = Inr (Inr v, r', s') \<and> answers c v \<and> \<not> replaying r' \<and>
        stored r' = (stored r)(key_at (fst (pos r)) (snd (pos r)) c \<mapsto> v) \<and>
        pos r' = (call_tick c, call_ordinal (key_at (fst (pos r)) (snd (pos r)) c) + 1)"
begin

lemma next_pos_bound:
  assumes "unat n + length (c # cs) < 2 ^ 64"
  shows "unat (call_ordinal (key_at ct n c) + 1) + length cs < 2 ^ 64"
proof -
  have "unat (call_ordinal (key_at ct n c)) \<le> unat n" by (simp add: key_at_def)
  then show ?thesis using assms unat_Suc_small [of "call_ordinal (key_at ct n c)"] by simp
qed

lemma replay_run:
  assumes "replaying r" and "unat (snd (pos r)) + length cs < 2 ^ 64"
  shows "\<exists>r'. run_calls (host_call ops src) r cs s =
    Inr (map2 (replay_answer (stored r)) cs (call_keys (fst (pos r)) (snd (pos r)) cs), r', s)"
  using assms
proof (induction cs arbitrary: r)
  case Nil
  then show ?case by simp
next
  case (Cons c cs)
  obtain r1 where r1: "host_call ops src r c s = Inr (replay_answer (stored r) c (key_at (fst (pos r)) (snd (pos r)) c), r1, s)"
      "replaying r1" "stored r1 = stored r"
      "pos r1 = (call_tick c, call_ordinal (key_at (fst (pos r)) (snd (pos r)) c) + 1)"
    using replay_call [of r src c s] Cons.prems by auto
  show ?case using Cons.IH [of r1] r1 next_pos_bound [OF Cons.prems(2)] by auto
qed

lemma record_run:
  assumes "\<not> replaying r" and "random_fills src" and "unat (snd (pos r)) + length cs < 2 ^ 64"
  shows "\<exists>vs r' s'. run_calls (host_call ops src) r cs s = Inr (map Inr vs, r', s') \<and> list_all2 answers cs vs \<and>
    stored r' = stored r ++ map_of (rev (zip (call_keys (fst (pos r)) (snd (pos r)) cs) vs))"
  using assms
proof (induction cs arbitrary: r s)
  case Nil
  then show ?case by simp
next
  case (Cons c cs)
  let ?k = "key_at (fst (pos r)) (snd (pos r)) c"
  obtain v r1 s1 where v: "host_call ops src r c s = Inr (Inr v, r1, s1)" "answers c v" "\<not> replaying r1"
      "stored r1 = (stored r)(?k \<mapsto> v)" "pos r1 = (call_tick c, call_ordinal ?k + 1)"
    using record_call [of r src c s] Cons.prems by auto
  obtain vs r' s' where "run_calls (host_call ops src) r1 cs s1 = Inr (map Inr vs, r', s')" "list_all2 answers cs vs"
      "stored r' = stored r1 ++ map_of (rev (zip (call_keys (fst (pos r1)) (snd (pos r1)) cs) vs))"
    using Cons.IH [of r1 s1] v(3,5) next_pos_bound [OF Cons.prems(3)] Cons.prems(2) by auto
  then show ?case using v by (intro exI [of _ "v # vs"]) (auto simp: map_add_upd_left map_add_def fun_eq_iff split: option.splits)
qed

lemma replay_stored:
  assumes "replaying rr" and "pos rr = (0, 0)" and "list_all2 answers cs vs" and "list_all2 same_shape cs cs'"
    and "stored rr = map_of (rev (zip (call_keys 0 0 cs) vs))"
    and "sorted (map call_tick cs)" and "length cs < 2 ^ 64"
  shows "\<exists>rr'. run_calls (host_call ops src) rr cs' u = Inr (map Inr vs, rr', u)"
proof -
  let ?ks = "call_keys 0 0 cs"
  have len: "length vs = length cs" "length cs' = length cs"
    using assms(3,4) by (auto dest: list_all2_lengthD)
  have dist: "distinct (map fst (rev (zip ?ks vs)))"
    using call_keys_distinct [OF assms(6,7)] len by (simp add: rev_map [symmetric])
  have "replay_answer (stored rr) (cs' ! i) (?ks ! i) = Inr (vs ! i)" if i: "i < length cs" for i
  proof -
    have "(?ks ! i, vs ! i) \<in> set (rev (zip ?ks vs))" using i len by (auto simp: in_set_zip)
    then have "stored rr (?ks ! i) = Some (vs ! i)" using dist assms(5) by simp
    moreover have "answers (cs' ! i) (vs ! i)"
      using i len assms(3,4) answers_same_shape [of "cs ! i" "cs' ! i" "vs ! i"]
      by (auto simp: list_all2_conv_all_nth)
    ultimately show ?thesis by (simp add: replay_answer_def)
  qed
  then have "map2 (replay_answer (stored rr)) cs' ?ks = map Inr vs"
    using len by (auto intro!: nth_equalityI)
  then show ?thesis
    using replay_run [OF assms(1), of cs' src u] assms(2,7) call_keys_same_shape [OF assms(4), of 0 0] len
    by simp
qed

end

subsection \<open>The recorder fulfils the contract\<close>

lemma next_ordinal_eq:
  assumes "unat (current_ordinal r) + 1 < 2 ^ 64"
  shows "next_ordinal b r (call_tick c) =
    (let n = call_ordinal (key_at (current_tick r) (current_ordinal r) c)
     in Inr (n, r\<lparr>current_tick := call_tick c, current_ordinal := n + 1\<rparr>))"
  using assms by (simp add: next_ordinal_def key_at_def Let_def run_simps unat_1)

interpretation recorder: nondeterminism_source "recorder_ops b" "\<lambda>r. mode r = Replay" "\<lambda>r. hm_get (log r)"
  "\<lambda>r. (current_tick r, current_ordinal r)" for b
proof unfold_locales
  fix r :: event_recorder and c and s :: 's and src :: "'s host_source"
  assume "mode r = Replay" and room: "unat (snd (current_tick r, current_ordinal r)) + 1 < 2 ^ 64"
  then show "\<exists>r'. host_call (recorder_ops b) src r c s = Inr (replay_answer (hm_get (log r)) c
        (key_at (fst (current_tick r, current_ordinal r)) (snd (current_tick r, current_ordinal r)) c), r', s) \<and>
      mode r' = Replay \<and> hm_get (log r') = hm_get (log r) \<and>
      (current_tick r', current_ordinal r') =
        (call_tick c, call_ordinal (key_at (fst (current_tick r, current_ordinal r)) (snd (current_tick r, current_ordinal r)) c) + 1)"
    using next_ordinal_eq [of r b c]
    by (cases c) (auto simp: wall_clock_now_def random_bytes_def replay_answer_def Let_def key_at_def
        split: option.split recorded_value.split)
next
  fix r :: event_recorder and c and s :: 's and src :: "'s host_source"
  assume "mode r \<noteq> Replay" and "random_fills src"
    and room: "unat (snd (current_tick r, current_ordinal r)) + 1 < 2 ^ 64"
  then have "mode r = Record" by (cases "mode r") auto
  with room \<open>random_fills src\<close>
  show "\<exists>v r' s'. host_call (recorder_ops b) src r c s = Inr (Inr v, r', s') \<and> answers c v \<and> mode r' \<noteq> Replay \<and>
      hm_get (log r') = (hm_get (log r))
        (key_at (fst (current_tick r, current_ordinal r)) (snd (current_tick r, current_ordinal r)) c \<mapsto> v) \<and>
      (current_tick r', current_ordinal r') =
        (call_tick c, call_ordinal (key_at (fst (current_tick r, current_ordinal r)) (snd (current_tick r, current_ordinal r)) c) + 1)"
    using next_ordinal_eq [of r b c]
    by (cases c) (auto simp: wall_clock_now_def random_bytes_def random_fills_def Let_def key_at_def
        split: prod.split, metis fst_conv)
qed

lemma wall_clock_now_record:
  assumes "mode r = Record" and "unat (current_ordinal r) + 1 < 2 ^ 64" and "f s = (v, s')"
  shows "wall_clock_now b r t f s =
    (let n = (if t = current_tick r then current_ordinal r else 0)
     in Inr (Inr v, r\<lparr>current_tick := t, current_ordinal := n + 1,
          log := hm_insert (EventKey t n) (RecordedClock v) (log r)\<rparr>, s'))"
  using next_ordinal_eq [of r b "ClockCall t"] assms
  by (simp add: wall_clock_now_def Let_def key_at_def)

lemma next_ordinal_log: "next_ordinal b r t = Inr (n, r') \<Longrightarrow> log r' = log r \<and> mode r' = mode r"
  by (auto simp: next_ordinal_def Let_def split: if_splits)

lemma wall_clock_now_inv:
  assumes "wall_clock_now b r t f s = Inr (x, r', s')" and "hm_inv (log r)"
  shows "hm_inv (log r') \<and> mode r' = mode r"
proof -
  obtain n r1 where n: "next_ordinal b r t = Inr (n, r1)"
    using assms(1) by (auto simp: wall_clock_now_def)
  from next_ordinal_log [OF this] assms show ?thesis
    by (auto simp: wall_clock_now_def n Let_def
        split: recorder_mode.splits option.splits recorded_value.splits prod.splits)
qed

lemma random_bytes_inv:
  assumes "random_bytes b r t buf f s = Inr (x, r', s')" and "hm_inv (log r)"
  shows "hm_inv (log r') \<and> mode r' = mode r"
proof -
  obtain n r1 where n: "next_ordinal b r t = Inr (n, r1)"
    using assms(1) by (auto simp: random_bytes_def)
  from next_ordinal_log [OF this] assms show ?thesis
    by (auto simp: random_bytes_def n Let_def
        split: recorder_mode.splits option.splits recorded_value.splits prod.splits if_splits)
qed

lemma host_call_inv:
  "host_call (recorder_ops b) src r c s = Inr (x, r', s') \<Longrightarrow> hm_inv (log r) \<Longrightarrow> hm_inv (log r') \<and> mode r' = mode r"
  by (cases c) (auto dest: wall_clock_now_inv random_bytes_inv)

lemma run_calls_inv:
  "run_calls (host_call (recorder_ops b) src) r cs s = Inr (xs, r', s') \<Longrightarrow> hm_inv (log r) \<Longrightarrow>
     hm_inv (log r') \<and> mode r' = mode r"
proof (induction cs arbitrary: r s xs)
  case (Cons c cs)
  then obtain x r1 s1 ys where "host_call (recorder_ops b) src r c s = Inr (x, r1, s1)"
      "run_calls (host_call (recorder_ops b) src) r1 cs s1 = Inr (ys, r', s')"
    by auto
  with host_call_inv [of b src r c s x r1 s1] Cons show ?case by auto
qed simp

lemma new_EventRecorder_simps [simp]:
  "mode (new_EventRecorder md) = md" "log (new_EventRecorder md) = []"
  "current_tick (new_EventRecorder md) = 0" "current_ordinal (new_EventRecorder md) = 0"
  by (simp_all add: new_EventRecorder_def)

subsection \<open>Export and import\<close>

lemma recorded_of_entry_of_recorded [simp]: "recorded_of_entry (entry_of_recorded v) = v"
  by (cases v) simp_all

lemma hm_get_foldl_insert:
  "hm_get (foldl (\<lambda>m (k, v). hm_insert k v m) m kvs) = hm_get m ++ map_of (rev kvs)"
  by (induction kvs arbitrary: m) (auto simp: fun_eq_iff map_add_def split: option.splits)

lemma from_export:
  assumes "hm_inv (log r)"
  shows "hm_get (log (from_replay_log (export_log ord r))) = hm_get (log r)"
proof -
  have "log (from_replay_log (export_log ord r)) = foldl (\<lambda>m (k, v). hm_insert k v m) [] (iterate ord (log r))"
    by (simp add: from_replay_log_def export_log_def foldl_map case_prod_unfold)
  moreover have "map_of (rev (iterate ord (log r))) = map_of (iterate ord (log r))"
    using assms hm_inv_iterate [of ord "log r"] by (intro map_of_inject_set [THEN iffD2]) (auto simp: hm_inv_def rev_map [symmetric])
  ultimately show ?thesis
    using hm_get_iterate [OF assms, of ord] by (simp add: hm_get_foldl_insert hm_get_def fun_eq_iff)
qed

lemma from_replay_log_simps [simp]:
  "mode (from_replay_log es) = Replay" "current_tick (from_replay_log es) = 0"
  "current_ordinal (from_replay_log es) = 0"
  by (simp_all add: from_replay_log_def)

subsection \<open>Properties\<close>

text \<open>A host whose clock advances by seven, and one that would answer differently.\<close>

definition example_host :: "u64 host_source" where
  "example_host = \<lparr>real_now = (\<lambda>s. (s + 7, s + 7)), real_random = (\<lambda>s buf. (map (\<lambda>_. 42) buf, s + 1))\<rparr>"

definition divergent_host :: "nat host_source" where
  "divergent_host = \<lparr>real_now = (\<lambda>s. (999999, s + 1)), real_random = (\<lambda>s buf. (map (\<lambda>_. 13) buf, s + 1))\<rparr>"

lemma example_host_fills [simp]: "random_fills example_host"
  by (simp add: random_fills_def example_host_def)

text \<open>
  Property C10. Replay reproduces a recorded run: record any sequence of clock and random
  calls with non-decreasing ticks, export the log in whatever order the \<open>HashMap\<close>
  yields, import it, and issue calls of the same shape on any other host: every result
  is the recorded one, bit for bit, and the other host is never consulted.
\<close>

theorem record_replay_identical:
  assumes "random_fills src" and "sorted (map call_tick cs)" and "length cs < 2 ^ 64"
    and "list_all2 same_shape cs cs'"
  shows "\<exists>vs r s'. run_calls (host_call (recorder_ops b) src) (new_EventRecorder Record) cs s = Inr (map Inr vs, r, s') \<and>
     length vs = length cs \<and>
     (\<exists>r'. run_calls (host_call (recorder_ops b') src') (from_replay_log (export_log ord r)) cs' u = Inr (map Inr vs, r', u))"
proof -
  obtain vs r s' where vs: "run_calls (host_call (recorder_ops b) src) (new_EventRecorder Record) cs s = Inr (map Inr vs, r, s')"
      "list_all2 answers cs vs" "hm_get (log r) = map_of (rev (zip (call_keys 0 0 cs) vs))"
    using recorder.record_run [of "new_EventRecorder Record" src cs b s] assms by auto
  have "hm_inv (log r)" using run_calls_inv [OF vs(1)] by simp
  then have "\<exists>r'. run_calls (host_call (recorder_ops b') src') (from_replay_log (export_log ord r)) cs' u = Inr (map Inr vs, r', u)"
    using assms vs by (intro recorder.replay_stored) (simp_all add: from_export)
  then show ?thesis using vs(1,2) by (auto dest: list_all2_lengthD)
qed

theorem record_replay_identical_witness:
  "\<exists>vs r s'. run_calls (host_call (recorder_ops Debug) example_host) (new_EventRecorder Record)
       [ClockCall 1, RandomCall 1 [0, 0], ClockCall 2] 1000 = Inr (map Inr vs, r, s') \<and> length vs = 3 \<and>
     (\<exists>r'. run_calls (host_call (recorder_ops Release) divergent_host) (from_replay_log (export_log reverse_order r))
       [ClockCall 1, RandomCall 1 [9, 9], ClockCall 2] 0 = Inr (map Inr vs, r', 0))"
  using record_replay_identical [of example_host "[ClockCall 1, RandomCall 1 [0, 0], ClockCall 2]"
      "[ClockCall 1, RandomCall 1 [9, 9], ClockCall 2]" Debug 1000 Release divergent_host reverse_order 0]
  by (simp add: numeral_3_eq_3 del: run_calls.simps)

text \<open>
  A replaying recorder is a function of its log alone: each call is answered
  from the entry under its (tick, ordinal) key, a missing entry is the error
  \<open>MissingEntry\<close>, an entry of the other kind or of another length is \<open>TypeMismatch\<close>, and
  the host's clock and random source are never called, so no error falls back to them.
\<close>

theorem replay_from_log_only:
  assumes "mode r = Replay" and "unat (current_ordinal r) + length cs < 2 ^ 64"
  shows "\<exists>r'. run_calls (host_call (recorder_ops b) src) r cs s =
    Inr (map2 (replay_answer (hm_get (log r))) cs (call_keys (current_tick r) (current_ordinal r) cs), r', s)"
  using recorder.replay_run [of r cs b src s] assms by simp

theorem replay_from_log_only_witness:
  "\<exists>r'. run_calls (host_call (recorder_ops Debug) divergent_host) (from_replay_log [(1, 0, EntryClock 5), (2, 0, EntryClock 6)])
      [ClockCall 1, ClockCall 1, RandomCall 2 [0]] 0 =
    Inr ([Inr (RecordedClock 5), Inl (MissingEntry 1 1), Inl (TypeMismatch 2 0)], r', 0)"
  using replay_from_log_only [of "from_replay_log [(1, 0, EntryClock 5), (2, 0, EntryClock 6)]"
      "[ClockCall 1, ClockCall 1, RandomCall 2 [0]]" Debug divergent_host 0]
  by (simp add: key_at_def replay_answer_def del: run_calls.simps) (simp add: from_replay_log_def del: run_calls.simps)

text \<open>
  The log is exact: after recording calls with non-decreasing ticks it holds,
  for every call, the value the guest saw under that call's own key, and nothing else;
  no two calls share a key.
\<close>

theorem recorded_log_exact:
  assumes "random_fills src" and "sorted (map call_tick cs)" and "length cs < 2 ^ 64"
    and "run_calls (host_call (recorder_ops b) src) (new_EventRecorder Record) cs s = Inr (map Inr vs, r, s')"
  shows "distinct (call_keys 0 0 cs) \<and> set (log r) = set (zip (call_keys 0 0 cs) vs)"
proof -
  let ?z = "zip (call_keys 0 0 cs) vs"
  obtain ws where "map Inr vs = (map Inr ws :: (replay_error + recorded_value) list)" "list_all2 answers cs ws"
      "hm_get (log r) = map_of (rev (zip (call_keys 0 0 cs) ws))"
    using recorder.record_run [of "new_EventRecorder Record" src cs b s] assms by auto
  moreover from this(1) have "ws = vs" by (metis inj_Inr inj_map_eq_map)
  ultimately have get: "hm_get (log r) = map_of (rev ?z)" "length vs = length cs"
    by (auto dest: list_all2_lengthD)
  have dist: "distinct (call_keys 0 0 cs)" by (rule call_keys_distinct [OF assms(2,3)])
  have "hm_inv (log r)" using run_calls_inv [OF assms(4)] by simp
  moreover have "distinct (map fst (rev ?z))" using dist get(2) by (simp add: rev_map [symmetric])
  ultimately have "set (log r) = set (rev ?z)"
    using map_of_inject_set [of "log r" "rev ?z"] get(1) by (simp add: hm_get_def hm_inv_def fun_eq_iff)
  then show ?thesis using dist by simp
qed

theorem recorded_log_exact_witness:
  "\<exists>r s'. run_calls (host_call (recorder_ops Debug) example_host) (new_EventRecorder Record) [ClockCall 1, ClockCall 1, ClockCall 2] 1000 =
     Inr (map Inr [RecordedClock 1007, RecordedClock 1014, RecordedClock 1021], r, s') \<and>
     set (log r) = {(EventKey 1 0, RecordedClock 1007), (EventKey 1 1, RecordedClock 1014),
       (EventKey 2 0, RecordedClock 1021)}"
proof -
  let ?cs = "[ClockCall 1, ClockCall 1, ClockCall 2]"
  obtain r s' where r: "run_calls (host_call (recorder_ops Debug) example_host) (new_EventRecorder Record) ?cs 1000 =
     Inr (map Inr [RecordedClock 1007, RecordedClock 1014, RecordedClock 1021], r, s')"
    by (simp add: wall_clock_now_record Let_def example_host_def)
  with recorded_log_exact [OF _ _ _ r] show ?thesis by (auto simp: key_at_def)
qed

text \<open>
  Ticks that go back lose events: when a clock call at tick \<open>t\<close> is followed by
  one at another tick and then by one at \<open>t\<close> again, the ordinal restarts at 0, the third
  value overwrites the first in the log, and replay answers the first call with it.
\<close>

theorem tick_regression_overwrites:
  assumes "t \<noteq> u" and "real_now src s = (v1, s1)" and "real_now src s1 = (v2, s2)" and "real_now src s2 = (v3, s3)"
  shows "\<exists>r. run_calls (host_call (recorder_ops b) src) (new_EventRecorder Record) [ClockCall t, ClockCall u, ClockCall t] s =
       Inr ([Inr (RecordedClock v1), Inr (RecordedClock v2), Inr (RecordedClock v3)], r, s3) \<and>
     length (log r) = 2 \<and>
     (\<exists>r'. run_calls (host_call (recorder_ops b) src') (from_replay_log (export_log ord r)) [ClockCall t] w =
       Inr ([Inr (RecordedClock v3)], r', w))"
proof -
  obtain r where r: "run_calls (host_call (recorder_ops b) src) (new_EventRecorder Record) [ClockCall t, ClockCall u, ClockCall t] s =
       Inr ([Inr (RecordedClock v1), Inr (RecordedClock v2), Inr (RecordedClock v3)], r, s3)"
      "log r = [(EventKey t 0, RecordedClock v3), (EventKey u 0, RecordedClock v2)]"
    using assms by (auto simp: wall_clock_now_record Let_def hm_insert_def)
  then have "hm_inv (log r)" using assms(1) by (simp add: hm_inv_def)
  moreover have "call_keys 0 0 [ClockCall t] = [EventKey t 0]" by (simp add: key_at_def)
  ultimately have "\<exists>r'. run_calls (host_call (recorder_ops b) src') (from_replay_log (export_log ord r)) [ClockCall t] w =
       Inr ([Inr (RecordedClock v3)], r', w)"
    using r recorder.replay_run [of "from_replay_log (export_log ord r)" "[ClockCall t]" b src' w]
    by (simp add: from_export replay_answer_def del: run_calls.simps) (simp add: hm_get_def)
  then show ?thesis using r by (intro exI [of _ r]) (simp del: run_calls.simps)
qed

theorem tick_regression_overwrites_witness:
  "\<exists>r. run_calls (host_call (recorder_ops Debug) example_host) (new_EventRecorder Record) [ClockCall 1, ClockCall 2, ClockCall 1] 0 =
       Inr ([Inr (RecordedClock 7), Inr (RecordedClock 14), Inr (RecordedClock 21)], r, 21) \<and>
     length (log r) = 2 \<and>
     (\<exists>r'. run_calls (host_call (recorder_ops Debug) divergent_host) (from_replay_log (export_log reverse_order r)) [ClockCall 1] 0 =
       Inr ([Inr (RecordedClock 21)], r', 0))"
  by (rule tick_regression_overwrites) (simp_all add: example_host_def)

end
