(* ===== verification/Io.thy ===== *)
theory Io
  imports Prelude
begin

section \<open>Guest file descriptors and I/O completions (chronos-io/src/lib.rs)\<close>

text \<open>
  \<open>FdTable\<close>, \<open>PendingCompletions\<close>, the trait \<open>IoSubsystem\<close> as a record of operations with
  its contract as a locale, and the in-process \<open>StubIoSubsystem\<close>. The table refines an unbounded map with a counter, the
  queue hands over exactly what was pushed, and every subsystem that fulfils the
  trait's contract conserves requests: what is delivered was submitted, and what was
  accepted is delivered or still in flight.
\<close>

subsection \<open>Data\<close>

type_synonym CellId = u64
type_synonym GuestFd = u32

datatype io_error =
    UnknownFd GuestFd
  | SubmissionQueueFull
  | SetupFailed string
  | BufferRegistrationFailed string

record io_completion =
  completion_cell :: CellId
  guest_fd :: GuestFd
  request_id :: u64
  io_result :: i32

record fd_table =
  fd_entries :: "GuestFd \<rightharpoonup> i32"
  next_guest_fd :: GuestFd

record pending_completions =
  queue :: "io_completion list"

record stub_io_subsystem =
  completions :: "io_completion list"

subsection \<open>FdTable\<close>

definition new_FdTable :: fd_table where
  "new_FdTable = \<lparr>fd_entries = Map.empty, next_guest_fd = 3\<rparr>"

text \<open>The derived \<open>Default\<close>, which does not reserve the stdio numbers.\<close>

definition default_FdTable :: fd_table where
  "default_FdTable = \<lparr>fd_entries = Map.empty, next_guest_fd = 0\<rparr>"

definition register_fd :: "build \<Rightarrow> fd_table \<Rightarrow> i32 \<Rightarrow> (GuestFd \<times> fd_table) run" where
  "register_fd b t host_fd =
     (let fd = next_guest_fd t in
      and_then (plus_build b (next_guest_fd t) 1) (\<lambda>n.
        Inr (fd, t\<lparr>next_guest_fd := n, fd_entries := (fd_entries t)(fd \<mapsto> host_fd)\<rparr>)))"

definition resolve :: "fd_table \<Rightarrow> GuestFd \<Rightarrow> io_error + i32" where
  "resolve t fd = (case fd_entries t fd of Some h \<Rightarrow> Inr h | None \<Rightarrow> Inl (UnknownFd fd))"

definition close_fd :: "fd_table \<Rightarrow> GuestFd \<Rightarrow> i32 option \<times> fd_table" where
  "close_fd t fd = (fd_entries t fd, t\<lparr>fd_entries := (fd_entries t)(fd := None)\<rparr>)"

subsection \<open>PendingCompletions\<close>

definition new_PendingCompletions :: pending_completions where
  "new_PendingCompletions = \<lparr>queue = []\<rparr>"

definition push_completion :: "pending_completions \<Rightarrow> io_completion \<Rightarrow> pending_completions" where
  "push_completion p c = p\<lparr>queue := queue p @ [c]\<rparr>"

definition drain_for_dispatch :: "pending_completions \<Rightarrow> io_completion list \<times> pending_completions" where
  "drain_for_dispatch p = (queue p, p\<lparr>queue := []\<rparr>)"

definition is_empty_PendingCompletions :: "pending_completions \<Rightarrow> bool" where
  "is_empty_PendingCompletions p \<longleftrightarrow> queue p = []"

definition default_PendingCompletions :: pending_completions where
  "default_PendingCompletions = \<lparr>queue = []\<rparr>"

subsection \<open>The trait IoSubsystem\<close>

text \<open>
  A \<open>&mut [u8]\<close> that is handed to the kernel is its address and length. An implementation
  of the trait is a record of its methods; a submission may panic (in a debug build).
\<close>

record byte_slice =
  slice_ptr :: u64
  slice_len :: usize

record 'io io_subsystem_ops =
  register_fixed_buffer :: "'io \<Rightarrow> u16 \<Rightarrow> byte_slice \<Rightarrow> (io_error + unit) \<times> 'io"
  submit_read_fixed ::
    "'io \<Rightarrow> CellId \<Rightarrow> GuestFd \<Rightarrow> i32 \<Rightarrow> u16 \<Rightarrow> u64 \<Rightarrow> u32 \<Rightarrow> u64 \<Rightarrow> ((io_error + unit) \<times> 'io) run"
  submit_write_fixed ::
    "'io \<Rightarrow> CellId \<Rightarrow> GuestFd \<Rightarrow> i32 \<Rightarrow> u16 \<Rightarrow> u64 \<Rightarrow> u32 \<Rightarrow> u64 \<Rightarrow> ((io_error + unit) \<times> 'io) run"
  poll_completions :: "'io \<Rightarrow> io_completion list \<times> 'io"

subsection \<open>StubIoSubsystem\<close>

definition new_StubIoSubsystem :: stub_io_subsystem where
  "new_StubIoSubsystem = \<lparr>completions = []\<rparr>"

definition default_StubIoSubsystem :: stub_io_subsystem where
  "default_StubIoSubsystem = new_StubIoSubsystem"

definition stub_register_fixed_buffer ::
  "stub_io_subsystem \<Rightarrow> u16 \<Rightarrow> byte_slice \<Rightarrow> (io_error + unit) \<times> stub_io_subsystem" where
  "stub_register_fixed_buffer s buffer_index buf = (Inr (), s)"

text \<open>\<open>len as i32\<close> keeps the bits of the \<open>u32\<close>.\<close>

definition stub_submit_read_fixed ::
  "stub_io_subsystem \<Rightarrow> CellId \<Rightarrow> GuestFd \<Rightarrow> i32 \<Rightarrow> u16 \<Rightarrow> u64 \<Rightarrow> u32 \<Rightarrow> u64
     \<Rightarrow> (io_error + unit) \<times> stub_io_subsystem" where
  "stub_submit_read_fixed s cell fd host_fd buffer_index offset len req =
     (Inr (), s\<lparr>completions := completions s @
        [\<lparr>completion_cell = cell, guest_fd = fd, request_id = req, io_result = len\<rparr>]\<rparr>)"

definition stub_submit_write_fixed ::
  "stub_io_subsystem \<Rightarrow> CellId \<Rightarrow> GuestFd \<Rightarrow> i32 \<Rightarrow> u16 \<Rightarrow> u64 \<Rightarrow> u32 \<Rightarrow> u64
     \<Rightarrow> (io_error + unit) \<times> stub_io_subsystem" where
  "stub_submit_write_fixed s cell fd host_fd buffer_index offset len req =
     (Inr (), s\<lparr>completions := completions s @
        [\<lparr>completion_cell = cell, guest_fd = fd, request_id = req, io_result = len\<rparr>]\<rparr>)"

definition stub_poll_completions :: "stub_io_subsystem \<Rightarrow> io_completion list \<times> stub_io_subsystem" where
  "stub_poll_completions s = (completions s, s\<lparr>completions := []\<rparr>)"

definition stub_io_ops :: "stub_io_subsystem io_subsystem_ops" where
  "stub_io_ops =
     \<lparr>register_fixed_buffer = stub_register_fixed_buffer,
      submit_read_fixed = (\<lambda>s cell fd host_fd buffer_index offset len req.
        Inr (stub_submit_read_fixed s cell fd host_fd buffer_index offset len req)),
      submit_write_fixed = (\<lambda>s cell fd host_fd buffer_index offset len req.
        Inr (stub_submit_write_fixed s cell fd host_fd buffer_index offset len req)),
      poll_completions = stub_poll_completions\<rparr>"

subsection \<open>The file-descriptor table refines a counter and a map\<close>

datatype fd_op = Register i32 | Close GuestFd

fun fd_run :: "build \<Rightarrow> fd_table \<Rightarrow> fd_op list \<Rightarrow> (GuestFd list \<times> fd_table) run" where
  "fd_run b t [] = Inr ([], t)"
| "fd_run b t (Register h # ops) =
     and_then (register_fd b t h) (\<lambda>(fd, t'). and_then (fd_run b t' ops) (\<lambda>(fds, t''). Inr (fd # fds, t'')))"
| "fd_run b t (Close fd # ops) = fd_run b (snd (close_fd t fd)) ops"

text \<open>The abstract table: an unbounded supply of numbers that are never reused.\<close>

fun fd_spec :: "nat \<Rightarrow> (nat \<rightharpoonup> i32) \<Rightarrow> fd_op list \<Rightarrow> (nat \<rightharpoonup> i32)" where
  "fd_spec n m [] = m"
| "fd_spec n m (Register h # ops) = fd_spec (n + 1) (m(n \<mapsto> h)) ops"
| "fd_spec n m (Close fd # ops) = fd_spec n (m(unat fd := None)) ops"

definition registrations :: "fd_op list \<Rightarrow> nat" where
  "registrations ops = length (filter (\<lambda>x. \<exists>h. x = Register h) ops)"

lemma registrations_simps [simp]:
  "registrations [] = 0"
  "registrations (Register h # ops) = registrations ops + 1"
  "registrations (Close fd # ops) = registrations ops"
  by (simp_all add: registrations_def)

lemma fd_run_spec:
  assumes "unat (next_guest_fd t) + registrations ops < 2 ^ 32"
    and "\<forall>fd. fd_entries t fd = m (unat fd)"
  shows "\<exists>t'. fd_run b t ops =
           Inr (map of_nat [unat (next_guest_fd t)..<unat (next_guest_fd t) + registrations ops], t') \<and>
         (\<forall>fd. fd_entries t' fd = fd_spec (unat (next_guest_fd t)) m ops (unat fd))"
  using assms
proof (induction ops arbitrary: t m)
  case Nil
  then show ?case by simp
next
  case (Cons x ops)
  show ?case
  proof (cases x)
    case (Register h)
    let ?n = "unat (next_guest_fd t)"
    define t1 where "t1 = t\<lparr>next_guest_fd := next_guest_fd t + 1,
      fd_entries := (fd_entries t)(next_guest_fd t \<mapsto> h)\<rparr>"
    have n1: "unat (next_guest_fd t1) = ?n + 1"
      using Cons.prems(1) Register by (simp add: t1_def unat_Suc_small)
    have reg: "register_fd b t h = Inr (next_guest_fd t, t1)"
      using Cons.prems(1) Register by (simp add: register_fd_def t1_def Let_def run_simps unat_1)
    have "\<forall>fd. fd_entries t1 fd = (m(?n \<mapsto> h)) (unat fd)"
      using Cons.prems(2) by (simp add: t1_def word_unat_eq_iff)
    moreover have "unat (next_guest_fd t1) + registrations ops < 2 ^ 32"
      using Cons.prems(1) Register n1 by simp
    ultimately have "\<exists>t'. fd_run b t1 ops = Inr (map of_nat [?n + 1..<?n + 1 + registrations ops], t') \<and>
        (\<forall>fd. fd_entries t' fd = fd_spec (?n + 1) (m(?n \<mapsto> h)) ops (unat fd))"
      using Cons.IH [of t1 "m(?n \<mapsto> h)"] unfolding n1 by blast
    moreover have "[?n..<?n + registrations (x # ops)] = ?n # [?n + 1..<?n + 1 + registrations ops]"
      using Register by (simp add: upt_conv_Cons)
    ultimately show ?thesis using reg Register by (auto simp del: upt_Suc)
  next
    case (Close fd)
    have "\<forall>fd'. fd_entries (snd (close_fd t fd)) fd' = (m(unat fd := None)) (unat fd')"
      using Cons.prems(2) by (simp add: close_fd_def word_unat_eq_iff)
    moreover have "next_guest_fd (snd (close_fd t fd)) = next_guest_fd t" by (simp add: close_fd_def)
    ultimately show ?thesis
      using Cons.IH [of "snd (close_fd t fd)" "m(unat fd := None)"] Cons.prems(1) Close by (simp add: fun_upd_def)
  qed
qed

subsection \<open>The contract of the completion queue\<close>

datatype queue_op = Arrive io_completion | Dispatch

text \<open>The batches handed over in a run of arrivals and quantum boundaries.\<close>

fun deliveries :: "('q \<Rightarrow> io_completion \<Rightarrow> 'q) \<Rightarrow> ('q \<Rightarrow> io_completion list \<times> 'q) \<Rightarrow> 'q \<Rightarrow> queue_op list
    \<Rightarrow> io_completion list list \<times> 'q" where
  "deliveries put hand_over q [] = ([], q)"
| "deliveries put hand_over q (Arrive c # ops) = deliveries put hand_over (put q c) ops"
| "deliveries put hand_over q (Dispatch # ops) =
     (let (ds, q') = deliveries put hand_over (snd (hand_over q)) ops in (fst (hand_over q) # ds, q'))"

definition arrivals :: "queue_op list \<Rightarrow> io_completion list" where
  "arrivals ops = concat (map (\<lambda>x. case x of Arrive c \<Rightarrow> [c] | Dispatch \<Rightarrow> []) ops)"

text \<open>
  A queue that is filled between quantum boundaries and handed over at them: \<open>pend\<close> is
  what it holds, in order of arrival.
\<close>

locale completion_queue =
  fixes put :: "'q \<Rightarrow> io_completion \<Rightarrow> 'q"
    and hand_over :: "'q \<Rightarrow> io_completion list \<times> 'q"
    and pend :: "'q \<Rightarrow> io_completion list"
  assumes pend_put: "pend (put q c) = pend q @ [c]"
    and fst_hand_over: "fst (hand_over q) = pend q"
    and pend_hand_over: "pend (snd (hand_over q)) = []"
begin

lemma deliveries_in_order:
  "concat (fst (deliveries put hand_over q ops)) @ pend (snd (deliveries put hand_over q ops)) =
   pend q @ arrivals ops"
proof (induction ops arbitrary: q)
  case (Cons x ops)
  then show ?case
    by (cases x) (simp_all add: pend_put fst_hand_over pend_hand_over case_prod_beta Let_def arrivals_def)
qed (simp add: arrivals_def)

lemma deliveries_flush:
  "concat (fst (deliveries put hand_over q (ops @ [Dispatch]))) = pend q @ arrivals ops"
proof -
  have "pend (snd (deliveries put hand_over q (ops @ [Dispatch]))) = []"
  proof (induction ops arbitrary: q)
    case (Cons x ops)
    then show ?case by (cases x) (simp_all add: case_prod_beta Let_def)
  qed (simp add: pend_hand_over)
  with deliveries_in_order [of q "ops @ [Dispatch]"] show ?thesis by (simp add: arrivals_def)
qed

end

interpretation pending: completion_queue push_completion drain_for_dispatch queue
  by unfold_locales (simp_all add: push_completion_def drain_for_dispatch_def)

subsection \<open>The contract of an I/O subsystem\<close>

datatype io_opcode = ReadFixed | WriteFixed

text \<open>The arguments of \<open>submit_read_fixed\<close> and \<open>submit_write_fixed\<close>.\<close>

record io_request =
  rq_op :: io_opcode
  rq_cell :: CellId
  rq_fd :: GuestFd
  rq_host_fd :: i32
  rq_buffer :: u16
  rq_offset :: u64
  rq_len :: u32
  rq_id :: u64

type_synonym ident = "CellId \<times> GuestFd \<times> u64"

definition ident_of :: "io_request \<Rightarrow> ident" where
  "ident_of rq = (rq_cell rq, rq_fd rq, rq_id rq)"

definition ident_of_completion :: "io_completion \<Rightarrow> ident" where
  "ident_of_completion c = (completion_cell c, guest_fd c, request_id c)"

datatype io_op = Submit io_request | Poll

text \<open>A run of submissions and polls: the accepted and the rejected requests, and the completions.\<close>

definition submit_request ::
  "'io io_subsystem_ops \<Rightarrow> 'io \<Rightarrow> io_request \<Rightarrow> ((io_error + unit) \<times> 'io) run" where
  "submit_request ops io rq =
     (case rq_op rq of ReadFixed \<Rightarrow> submit_read_fixed ops | WriteFixed \<Rightarrow> submit_write_fixed ops)
       io (rq_cell rq) (rq_fd rq) (rq_host_fd rq) (rq_buffer rq) (rq_offset rq) (rq_len rq) (rq_id rq)"

fun io_run :: "'io io_subsystem_ops \<Rightarrow> 'io \<Rightarrow> io_op list
    \<Rightarrow> (io_request list \<times> io_request list \<times> io_completion list \<times> 'io) run" where
  "io_run ops io [] = Inr ([], [], [], io)"
| "io_run ops io (Submit rq # xs) =
     and_then (submit_request ops io rq) (\<lambda>(res, io').
       and_then (io_run ops io' xs) (\<lambda>(acc, rej, ds, io'').
         case res of
           Inr _ \<Rightarrow> Inr (rq # acc, rej, ds, io'')
         | Inl _ \<Rightarrow> Inr (acc, rq # rej, ds, io'')))"
| "io_run ops io (Poll # xs) =
     and_then (io_run ops (snd (poll_completions ops io)) xs) (\<lambda>(acc, rej, ds, io'').
       Inr (acc, rej, fst (poll_completions ops io) @ ds, io''))"

definition submissions :: "io_op list \<Rightarrow> io_request list" where
  "submissions ops = concat (map (\<lambda>x. case x of Submit rq \<Rightarrow> [rq] | Poll \<Rightarrow> []) ops)"

lemma submissions_simps [simp]:
  "submissions [] = []"
  "submissions (Submit rq # ops) = rq # submissions ops"
  "submissions (Poll # ops) = submissions ops"
  by (simp_all add: submissions_def)

lemma io_run_submissions:
  "io_run tr io ops = Inr (acc, rej, ds, io') \<Longrightarrow> mset acc + mset rej = mset (submissions ops)"
proof (induction ops arbitrary: io acc rej ds)
  case (Cons x ops)
  show ?case
  proof (cases x)
    case (Submit rq)
    then obtain res io1 where "submit_request tr io rq = Inr (res, io1)" using Cons.prems by auto
    then show ?thesis using Cons.prems Cons.IH [of io1] Submit by (cases res) auto
  next
    case Poll
    then show ?thesis using Cons by auto
  qed
qed simp

text \<open>
  The trait \<open>IoSubsystem\<close>. What a subsystem holds of a request is its \<open>token\<close>, from which the request is
  \<open>known\<close> again; \<open>inflight\<close> are the tokens of what has been submitted and not yet delivered.
  An accepted request is in flight; a rejected one may be (the entry can stay queued
  when the kernel call that follows fails); polling takes tokens out of flight, one per completion.
\<close>

locale io_subsystem =
  fixes tr :: "'io io_subsystem_ops"
    and inflight :: "'io \<Rightarrow> 't multiset"
    and token :: "io_request \<Rightarrow> 't"
    and known :: "'t \<Rightarrow> ident"
    and valid :: "io_request \<Rightarrow> bool"
  assumes submit_law: "valid rq \<Longrightarrow> \<exists>res io'. submit_request tr io rq = Inr (res, io') \<and>
      (if isl res then inflight io' \<in> {inflight io, add_mset (token rq) (inflight io)}
       else inflight io' = add_mset (token rq) (inflight io))"
    and poll_law: "\<exists>fin. fin + inflight (snd (poll_completions tr io)) = inflight io \<and>
      mset (map ident_of_completion (fst (poll_completions tr io))) = image_mset known fin"
    and known_token: "valid rq \<Longrightarrow> known (token rq) = ident_of rq"
begin

text \<open>
  Over a run, the finished tokens \<open>fin\<close> are those of the completions delivered; together with what is in flight
  they contain the tokens of every accepted request and are tokens of submitted requests, once each.
\<close>

lemma conservation:
  assumes "\<forall>rq. Submit rq \<in> set ops \<longrightarrow> valid rq"
  shows "\<exists>acc rej ds io' fin. io_run tr io ops = Inr (acc, rej, ds, io') \<and>
    mset (map ident_of_completion ds) = image_mset known fin \<and>
    image_mset token (mset acc) + inflight io \<subseteq># fin + inflight io' \<and>
    fin + inflight io' \<subseteq># image_mset token (mset acc + mset rej) + inflight io"
  using assms
proof (induction ops arbitrary: io)
  case Nil
  have "io_run tr io [] = Inr ([], [], [], io)" by simp
  then show ?case by (intro exI [of _ "[]"] exI [of _ io] exI [of _ "{#}"]) simp
next
  case (Cons x ops)
  show ?case
  proof (cases x)
    case (Submit rq)
    obtain res io1 where s: "submit_request tr io rq = Inr (res, io1)"
        "if isl res then inflight io1 \<in> {inflight io, add_mset (token rq) (inflight io)}
         else inflight io1 = add_mset (token rq) (inflight io)"
      using submit_law [of rq io] Cons.prems Submit by auto
    obtain acc rej ds io' fin where IH: "io_run tr io1 ops = Inr (acc, rej, ds, io')"
        "mset (map ident_of_completion ds) = image_mset known fin"
        "image_mset token (mset acc) + inflight io1 \<subseteq># fin + inflight io'"
        "fin + inflight io' \<subseteq># image_mset token (mset acc + mset rej) + inflight io1"
      using Cons.IH [of io1] Cons.prems by auto
    have le: "inflight io \<subseteq># inflight io1" "inflight io1 \<subseteq># add_mset (token rq) (inflight io)"
      using s(2) by (auto split: if_splits)
    have up: "fin + inflight io' \<subseteq># image_mset token (mset acc + mset rej) + add_mset (token rq) (inflight io)"
      using IH(4) subset_mset.add_left_mono [OF le(2)] by (rule subset_mset.order_trans)
    show ?thesis
    proof (cases res)
      case (Inl e)
      have "image_mset token (mset acc) + inflight io \<subseteq># fin + inflight io'"
        using subset_mset.add_left_mono [OF le(1)] IH(3) by (rule subset_mset.order_trans)
      then show ?thesis using s(1) Submit Inl IH(1,2) up by (intro exI [of _ acc] exI [of _ "rq # rej"] exI [of _ ds] exI [of _ io'] exI [of _ fin]) simp
    next
      case (Inr u)
      then have "image_mset token (mset (rq # acc)) + inflight io \<subseteq># fin + inflight io'" using s(2) IH(3) by simp
      then show ?thesis using s(1) Submit Inr IH(1,2) up by (intro exI [of _ "rq # acc"] exI [of _ rej] exI [of _ ds] exI [of _ io'] exI [of _ fin]) simp
    qed
  next
    case Poll
    let ?io1 = "snd (poll_completions tr io)"
    obtain fin1 where one: "fin1 + inflight ?io1 = inflight io"
        "mset (map ident_of_completion (fst (poll_completions tr io))) = image_mset known fin1"
      using poll_law [of io] by blast
    obtain acc rej ds io' fin where IH: "io_run tr ?io1 ops = Inr (acc, rej, ds, io')"
        "mset (map ident_of_completion ds) = image_mset known fin"
        "image_mset token (mset acc) + inflight ?io1 \<subseteq># fin + inflight io'"
        "fin + inflight io' \<subseteq># image_mset token (mset acc + mset rej) + inflight ?io1"
      using Cons.IH [of ?io1] Cons.prems by auto
    have "fin1 + (image_mset token (mset acc) + inflight ?io1) \<subseteq># fin1 + (fin + inflight io')"
        "fin1 + (fin + inflight io') \<subseteq># fin1 + (image_mset token (mset acc + mset rej) + inflight ?io1)"
      using IH(3,4) by (simp_all add: subset_mset.add_left_mono)
    then have "image_mset token (mset acc) + inflight io \<subseteq># (fin1 + fin) + inflight io'"
        "(fin1 + fin) + inflight io' \<subseteq># image_mset token (mset acc + mset rej) + inflight io"
      by (simp_all add: ac_simps flip: one(1))
    then show ?thesis
      using Poll IH(1,2) one(2) by (intro exI [of _ acc] exI [of _ rej] exI [of _ "fst (poll_completions tr io) @ ds"] exI [of _ io'] exI [of _ "fin1 + fin"]) simp
  qed
qed

end

text \<open>The stub is such a subsystem, whatever the request.\<close>

lemma stub_submit_eq:
  "submit_request stub_io_ops s rq = Inr (Inr (), s\<lparr>completions := completions s @
     [\<lparr>completion_cell = rq_cell rq, guest_fd = rq_fd rq, request_id = rq_id rq, io_result = rq_len rq\<rparr>]\<rparr>)"
  by (cases "rq_op rq")
    (simp_all add: submit_request_def stub_io_ops_def stub_submit_read_fixed_def stub_submit_write_fixed_def)

lemma stub_poll_eq: "poll_completions stub_io_ops s = (completions s, s\<lparr>completions := []\<rparr>)"
  by (simp add: stub_io_ops_def stub_poll_completions_def)

interpretation stub: io_subsystem stub_io_ops "\<lambda>s. mset (map ident_of_completion (completions s))" ident_of id "\<lambda>_. True"
  by unfold_locales
    (auto simp: stub_submit_eq stub_poll_eq ident_of_def ident_of_completion_def intro!: exI [of _ "Inr ()"])

lemma stub_rejects_nothing:
  "io_run stub_io_ops s ops = Inr (acc, rej, ds, s') \<Longrightarrow> rej = []"
proof (induction ops arbitrary: s acc rej ds)
  case (Cons x ops)
  then show ?case by (cases x) (auto simp: stub_submit_eq)
qed simp

subsection \<open>Properties\<close>

text \<open>
  Property C39. The file-descriptor table of a cell refines a map with an unbounded
  counter: over any interleaving of registrations and closes from \<open>FdTable::new\<close> with
  fewer than 2^32 - 3 registrations, no step panics, the numbers handed out are
  3, 4, 5, \<dots> (so none is reused, not even after a close), and \<open>resolve\<close> answers exactly
  the host descriptor of a number that is open, else \<open>UnknownFd\<close>.
\<close>

theorem fd_table_refines_map:
  assumes "registrations ops < 2 ^ 32 - 3"
  shows "\<exists>t. fd_run b new_FdTable ops = Inr (map of_nat [3..<3 + registrations ops], t) \<and>
     (\<forall>fd. resolve t fd =
        (case fd_spec 3 Map.empty ops (unat fd) of Some h \<Rightarrow> Inr h | None \<Rightarrow> Inl (UnknownFd fd)))"
  using fd_run_spec [of new_FdTable ops Map.empty b] assms
  by (auto simp: new_FdTable_def resolve_def)

theorem fd_table_refines_map_witness:
  "\<exists>t. fd_run Debug new_FdTable [Register 10, Register 11, Close 3, Register 12] = Inr ([3, 4, 5], t) \<and>
     resolve t 3 = Inl (UnknownFd 3) \<and> resolve t 4 = Inr 11 \<and> resolve t 5 = Inr 12 \<and>
     resolve t 9999 = Inl (UnknownFd 9999)"
proof -
  let ?ops = "[Register 10, Register 11, Close 3, Register 12]"
  obtain t where t: "fd_run Debug new_FdTable ?ops = Inr (map of_nat [3..<3 + registrations ?ops], t)"
      "\<forall>fd. resolve t fd = (case fd_spec 3 Map.empty ?ops (unat fd) of Some h \<Rightarrow> Inr h | None \<Rightarrow> Inl (UnknownFd fd))"
    using fd_table_refines_map [of ?ops Debug] by auto
  moreover have "[3..<3 + registrations ?ops] = [3, 4, 5]" by (simp add: upt_rec)
  ultimately show ?thesis by (intro exI [of _ t]) simp
qed

text \<open>
  Beyond that many registrations the profiles part. A debug build panics instead of handing
  out the number 2^32 - 1. A release build wraps: in the course of 2^32 registrations it
  hands out the reserved numbers 0, 1 and 2, and the next registration is given number
  3 again, replacing the host descriptor under it although that number was never closed.
\<close>

lemma fd_run_release:
  "\<exists>t'. fd_run Release t (map Register hs) = Inr (map (\<lambda>k. next_guest_fd t + of_nat k) [0..<length hs], t') \<and>
     next_guest_fd t' = next_guest_fd t + of_nat (length hs)"
proof (induction hs arbitrary: t)
  case (Cons h hs)
  let ?t = "t\<lparr>next_guest_fd := next_guest_fd t + 1, fd_entries := (fd_entries t)(next_guest_fd t \<mapsto> h)\<rparr>"
  have reg: "register_fd Release t h = Inr (next_guest_fd t, ?t)" by (simp add: register_fd_def plus_build_def Let_def)
  have "map (\<lambda>k. next_guest_fd t + of_nat k) [0..<length (h # hs)] =
      next_guest_fd t # map (\<lambda>k. next_guest_fd ?t + of_nat k) [0..<length hs]"
    by (simp only: length_Cons upt_conv_Cons [OF zero_less_Suc] list.map map_Suc_upt [symmetric])
      (simp add: comp_def add.assoc)
  then show ?case using Cons.IH [of ?t] reg by (auto simp: add.assoc)
qed simp

theorem fd_numbers_wrap:
  "(next_guest_fd t = - 1 \<longrightarrow> register_fd Debug t h = Inl ArithmeticOverflow) \<and>
   (\<exists>fds t' t''. fd_run Release new_FdTable (replicate (2 ^ 32) (Register h)) = Inr (fds, t') \<and> {0, 1, 2} \<subseteq> set fds \<and>
      register_fd Release t' h' = Inr (3, t'') \<and> resolve t'' 3 = Inr h')"
proof (intro conjI impI)
  assume "next_guest_fd t = - 1"
  then have "2 ^ 32 \<le> unat (next_guest_fd t) + unat (1 :: GuestFd)" by (simp add: unsigned_minus_1_eq_mask mask_eq_exp_minus_1)
  then show "register_fd Debug t h = Inl ArithmeticOverflow" by (simp add: register_fd_def plus_build_overflow Let_def)
next
  define n :: nat where "n = 2 ^ 32"
  have n: "(of_nat n :: GuestFd) = 0" "3 < n" by (simp_all add: n_def)
  obtain t' where t': "fd_run Release new_FdTable (replicate n (Register h)) = Inr (map (\<lambda>k. 3 + of_nat k) [0..<n], t')"
      "next_guest_fd t' = 3"
    using fd_run_release [of new_FdTable "replicate n h"] n(1) by (auto simp: new_FdTable_def)
  have "j \<in> set (map (\<lambda>k. 3 + of_nat k) [0..<n])" if "j \<in> {0, 1, 2}" for j :: GuestFd
  proof -
    have j: "unat j < 3" using that by auto
    have "3 + of_nat (n - 3 + unat j) = (of_nat n + of_nat (unat j) :: GuestFd)" using n(2) by (simp add: of_nat_diff)
    then have "j = 3 + of_nat (n - 3 + unat j)" using n(1) by simp
    then show ?thesis using j n(2) by (auto intro!: image_eqI [of _ _ "n - 3 + unat j"])
  qed
  moreover have "\<exists>t''. register_fd Release t' h' = Inr (3, t'') \<and> resolve t'' 3 = Inr h'"
    using t'(2) by (simp add: register_fd_def plus_build_def resolve_def Let_def)
  ultimately show "\<exists>fds t' t''. fd_run Release new_FdTable (replicate (2 ^ 32) (Register h)) = Inr (fds, t') \<and> {0, 1, 2} \<subseteq> set fds \<and>
      register_fd Release t' h' = Inr (3, t'') \<and> resolve t'' 3 = Inr h'"
    using t'(1) unfolding n_def by blast
qed

text \<open>
  Completions reach the tenant in arrival order, each exactly once and only
  at quantum boundaries: the batches handed over at the dispatches, followed by what is
  still queued, are what was queued before and then what arrived, in order.
\<close>

theorem completions_delivered_in_order:
  "concat (fst (deliveries push_completion drain_for_dispatch p ops)) @
     queue (snd (deliveries push_completion drain_for_dispatch p ops)) = queue p @ arrivals ops"
  by (rule pending.deliveries_in_order)

text \<open>
  The in-process subsystem conserves requests: no run of submissions and
  polls panics or rejects anything, and the completions delivered together with those
  still queued are, as multisets of (cell, descriptor, request), what was submitted.
\<close>

theorem stub_conserves_requests:
  "\<exists>acc ds s. io_run stub_io_ops new_StubIoSubsystem ops = Inr (acc, [], ds, s) \<and>
     mset (map ident_of_completion ds) + mset (map ident_of_completion (completions s)) = image_mset ident_of (mset (submissions ops))"
proof -
  obtain acc rej ds s fin where run: "io_run stub_io_ops new_StubIoSubsystem ops = Inr (acc, rej, ds, s)"
      "mset (map ident_of_completion ds) = fin"
      "image_mset ident_of (mset acc) \<subseteq># fin + mset (map ident_of_completion (completions s))"
      "fin + mset (map ident_of_completion (completions s)) \<subseteq># image_mset ident_of (mset acc + mset rej)"
    using stub.conservation [of ops new_StubIoSubsystem] by (auto simp: new_StubIoSubsystem_def simp del: mset_map)
  moreover have "rej = []" by (rule stub_rejects_nothing [OF run(1)])
  ultimately show ?thesis using io_run_submissions [OF run(1)] by (auto intro: subset_mset.antisym simp del: mset_map)
qed

end
