(* ===== verification/Cells.thy ===== *)
theory Cells
  imports Checkpoint_Chain Event_Log Io
begin

section \<open>Cells (chronos-core/src/cell.rs)\<close>

text \<open>
  A cell owns the state of one tenant: its guarded memory, event recorder, checkpoint
  chain, descriptor table and completion queue. \<open>cell_inv\<close> collects the invariants of
  these components and says that the checkpoint tree is up to date on the clean pages
  and that the dirty pages can be read.
\<close>

record cell_config =
  config_id :: CellId
  initial_memory_bytes :: u32
  config_quota_bytes :: u32
  checkpoint_interval_ticks :: u64

record cell =
  config :: cell_config
  memory :: mmap_guarded_memory
  recorder :: event_recorder
  checkpoints :: checkpoint_chain
  cell_fd_table :: fd_table
  pending_io :: pending_completions
  last_checkpoint_tick :: u64

definition new_Cell ::
  "build \<Rightarrow> os_calls \<Rightarrow> hash_fn \<Rightarrow> cell_config \<Rightarrow> recorder_mode
     \<Rightarrow> syscall list \<times> (mem_fault + cell) run" where
  "new_Cell b os H cfg md =
     (case new_MmapGuardedMemory b os (initial_memory_bytes cfg) (config_quota_bytes cfg) of
        (tr, r) \<Rightarrow> (tr, and_then r (\<lambda>res.
           case res of
             Inl e \<Rightarrow> Inr (Inl e)
           | Inr m \<Rightarrow> Inr (Inr
               \<lparr>config = cfg, memory = m, recorder = new_EventRecorder md,
                checkpoints = new_CheckpointChain H, cell_fd_table = new_FdTable,
                pending_io = new_PendingCompletions, last_checkpoint_tick = 0\<rparr>))))"

definition checkpoint_due :: "cell \<Rightarrow> u64 \<Rightarrow> bool" where
  "checkpoint_due c t \<longleftrightarrow>
     checkpoint_interval_ticks (config c) \<le> saturating_sub t (last_checkpoint_tick c)"

subsection \<open>Invariant\<close>

text \<open>
  The dirty pages of a memory that the page view of a build can return: inside the quota
  and, in a debug build, fully committed.
\<close>

definition dirty_readable :: "build \<Rightarrow> mmap_guarded_memory \<Rightarrow> bool" where
  "dirty_readable b m \<longleftrightarrow>
     (\<forall>p\<in>pages (dirty m). unat p < quota_pages (quota_bytes m) \<and>
        (b = Debug \<longrightarrow> (unat p + 1) * PAGE_SIZE \<le> unat (size_bytes m)))"

definition cell_inv :: "build \<Rightarrow> hash_fn \<Rightarrow> cell \<Rightarrow> bool" where
  "cell_inv b H c \<longleftrightarrow>
     mem_inv (memory c) \<and> chain_inv H (checkpoints c) \<and>
     tree_synced H (tree (checkpoints c)) (memory c) \<and> dirty_readable b (memory c)"

lemma checkpoint_due_iff:
  "checkpoint_due c t \<longleftrightarrow>
     unat (checkpoint_interval_ticks (config c)) \<le> unat t - unat (last_checkpoint_tick c)"
  by (simp add: checkpoint_due_def word_le_nat_alt unat_saturating_sub)

lemma zero_memory_pages:
  assumes "\<forall>k < unat (mapped_len m). region m k = 0" and "mem_inv m" and "unat p < quota_pages (quota_bytes m)"
  shows "page_content m p = zero_page"
proof -
  have "unat p * PAGE_SIZE + i < unat (mapped_len m)" if "i < PAGE_SIZE" for i
  proof -
    have "unat p * PAGE_SIZE + i < (unat p + 1) * PAGE_SIZE" using that by simp
    also have "\<dots> \<le> (quota_pages (quota_bytes m) + 1) * PAGE_SIZE" using assms(3) by (intro mult_le_mono1) simp
    finally show ?thesis using assms(2) by (simp add: mem_inv_def)
  qed
  then show ?thesis using assms(1) by (auto simp: page_content_def zero_page_def intro!: nth_equalityI)
qed

lemma new_Cell_eq:
  assumes "new_Cell b os H cfg md = (tr, Inr (Inr c))"
  shows "new_MmapGuardedMemory b os (initial_memory_bytes cfg) (config_quota_bytes cfg) = (tr, Inr (Inr (memory c)))"
    and "c = \<lparr>config = cfg, memory = memory c, recorder = new_EventRecorder md,
              checkpoints = new_CheckpointChain H, cell_fd_table = new_FdTable,
              pending_io = new_PendingCompletions, last_checkpoint_tick = 0\<rparr>"
proof -
  obtain tr' r where r: "new_MmapGuardedMemory b os (initial_memory_bytes cfg) (config_quota_bytes cfg) = (tr', r)"
    by fastforce
  then obtain res where res: "tr' = tr" "r = Inr res" using assms by (auto simp: new_Cell_def)
  then obtain m where m: "res = Inr m" "c = \<lparr>config = cfg, memory = m, recorder = new_EventRecorder md,
      checkpoints = new_CheckpointChain H, cell_fd_table = new_FdTable,
      pending_io = new_PendingCompletions, last_checkpoint_tick = 0\<rparr>"
    using r assms by (cases res) (auto simp: new_Cell_def)
  show "new_MmapGuardedMemory b os (initial_memory_bytes cfg) (config_quota_bytes cfg) = (tr, Inr (Inr (memory c)))"
    using r res m by simp
  show "c = \<lparr>config = cfg, memory = memory c, recorder = new_EventRecorder md,
      checkpoints = new_CheckpointChain H, cell_fd_table = new_FdTable,
      pending_io = new_PendingCompletions, last_checkpoint_tick = 0\<rparr>"
    by (simp add: m(2))
qed

lemma new_Cell_ok:
  assumes "mmap_sound os" and "new_Cell b os H cfg md = (tr, Inr (Inr c))"
  shows "cell_inv b' H c \<and> config c = cfg \<and> last_checkpoint_tick c = 0 \<and> entries (checkpoints c) = [] \<and>
    pages (dirty (memory c)) = {} \<and> queue (pending_io c) = [] \<and> mode (recorder c) = md \<and>
    tr = [Mmap (mapped_len (memory c)), Mprotect (base (memory c) + rounded_len (config_quota_bytes cfg)) (of_nat PAGE_SIZE)]"
proof -
  let ?m = "memory c"
  note m = new_Cell_eq(1) [OF assms(2)] and c = new_Cell_eq(2) [OF assms(2)]
  have f: "config c = cfg" "recorder c = new_EventRecorder md" "checkpoints c = new_CheckpointChain H"
      "pending_io c = new_PendingCompletions" "last_checkpoint_tick c = 0"
    by (subst c, simp)+
  have inv: "mem_inv ?m" "pages (dirty ?m) = {}" "\<forall>k < unat (mapped_len ?m). region ?m k = 0"
      "tr = [Mmap (mapped_len ?m), Mprotect (base ?m + rounded_len (config_quota_bytes cfg)) (of_nat PAGE_SIZE)]"
    using new_MmapGuardedMemory_ok [OF assms(1) m] by blast+
  have "tree_synced H (tree (new_CheckpointChain H)) ?m"
    using zero_memory_pages [OF inv(3,1)] by (simp add: tree_synced_def new_CheckpointChain_def)
  with inv show ?thesis
    by (simp add: f cell_inv_def dirty_readable_def new_PendingCompletions_def)
qed

end
