(* ===== verification/Scheduler.thy ===== *)
theory Scheduler
  imports Cells
begin

section \<open>Deterministic round-robin scheduler (chronos-core/src/scheduler.rs)\<close>

text \<open>
  \<open>Scheduler\<close>: a rotation of cell ids and the logical clock. The locale \<open>dispatcher\<close> is
  what the supervisor relies on; its lemmas give the whole dispatch sequence in closed
  form, whatever the cells contain at each dispatch.
\<close>

record dispatch_outcome =
  outcome_cell :: CellId
  outcome_tick :: u64
  outcome_due :: bool

record scheduler =
  order :: "CellId list"
  clock :: logical_clock

definition new_Scheduler :: "CellId list \<Rightarrow> scheduler" where
  "new_Scheduler ids = \<lparr>order = ids, clock = new_LogicalClock\<rparr>"

definition register_cell :: "scheduler \<Rightarrow> CellId \<Rightarrow> scheduler" where
  "register_cell s i = s\<lparr>order := order s @ [i]\<rparr>"

definition deregister_cell :: "scheduler \<Rightarrow> CellId \<Rightarrow> scheduler" where
  "deregister_cell s i = s\<lparr>order := filter (\<lambda>x. x \<noteq> i) (order s)\<rparr>"

definition current_tick_of :: "scheduler \<Rightarrow> u64" where
  "current_tick_of s = snapshot (clock s)"

definition next_dispatch ::
  "build \<Rightarrow> scheduler \<Rightarrow> (CellId \<rightharpoonup> cell) \<Rightarrow> (dispatch_outcome option \<times> scheduler) run" where
  "next_dispatch b s cells =
     (case order s of
        [] \<Rightarrow> Inr (None, s)
      | i # is \<Rightarrow>
          let s1 = s\<lparr>order := is @ [i]\<rparr> in
          and_then (advance b (clock s1)) (\<lambda>(t, c).
            let due = (case cells i of Some x \<Rightarrow> checkpoint_due x t | None \<Rightarrow> False)
            in Inr (Some \<lparr>outcome_cell = i, outcome_tick = t, outcome_due = due\<rparr>, s1\<lparr>clock := c\<rparr>)))"

subsection \<open>The contract of a dispatcher\<close>

text \<open>A run of dispatches; \<open>env\<close> is the state of the cells at each of them.\<close>

fun dispatch_run :: "('s \<Rightarrow> 'env \<Rightarrow> (dispatch_outcome option \<times> 's) run) \<Rightarrow> 's \<Rightarrow> 'env list
    \<Rightarrow> (dispatch_outcome option list \<times> 's) run" where
  "dispatch_run nxt s [] = Inr ([], s)"
| "dispatch_run nxt s (env # envs) =
     and_then (nxt s env) (\<lambda>(out, s1). and_then (dispatch_run nxt s1 envs) (\<lambda>(outs, s2). Inr (out # outs, s2)))"

locale dispatcher =
  fixes nxt :: "'s \<Rightarrow> 'env \<Rightarrow> (dispatch_outcome option \<times> 's) run"
    and rotation :: "'s \<Rightarrow> CellId list"
    and ticks :: "'s \<Rightarrow> u64"
  assumes idle: "rotation s = [] \<Longrightarrow> nxt s env = Inr (None, s)"
    and dispatch: "rotation s = i # is \<Longrightarrow> unat (ticks s) + 1 < 2 ^ 64 \<Longrightarrow>
      \<exists>out s'. nxt s env = Inr (Some out, s') \<and> outcome_cell out = i \<and> outcome_tick out = ticks s + 1 \<and>
        rotation s' = is @ [i] \<and> ticks s' = ticks s + 1"
begin

lemma dispatch_run_rotation:
  assumes "rotation s \<noteq> []" and "unat (ticks s) + length envs < 2 ^ 64"
  shows "\<exists>outs s'. dispatch_run nxt s envs = Inr (map Some outs, s') \<and>
    map outcome_cell outs = map (\<lambda>i. rotation s ! (i mod length (rotation s))) [0..<length envs] \<and>
    map (\<lambda>x. unat (outcome_tick x)) outs = map (\<lambda>i. unat (ticks s) + i + 1) [0..<length envs] \<and>
    rotation s' = rotate (length envs) (rotation s) \<and> unat (ticks s') = unat (ticks s) + length envs"
  using assms
proof (induction envs arbitrary: s)
  case Nil
  then show ?case by simp
next
  case (Cons env envs)
  obtain i "is" where rot: "rotation s = i # is" using Cons.prems(1) by (cases "rotation s") auto
  obtain out s1 where s1: "nxt s env = Inr (Some out, s1)" "outcome_cell out = i" "outcome_tick out = ticks s + 1"
      "rotation s1 = is @ [i]" "ticks s1 = ticks s + 1"
    using dispatch [OF rot, of env] Cons.prems(2) by auto
  have t1: "unat (ticks s1) = unat (ticks s) + 1"
    using Cons.prems(2) s1(5) by (simp add: unat_Suc_small)
  obtain outs s' where IH: "dispatch_run nxt s1 envs = Inr (map Some outs, s')"
      "map outcome_cell outs = map (\<lambda>k. rotation s1 ! (k mod length (rotation s1))) [0..<length envs]"
      "map (\<lambda>x. unat (outcome_tick x)) outs = map (\<lambda>k. unat (ticks s1) + k + 1) [0..<length envs]"
      "rotation s' = rotate (length envs) (rotation s1)" "unat (ticks s') = unat (ticks s1) + length envs"
    using Cons.IH [of s1] s1(4) t1 Cons.prems(2) by auto
  have r1: "rotation s1 = rotate1 (rotation s)" using s1(4) rot by simp
  have "rotation s1 ! (k mod length (rotation s1)) = rotation s ! (Suc k mod length (rotation s))" for k
    using Cons.prems(1) by (simp add: r1 nth_rotate1 mod_Suc_eq)
  then have cells: "map outcome_cell (out # outs) = map (\<lambda>k. rotation s ! (k mod length (rotation s))) [0..<length (env # envs)]"
    using IH(2) s1(2) rot by (simp add: upt_conv_Cons map_Suc_upt [symmetric] del: upt_Suc)
  have "map (\<lambda>x. unat (outcome_tick x)) (out # outs) = map (\<lambda>k. unat (ticks s) + k + 1) [0..<length (env # envs)]"
    using IH(3) s1(3,5) t1 by (simp add: upt_conv_Cons map_Suc_upt [symmetric] del: upt_Suc)
  with cells show ?case
    using IH s1 t1 by (intro exI [of _ "out # outs"] exI [of _ s']) (simp add: r1 rotate1_rotate_swap)
qed

end

lemma order_simps [simp]:
  "order (new_Scheduler ids) = ids" "current_tick_of (new_Scheduler ids) = 0"
  "order (register_cell s i) = order s @ [i]" "current_tick_of (register_cell s i) = current_tick_of s"
  "order (deregister_cell s i) = filter (\<lambda>x. x \<noteq> i) (order s)"
  "current_tick_of (deregister_cell s i) = current_tick_of s"
  by (simp_all add: new_Scheduler_def register_cell_def deregister_cell_def current_tick_of_def)

lemma next_dispatch_eq:
  assumes "order s = i # is" and "unat (current_tick_of s) + 1 < 2 ^ 64"
  shows "\<exists>s'. next_dispatch b s cells =
      Inr (Some \<lparr>outcome_cell = i, outcome_tick = current_tick_of s + 1,
                 outcome_due = (case cells i of Some x \<Rightarrow> checkpoint_due x (current_tick_of s + 1) | None \<Rightarrow> False)\<rparr>, s') \<and>
    order s' = is @ [i] \<and> current_tick_of s' = current_tick_of s + 1"
proof -
  obtain c where "advance b (clock s) = Inr (current_tick_of s + 1, c)" "snapshot c = current_tick_of s + 1"
    using advance_ok [of "clock s" b] assms(2) by (auto simp: current_tick_of_def)
  then show ?thesis using assms(1) by (simp add: next_dispatch_def Let_def) (simp add: current_tick_of_def)
qed

interpretation round_robin: dispatcher "next_dispatch b" order current_tick_of for b
proof unfold_locales
  fix s :: scheduler and env assume "order s = []"
  then show "next_dispatch b s env = Inr (None, s)" by (simp add: next_dispatch_def)
next
  fix s :: scheduler and i "is" env assume "order s = i # is" "unat (current_tick_of s) + 1 < 2 ^ 64"
  from next_dispatch_eq [OF this, of b env]
  show "\<exists>out s'. next_dispatch b s env = Inr (Some out, s') \<and> outcome_cell out = i \<and>
      outcome_tick out = current_tick_of s + 1 \<and> order s' = is @ [i] \<and> current_tick_of s' = current_tick_of s + 1"
    by auto
qed

subsection \<open>Properties\<close>

text \<open>
  Property C25. Dispatch is strict round robin and a function of the registration order
  alone: from a scheduler with a nonempty rotation, the k-th of any number of dispatches
  picks the cell at position k modulo the number of cells and carries tick k + 1 past
  the current one, whatever the cells hold at each dispatch, until the tick counter
  is exhausted.
\<close>

theorem dispatch_order_deterministic:
  assumes "order s \<noteq> []" and "unat (current_tick_of s) + length envs < 2 ^ 64"
  shows "\<exists>outs s'. dispatch_run (next_dispatch b) s envs = Inr (map Some outs, s') \<and>
    map outcome_cell outs = map (\<lambda>k. order s ! (k mod length (order s))) [0..<length envs] \<and>
    map (\<lambda>x. unat (outcome_tick x)) outs = map (\<lambda>k. unat (current_tick_of s) + k + 1) [0..<length envs] \<and>
    order s' = rotate (length envs) (order s)"
  using round_robin.dispatch_run_rotation [OF assms, of b] by blast

theorem dispatch_order_deterministic_witness:
  "\<exists>outs s'. dispatch_run (next_dispatch Debug) (new_Scheduler [1, 2, 3]) (replicate 5 Map.empty) = Inr (map Some outs, s') \<and>
    map outcome_cell outs = [1, 2, 3, 1, 2] \<and> map (\<lambda>x. unat (outcome_tick x)) outs = [1, 2, 3, 4, 5] \<and>
    order s' = [3, 1, 2]"
proof -
  have "[0..<5::nat] = [0, 1, 2, 3, 4]" by (simp add: upt_rec)
  moreover have "rotate 5 [1, 2, 3 :: u64] = [3, 1, 2]" by (simp add: rotate_drop_take)
  ultimately show ?thesis
    using dispatch_order_deterministic [of "new_Scheduler [1, 2, 3]" "replicate 5 Map.empty" Debug]
    by (simp add: numeral_2_eq_2 [symmetric] del: dispatch_run.simps)
qed

text \<open>
  Fairness: any window of as many consecutive dispatches as there are
  registered cells dispatches every one of them, each exactly once, wherever in the
  run the window starts.
\<close>

theorem dispatch_fair_window:
  assumes "order s \<noteq> []" and "length envs = n + length (order s)"
    and "unat (current_tick_of s) + length envs < 2 ^ 64"
  shows "\<exists>outs s'. dispatch_run (next_dispatch b) s envs = Inr (map Some outs, s') \<and>
    mset (map outcome_cell (drop n outs)) = mset (order s)"
proof -
  obtain outs s' where run: "dispatch_run (next_dispatch b) s envs = Inr (map Some outs, s')"
      "map outcome_cell outs = map (\<lambda>k. order s ! (k mod length (order s))) [0..<length envs]"
    using round_robin.dispatch_run_rotation [OF assms(1,3), of b] by blast
  have "map outcome_cell (drop n outs) = map (\<lambda>k. order s ! (k mod length (order s))) [n..<n + length (order s)]"
    using run(2) assms(2) by (simp add: drop_map [symmetric] drop_upt del: upt_Suc drop_map) (simp add: drop_map)
  also have "\<dots> = rotate n (order s)"
    by (rule nth_equalityI) (auto simp: nth_rotate)
  finally have "mset (map outcome_cell (drop n outs)) = mset (rotate n (order s))" by (rule arg_cong)
  also have "\<dots> = mset (order s)"
    by (simp add: rotate_drop_take) (metis append_take_drop_id mset_append union_commute)
  finally show ?thesis using run(1) by blast
qed

theorem dispatch_fair_window_witness:
  "\<exists>outs s'. dispatch_run (next_dispatch Debug) (new_Scheduler [7, 8]) (replicate 5 Map.empty) = Inr (map Some outs, s') \<and>
    mset (map outcome_cell (drop 3 outs)) = {#7, 8#}"
  using dispatch_fair_window [of "new_Scheduler [7, 8]" "replicate 5 Map.empty" 3 Debug]
  by (simp del: dispatch_run.simps)

text \<open>
  Deregistering a cell removes it from all later dispatches and leaves the
  others in their relative order, without a gap in the ticks: the run continues as the
  round robin over the remaining cells from the same tick.
\<close>

theorem deregister_keeps_rotation:
  assumes "\<exists>j\<in>set (order s). j \<noteq> i" and "unat (current_tick_of s) + length envs < 2 ^ 64"
  shows "\<exists>outs s'. dispatch_run (next_dispatch b) (deregister_cell s i) envs = Inr (map Some outs, s') \<and>
    (let rest = filter (\<lambda>x. x \<noteq> i) (order s)
     in map outcome_cell outs = map (\<lambda>k. rest ! (k mod length rest)) [0..<length envs]) \<and>
    map (\<lambda>x. unat (outcome_tick x)) outs = map (\<lambda>k. unat (current_tick_of s) + k + 1) [0..<length envs] \<and>
    i \<notin> set (map outcome_cell outs)"
proof -
  let ?s = "deregister_cell s i"
  have ne: "order ?s \<noteq> []" using assms(1) by (auto simp: filter_empty_conv)
  obtain outs s' where run: "dispatch_run (next_dispatch b) ?s envs = Inr (map Some outs, s')"
      "map outcome_cell outs = map (\<lambda>k. order ?s ! (k mod length (order ?s))) [0..<length envs]"
      "map (\<lambda>x. unat (outcome_tick x)) outs = map (\<lambda>k. unat (current_tick_of ?s) + k + 1) [0..<length envs]"
    using round_robin.dispatch_run_rotation [OF ne, of envs b] assms(2) by auto
  have "order ?s ! (k mod length (order ?s)) \<in> set (order ?s)" for k using ne by (intro nth_mem) simp
  then have "set (map outcome_cell outs) \<subseteq> set (order ?s)" unfolding run(2) by auto
  then have "i \<notin> set (map outcome_cell outs)" by auto
  with run show ?thesis by (intro exI [of _ outs] exI [of _ s']) (simp add: Let_def)
qed

theorem deregister_keeps_rotation_witness:
  "\<exists>outs s'. dispatch_run (next_dispatch Debug) (deregister_cell (new_Scheduler [1, 2, 3]) 2) (replicate 3 Map.empty) =
     Inr (map Some outs, s') \<and> map outcome_cell outs = [1, 3, 1]"
proof -
  obtain outs s' where "dispatch_run (next_dispatch Debug) (deregister_cell (new_Scheduler [1, 2, 3]) 2) (replicate 3 Map.empty) =
        Inr (map Some outs, s')" "map outcome_cell outs = map (\<lambda>k. [1, 3] ! (k mod 2)) [0..<3]"
    using deregister_keeps_rotation [of "new_Scheduler [1, 2, 3]" 2 "replicate 3 Map.empty" Debug]
    by (auto simp: Let_def numeral_2_eq_2 [symmetric] simp del: dispatch_run.simps)
  moreover have "map (\<lambda>k. [1, 3] ! (k mod 2)) [0..<3] = [1, 3, 1 :: u64]" by (simp add: upt_rec)
  ultimately show ?thesis by metis
qed

end
