(* ===== verification/Replicate.thy ===== *)
theory Replicate
  imports Delta
begin

section \<open>Live state-diff replication (chronos-replicate/src/lib.rs)\<close>

text \<open>
  The ring of tick batches between the primary and the network consumer, its producer
  handles, and the standby's apply loop. \<open>crossbeam::queue::ArrayQueue\<close> is the parameter
  \<open>api\<close>, on a queue of arbitrary type \<open>'q\<close>; \<open>queue_sound\<close> states its documented
  behaviour: a bounded FIFO queue whose operations take effect atomically. The
  threads' interleavings are therefore sequences of pushes and pops.
\<close>

subsection \<open>Data\<close>

record tick_batch =
  batch_tick :: u64
  deltas :: "page_delta list"

datatype ring_error = Full usize

datatype apply_error = OutOfOrder u64 u64

record 'q array_queue_api =
  aq_new :: "usize \<Rightarrow> 'q run"
  aq_push :: "'q \<Rightarrow> tick_batch \<Rightarrow> 'q option"
  aq_pop :: "'q \<Rightarrow> (tick_batch \<times> 'q) option"
  aq_capacity :: "'q \<Rightarrow> usize"

record 'q delta_ring =
  ring_queue :: 'q
  ring_last_pushed_tick :: u64

subsection \<open>DeltaRing\<close>

definition new_DeltaRing :: "'q array_queue_api \<Rightarrow> usize \<Rightarrow> 'q delta_ring run" where
  "new_DeltaRing api cap =
     and_then (aq_new api cap) (\<lambda>q. Inr \<lparr>ring_queue = q, ring_last_pushed_tick = 0\<rparr>)"

definition push_ring ::
  "'q array_queue_api \<Rightarrow> 'q delta_ring \<Rightarrow> tick_batch \<Rightarrow> (ring_error + unit) \<times> 'q delta_ring" where
  "push_ring api r batch =
     (let t = batch_tick batch in
      case aq_push api (ring_queue r) batch of
        None \<Rightarrow> (Inl (Full (aq_capacity api (ring_queue r))), r)
      | Some q \<Rightarrow> (Inr (), r\<lparr>ring_queue := q, ring_last_pushed_tick := t\<rparr>))"

text \<open>The loop of \<open>drain\<close> ends only when the queue is seen empty.\<close>

partial_function (option) drain_loop ::
  "'q array_queue_api \<Rightarrow> 'q \<Rightarrow> tick_batch list \<Rightarrow> (tick_batch list \<times> 'q) option" where
  "drain_loop api q out =
     (case aq_pop api q of
        None \<Rightarrow> Some (out, q)
      | Some (batch, q') \<Rightarrow> drain_loop api q' (out @ [batch]))"

definition drain_ring :: "'q array_queue_api \<Rightarrow> 'q delta_ring \<Rightarrow> (tick_batch list \<times> 'q delta_ring) option" where
  "drain_ring api r =
     map_option (\<lambda>(out, q). (out, r\<lparr>ring_queue := q\<rparr>)) (drain_loop api (ring_queue r) [])"

definition last_pushed_tick :: "'q delta_ring \<Rightarrow> u64" where
  "last_pushed_tick r = ring_last_pushed_tick r"

subsection \<open>DeltaRingProducer\<close>

text \<open>
  A handle shares the queue with the ring (an \<open>Arc\<close>) and holds the address of the ring's
  tick counter as a plain number. The store maps the addresses of the live counters to
  their values; dropping or moving a ring removes its address. Storing through an
  address that is not live is undefined behaviour, shown as \<open>AccessOutsideMapping\<close>;
  the batch has been queued by then.
\<close>

record 'q ring_store =
  shared_queue :: 'q
  live_ticks :: "usize \<rightharpoonup> u64"

record delta_ring_producer =
  producer_last_pushed_tick :: usize

definition producer_handle :: "usize \<Rightarrow> delta_ring_producer" where
  "producer_handle counter_addr = \<lparr>producer_last_pushed_tick = counter_addr\<rparr>"

definition push_producer ::
  "'q array_queue_api \<Rightarrow> delta_ring_producer \<Rightarrow> 'q ring_store \<Rightarrow> tick_batch
     \<Rightarrow> (ring_error + unit) run \<times> 'q ring_store" where
  "push_producer api p st batch =
     (let t = batch_tick batch in
      case aq_push api (shared_queue st) batch of
        None \<Rightarrow> (Inr (Inl (Full (aq_capacity api (shared_queue st)))), st)
      | Some q \<Rightarrow>
          (case live_ticks st (producer_last_pushed_tick p) of
             None \<Rightarrow> (Inl AccessOutsideMapping, st\<lparr>shared_queue := q\<rparr>)
           | Some _ \<Rightarrow>
               (Inr (Inr ()), st\<lparr>shared_queue := q,
                  live_ticks := (live_ticks st)(producer_last_pushed_tick p \<mapsto> t)\<rparr>)))"

text \<open>The ring whose counter lives at \<open>a\<close>, as it stands in the store.\<close>

definition ring_at :: "'q ring_store \<Rightarrow> usize \<Rightarrow> 'q delta_ring option" where
  "ring_at st a = map_option (\<lambda>t. \<lparr>ring_queue = shared_queue st, ring_last_pushed_tick = t\<rparr>) (live_ticks st a)"

subsection \<open>StandbyApplyLoop\<close>

record standby_apply_loop =
  engine :: delta_engine
  standby_last_applied_tick :: u64

definition new_StandbyApplyLoop :: "usize \<Rightarrow> standby_apply_loop run" where
  "new_StandbyApplyLoop n =
     and_then (new_DeltaEngine n) (\<lambda>e. Inr \<lparr>engine = e, standby_last_applied_tick = 0\<rparr>)"

definition apply_batch ::
  "build \<Rightarrow> standby_apply_loop \<Rightarrow> tick_batch \<Rightarrow> ((apply_error + unit) \<times> standby_apply_loop) run" where
  "apply_batch b s batch =
     (if batch_tick batch \<le> standby_last_applied_tick s \<and> standby_last_applied_tick s \<noteq> 0
      then Inr (Inl (OutOfOrder (standby_last_applied_tick s) (batch_tick batch)), s)
      else and_then (fold_run (\<lambda>e d. and_then (apply_delta b e d) (\<lambda>(_, e'). Inr e')) (engine s) (deltas batch))
             (\<lambda>e. Inr (Inr (), s\<lparr>engine := e, standby_last_applied_tick := batch_tick batch\<rparr>)))"

definition last_applied_tick :: "standby_apply_loop \<Rightarrow> u64" where
  "last_applied_tick s = standby_last_applied_tick s"

subsection \<open>What ArrayQueue promises\<close>

text \<open>\<open>held q\<close> is the content of \<open>q\<close>, oldest first; \<open>new\<close> panics on capacity zero.\<close>

definition queue_sound :: "'q array_queue_api \<Rightarrow> ('q \<Rightarrow> tick_batch list) \<Rightarrow> bool" where
  "queue_sound api held \<longleftrightarrow>
     aq_new api 0 = Inl AssertionFailed \<and>
     (\<forall>cap. cap \<noteq> 0 \<longrightarrow> (\<exists>q. aq_new api cap = Inr q \<and> held q = [] \<and> aq_capacity api q = cap)) \<and>
     (\<forall>q x. if length (held q) < unat (aq_capacity api q)
            then \<exists>q'. aq_push api q x = Some q' \<and> held q' = held q @ [x] \<and> aq_capacity api q' = aq_capacity api q
            else aq_push api q x = None) \<and>
     (\<forall>q. case held q of
            [] \<Rightarrow> aq_pop api q = None
          | x # xs \<Rightarrow> \<exists>q'. aq_pop api q = Some (x, q') \<and> held q' = xs \<and> aq_capacity api q' = aq_capacity api q)"

lemma queue_sound_push:
  assumes "queue_sound api held"
  shows "if length (held q) < unat (aq_capacity api q)
         then \<exists>q'. aq_push api q x = Some q' \<and> held q' = held q @ [x] \<and> aq_capacity api q' = aq_capacity api q
         else aq_push api q x = None"
  using assms unfolding queue_sound_def by blast

lemma queue_sound_pop:
  assumes "queue_sound api held"
  shows "held q = [] \<Longrightarrow> aq_pop api q = None"
    and "held q = x # xs \<Longrightarrow>
      \<exists>q'. aq_pop api q = Some (x, q') \<and> held q' = xs \<and> aq_capacity api q' = aq_capacity api q"
proof -
  have "case held q of [] \<Rightarrow> aq_pop api q = None
      | x # xs \<Rightarrow> \<exists>q'. aq_pop api q = Some (x, q') \<and> held q' = xs \<and> aq_capacity api q' = aq_capacity api q"
    using assms unfolding queue_sound_def by blast
  then show "held q = [] \<Longrightarrow> aq_pop api q = None"
    and "held q = x # xs \<Longrightarrow>
      \<exists>q'. aq_pop api q = Some (x, q') \<and> held q' = xs \<and> aq_capacity api q' = aq_capacity api q"
    by simp_all
qed

lemma new_DeltaRing_ok:
  assumes "queue_sound api held" and "cap \<noteq> 0"
  shows "\<exists>r. new_DeltaRing api cap = Inr r \<and> held (ring_queue r) = [] \<and>
           aq_capacity api (ring_queue r) = cap \<and> last_pushed_tick r = 0"
  using assms unfolding queue_sound_def by (auto simp: new_DeltaRing_def last_pushed_tick_def)

lemma push_ring_ok:
  assumes "queue_sound api held"
  shows "if length (held (ring_queue r)) < unat (aq_capacity api (ring_queue r))
     then \<exists>r'. push_ring api r x = (Inr (), r') \<and> held (ring_queue r') = held (ring_queue r) @ [x] \<and>
            aq_capacity api (ring_queue r') = aq_capacity api (ring_queue r) \<and> last_pushed_tick r' = batch_tick x
     else push_ring api r x = (Inl (Full (aq_capacity api (ring_queue r))), r)"
  using queue_sound_push [OF assms, of "ring_queue r" x]
  by (auto simp: push_ring_def Let_def last_pushed_tick_def)

lemma drain_loop_ok:
  assumes "queue_sound api held"
  shows "\<exists>q'. drain_loop api q out = Some (out @ held q, q') \<and> held q' = [] \<and>
           aq_capacity api q' = aq_capacity api q"
proof (induction "held q" arbitrary: q out)
  case Nil
  then have "aq_pop api q = None" by (metis queue_sound_pop(1) [OF assms])
  with Nil show ?case by (simp add: drain_loop.simps [of api q])
next
  case (Cons x xs)
  obtain q1 where q1: "aq_pop api q = Some (x, q1)" "held q1 = xs" "aq_capacity api q1 = aq_capacity api q"
    using queue_sound_pop(2) [OF assms] Cons.hyps(2) by metis
  obtain q' where "drain_loop api q1 (out @ [x]) = Some ((out @ [x]) @ held q1, q')" "held q' = []"
      "aq_capacity api q' = aq_capacity api q1"
    using Cons.hyps(1) [of q1 "out @ [x]"] q1(2) by auto
  with q1 Cons.hyps(2) show ?case by (simp add: drain_loop.simps [of api q] flip: Cons.hyps(2))
qed

subsection \<open>Runs of the two ends\<close>

text \<open>
  The producer pushes; the consumer's drain is a sequence of single pops, any number of
  which may fall between two pushes. A run yields the accepted and the popped batches.
\<close>

datatype ring_op = Produce tick_batch | Consume

fun ring_run :: "'q array_queue_api \<Rightarrow> 'q delta_ring \<Rightarrow> ring_op list
    \<Rightarrow> tick_batch list \<times> tick_batch list \<times> 'q delta_ring" where
  "ring_run api r [] = ([], [], r)"
| "ring_run api r (Produce x # ops) =
     (let (res, r1) = push_ring api r x; (acc, popped, r2) = ring_run api r1 ops
      in (if isl res then acc else x # acc, popped, r2))"
| "ring_run api r (Consume # ops) =
     (case aq_pop api (ring_queue r) of
        None \<Rightarrow> ring_run api r ops
      | Some (x, q) \<Rightarrow>
          (let (acc, popped, r2) = ring_run api (r\<lparr>ring_queue := q\<rparr>) ops in (acc, x # popped, r2)))"

fun standby_run :: "build \<Rightarrow> standby_apply_loop \<Rightarrow> tick_batch list \<Rightarrow> (tick_batch list \<times> standby_apply_loop) run" where
  "standby_run b s [] = Inr ([], s)"
| "standby_run b s (x # xs) =
     and_then (apply_batch b s x) (\<lambda>(res, s1).
       and_then (standby_run b s1 xs) (\<lambda>(acc, s2). Inr (if isl res then acc else x # acc, s2)))"

text \<open>A primary that diffs the pages of each tick through its engine and pushes the batch.\<close>

fun primary_run :: "build \<Rightarrow> 'q array_queue_api \<Rightarrow> delta_engine \<Rightarrow> 'q delta_ring
    \<Rightarrow> (u64 \<times> (u64 \<times> u8 list) list) list \<Rightarrow> ((ring_error + unit) list \<times> delta_engine \<times> 'q delta_ring) run" where
  "primary_run b api e r [] = Inr ([], e, r)"
| "primary_run b api e r ((t, ws) # ticks) =
     and_then (diff_stream b e ws) (\<lambda>(ds, e1).
       let (res, r1) = push_ring api r \<lparr>batch_tick = t, deltas = ds\<rparr> in
       and_then (primary_run b api e1 r1 ticks) (\<lambda>(ress, e2, r2). Inr (res # ress, e2, r2)))"

lemma ring_run_fifo:
  assumes "queue_sound api held" and "ring_run api r ops = (acc, popped, r')"
    and "length (held (ring_queue r)) \<le> unat (aq_capacity api (ring_queue r))"
  shows "held (ring_queue r) @ acc = popped @ held (ring_queue r') \<and>
    aq_capacity api (ring_queue r') = aq_capacity api (ring_queue r) \<and>
    length (held (ring_queue r')) \<le> unat (aq_capacity api (ring_queue r)) \<and>
    last_pushed_tick r' = (if acc = [] then last_pushed_tick r else batch_tick (last acc))"
  using assms(2,3)
proof (induction ops arbitrary: r acc popped)
  case (Cons x ops)
  show ?case
  proof (cases x)
    case (Produce y)
    obtain res r1 where p: "push_ring api r y = (res, r1)" by fastforce
    obtain a po where rest: "ring_run api r1 ops = (a, po, r')"
      using Cons.prems(1) Produce p by (auto simp: Let_def split: prod.splits if_splits)
    show ?thesis
    proof (cases "length (held (ring_queue r)) < unat (aq_capacity api (ring_queue r))")
      case True
      with push_ring_ok [OF assms(1), of r y] p have "res = Inr ()"
          "held (ring_queue r1) = held (ring_queue r) @ [y]"
          "aq_capacity api (ring_queue r1) = aq_capacity api (ring_queue r)" "last_pushed_tick r1 = batch_tick y"
        by auto
      then show ?thesis using Cons.IH [OF rest] Cons.prems(1) Produce p rest True by (auto simp: Let_def)
    next
      case False
      with push_ring_ok [OF assms(1), of r y] p have "isl res" "r1 = r" by auto
      then show ?thesis using Cons.IH [OF rest] Cons.prems Produce p rest by (auto simp: Let_def)
    qed
  next
    case Consume
    show ?thesis
    proof (cases "held (ring_queue r)")
      case Nil
      then show ?thesis
        using Cons.IH [of r acc popped] Cons.prems queue_sound_pop(1) [OF assms(1) Nil] Consume by simp
    next
      case held: (Cons y ys)
      obtain q where q: "aq_pop api (ring_queue r) = Some (y, q)" "held q = ys"
          "aq_capacity api q = aq_capacity api (ring_queue r)"
        using queue_sound_pop(2) [OF assms(1) held] by blast
      obtain po where "ring_run api (r\<lparr>ring_queue := q\<rparr>) ops = (acc, po, r')" "popped = y # po"
        using Cons.prems(1) Consume q by (auto simp: Let_def split: prod.splits)
      with Cons.IH [of "r\<lparr>ring_queue := q\<rparr>" acc po] Cons.prems(2) q held
      show ?thesis by (simp add: last_pushed_tick_def)
    qed
  qed
qed simp

lemma apply_batch_accepts:
  assumes "apply_batch b s x = Inr (res, s')"
  shows "if isl res then s' = s \<and> batch_tick x \<le> last_applied_tick s \<and> last_applied_tick s \<noteq> 0
         else last_applied_tick s' = batch_tick x \<and> (last_applied_tick s = 0 \<or> last_applied_tick s < batch_tick x)"
  using assms by (auto simp: apply_batch_def last_applied_tick_def not_le split: if_splits)

text \<open>The ticks a standby may accept after \<open>l\<close>: from 0 on, zeros are not checked.\<close>

definition accept_order :: "u64 \<Rightarrow> u64 list \<Rightarrow> bool" where
  "accept_order l ts \<longleftrightarrow>
     (if l = 0 then \<exists>k us. ts = replicate k 0 @ us \<and> sorted_wrt (<) (0 # us) else sorted_wrt (<) (l # ts))"

lemma accept_order_Nil: "accept_order l []"
  by (auto simp: accept_order_def intro: exI [of _ 0])

lemma accept_order_Cons:
  assumes "accept_order t ts" and "l = 0 \<or> l < t"
  shows "accept_order l (t # ts)"
proof (cases "t = 0")
  case True
  with assms have "l = 0" by auto
  moreover obtain k us where "ts = replicate k 0 @ us \<and> sorted_wrt (<) (0 # us)"
    using assms(1) True by (auto simp: accept_order_def)
  then have "t # ts = replicate (Suc k) 0 @ us \<and> sorted_wrt (<) (0 # us)" using True by simp
  then have "\<exists>k us. t # ts = replicate k 0 @ us \<and> sorted_wrt (<) (0 # us)" by blast
  ultimately show ?thesis by (simp add: accept_order_def)
next
  case False
  then have sorted: "sorted_wrt (<) (t # ts)" "0 < t" using assms(1) by (auto simp: accept_order_def word_gt_0)
  then have "t # ts = replicate 0 0 @ (t # ts) \<and> sorted_wrt (<) (0 # t # ts)" by (auto intro: less_trans)
  then have "\<exists>k us. t # ts = replicate k 0 @ us \<and> sorted_wrt (<) (0 # us)" by blast
  then show ?thesis using assms(2) sorted by (auto simp: accept_order_def intro: less_trans)
qed

lemma standby_run_order:
  assumes "standby_run b s xs = Inr (acc, s')"
  shows "accept_order (last_applied_tick s) (map batch_tick acc) \<and>
    last_applied_tick s' = last (last_applied_tick s # map batch_tick acc)"
  using assms
proof (induction xs arbitrary: s acc)
  case Nil
  then show ?case by (simp add: accept_order_Nil)
next
  case (Cons x xs)
  obtain res s1 a where x: "apply_batch b s x = Inr (res, s1)" "standby_run b s1 xs = Inr (a, s')"
      "acc = (if isl res then a else x # a)"
    using Cons.prems by auto
  show ?case
    using apply_batch_accepts [OF x(1)] Cons.IH [OF x(2)] x(3) by (auto intro: accept_order_Cons split: if_splits)
qed

lemma fold_apply_stream:
  "apply_stream b e ds = Inr (cs, e') \<Longrightarrow>
   fold_run (\<lambda>e d. and_then (apply_delta b e d) (\<lambda>(_, e'). Inr e')) e ds = Inr e'"
  by (induction ds arbitrary: e cs) auto

lemma primary_standby_sync:
  assumes "queue_sound api held" and "engine_inv e" and "engine_inv (engine s)"
    and "engine_map e \<subseteq>\<^sub>m engine_map (engine s)"
    and "\<forall>(t, ws)\<in>set ticks. \<forall>(p, c)\<in>set ws. trackable p \<and> length c = PAGE_SIZE"
    and "length (held (ring_queue r)) + length ticks \<le> unat (aq_capacity api (ring_queue r))"
    and "sorted_wrt (<) (last_applied_tick s # map fst ticks)"
  shows "\<exists>e' r' batches s'. primary_run b api e r ticks = Inr (map (\<lambda>_. Inr ()) ticks, e', r') \<and>
    held (ring_queue r') = held (ring_queue r) @ batches \<and> map batch_tick batches = map fst ticks \<and>
    standby_run b' s batches = Inr (batches, s') \<and> engine_map e' \<subseteq>\<^sub>m engine_map (engine s') \<and>
    engine_map (engine s') = engine_map (engine s) ++
      map_of (rev (map (\<lambda>(p, c). (unat p, c)) (concat (map snd ticks))))"
  using assms(2-)
proof (induction ticks arbitrary: e s r)
  case Nil
  then show ?case by simp
next
  case (Cons tw ticks)
  obtain t ws where tw: "tw = (t, ws)" by (cases tw)
  obtain ds e1 eng where one: "diff_stream b e ws = Inr (ds, e1)" "apply_stream b' (engine s) ds = Inr (map snd ws, eng)"
      "engine_inv e1" "engine_inv eng" "engine_map e1 \<subseteq>\<^sub>m engine_map eng"
      "engine_map eng = engine_map (engine s) ++ map_of (rev (map (\<lambda>(p, c). (unat p, c)) ws))"
    using stream_sync [of e "engine s" ws b b'] Cons.prems(1-4) tw by auto
  let ?x = "\<lparr>batch_tick = t, deltas = ds\<rparr>"
  have "length (held (ring_queue r)) < unat (aq_capacity api (ring_queue r))" using Cons.prems(5) by simp
  then obtain r1 where r1: "push_ring api r ?x = (Inr (), r1)" "held (ring_queue r1) = held (ring_queue r) @ [?x]"
      "aq_capacity api (ring_queue r1) = aq_capacity api (ring_queue r)"
    using push_ring_ok [OF assms(1), of r ?x] by auto
  define s1 where "s1 = s\<lparr>engine := eng, standby_last_applied_tick := t\<rparr>"
  have "last_applied_tick s < t" using Cons.prems(6) tw by simp
  then have ap: "apply_batch b' s ?x = Inr (Inr (), s1)"
    using fold_apply_stream [OF one(2)] by (simp add: apply_batch_def s1_def last_applied_tick_def not_le)
  have "sorted_wrt (<) (last_applied_tick s1 # map fst ticks)"
    using Cons.prems(6) tw by (simp add: s1_def last_applied_tick_def)
  with Cons.IH [of e1 s1 r1] one(3-5) Cons.prems(4,5) r1(2,3) obtain e' r' batches s' where
      "primary_run b api e1 r1 ticks = Inr (map (\<lambda>_. Inr ()) ticks, e', r')"
      "held (ring_queue r') = held (ring_queue r1) @ batches" "map batch_tick batches = map fst ticks"
      "standby_run b' s1 batches = Inr (batches, s')" "engine_map e' \<subseteq>\<^sub>m engine_map (engine s')"
      "engine_map (engine s') = engine_map (engine s1) ++
        map_of (rev (map (\<lambda>(p, c). (unat p, c)) (concat (map snd ticks))))"
    by (auto simp: s1_def)
  then show ?case
    using one tw r1 ap by (intro exI [of _ e'] exI [of _ r'] exI [of _ "?x # batches"] exI [of _ s'])
      (simp add: s1_def map_of_append)
qed

subsection \<open>Properties\<close>

text \<open>A bounded queue as a capacity and a list.\<close>

definition example_queue :: "(usize \<times> tick_batch list) array_queue_api" where
  "example_queue =
     \<lparr>aq_new = (\<lambda>cap. if cap = 0 then Inl AssertionFailed else Inr (cap, [])),
      aq_push = (\<lambda>(cap, xs) x. if length xs < unat cap then Some (cap, xs @ [x]) else None),
      aq_pop = (\<lambda>(cap, xs). case xs of [] \<Rightarrow> None | y # ys \<Rightarrow> Some (y, (cap, ys))),
      aq_capacity = fst\<rparr>"

lemma example_queue_sound: "queue_sound example_queue snd"
  by (auto simp: queue_sound_def example_queue_def split: list.split)

text \<open>
  The ring is FIFO under every interleaving of the producer's pushes with the
  consumer's pops: the batches popped, followed by those still queued, are those queued
  before and then those accepted, in order; the capacity is never exceeded, and
  \<open>last_pushed_tick\<close> is the tick of the last accepted batch.
\<close>

theorem ring_fifo:
  assumes "queue_sound api held" and "new_DeltaRing api cap = Inr r" and "cap \<noteq> 0"
    and "ring_run api r ops = (acc, popped, r')"
  shows "acc = popped @ held (ring_queue r') \<and> length (held (ring_queue r')) \<le> unat cap \<and>
    last_pushed_tick r' = (if acc = [] then 0 else batch_tick (last acc))"
  using new_DeltaRing_ok [OF assms(1,3)] ring_run_fifo [OF assms(1,4)] assms(2) by auto

theorem ring_fifo_witness:
  "\<exists>r acc popped r'. new_DeltaRing example_queue 1 = Inr r \<and>
     ring_run example_queue r [Produce \<lparr>batch_tick = 1, deltas = []\<rparr>, Produce \<lparr>batch_tick = 2, deltas = []\<rparr>,
       Consume, Produce \<lparr>batch_tick = 3, deltas = []\<rparr>] = (acc, popped, r') \<and>
     map batch_tick acc = [1, 3] \<and> map batch_tick popped = [1] \<and>
     acc = popped @ snd (ring_queue r') \<and> last_pushed_tick r' = 3"
proof -
  let ?b = "\<lambda>t. \<lparr>batch_tick = t, deltas = []\<rparr>"
  have new: "new_DeltaRing example_queue 1 = Inr \<lparr>ring_queue = (1, []), ring_last_pushed_tick = 0\<rparr>"
    by (simp add: new_DeltaRing_def example_queue_def)
  have run: "ring_run example_queue \<lparr>ring_queue = (1, []), ring_last_pushed_tick = 0\<rparr>
      [Produce (?b 1), Produce (?b 2), Consume, Produce (?b 3)] =
      ([?b 1, ?b 3], [?b 1], \<lparr>ring_queue = (1, [?b 3]), ring_last_pushed_tick = 3\<rparr>)"
    by (simp add: push_ring_def example_queue_def Let_def)
  show ?thesis
    using ring_fifo [OF example_queue_sound new _ run] new run by simp
qed

text \<open>
  \<open>drain\<close> ends, returns every queued batch in order and leaves the ring empty
  with its capacity and last pushed tick as they were.
\<close>

theorem drain_returns_all:
  assumes "queue_sound api held"
  shows "\<exists>r'. drain_ring api r = Some (held (ring_queue r), r') \<and> held (ring_queue r') = [] \<and>
     aq_capacity api (ring_queue r') = aq_capacity api (ring_queue r) \<and>
     last_pushed_tick r' = last_pushed_tick r"
  using drain_loop_ok [OF assms, of "ring_queue r" "[]"]
  by (auto simp: drain_ring_def last_pushed_tick_def)

theorem drain_returns_all_witness:
  "\<exists>r'. drain_ring example_queue
      \<lparr>ring_queue = (8, [\<lparr>batch_tick = 1, deltas = []\<rparr>, \<lparr>batch_tick = 2, deltas = []\<rparr>]), ring_last_pushed_tick = 2\<rparr> =
     Some ([\<lparr>batch_tick = 1, deltas = []\<rparr>, \<lparr>batch_tick = 2, deltas = []\<rparr>], r') \<and> snd (ring_queue r') = []"
  using drain_returns_all [OF example_queue_sound, of "\<lparr>ring_queue = (8, [\<lparr>batch_tick = 1, deltas = []\<rparr>,
      \<lparr>batch_tick = 2, deltas = []\<rparr>]), ring_last_pushed_tick = 2\<rparr>"] by auto

text \<open>
  A push is refused exactly when the ring holds as many batches as its
  capacity; it then reports \<open>Full\<close> with that capacity and changes nothing, neither the
  queue nor \<open>last_pushed_tick\<close>.
\<close>

theorem push_backpressure:
  assumes "queue_sound api held" and "length (held (ring_queue r)) \<le> unat (aq_capacity api (ring_queue r))"
  shows "if length (held (ring_queue r)) = unat (aq_capacity api (ring_queue r))
     then push_ring api r x = (Inl (Full (aq_capacity api (ring_queue r))), r)
     else \<exists>r'. push_ring api r x = (Inr (), r') \<and> held (ring_queue r') = held (ring_queue r) @ [x] \<and>
            last_pushed_tick r' = batch_tick x"
  using push_ring_ok [OF assms(1), of r x] assms(2) by (auto split: if_splits)

theorem push_backpressure_witness:
  "let x = \<lparr>batch_tick = 2, deltas = []\<rparr>; r = \<lparr>ring_queue = (1, [x]), ring_last_pushed_tick = 2\<rparr>
   in push_ring example_queue r (x\<lparr>batch_tick := 3\<rparr>) = (Inl (Full 1), r)"
  using push_backpressure [OF example_queue_sound, of "\<lparr>ring_queue = (1, [\<lparr>batch_tick = 2, deltas = []\<rparr>]),
      ring_last_pushed_tick = 2\<rparr>" "\<lparr>batch_tick = 3, deltas = []\<rparr>"]
  by (simp add: example_queue_def)

text \<open>
  Property C35. The standby applies batches in strict tick order: whatever sequence of
  batches arrives, the ticks of those it accepts are strictly increasing, except that
  batches of tick 0 may repeat before the first batch of a positive tick.
\<close>

theorem standby_order:
  assumes "new_StandbyApplyLoop n = Inr s" and "standby_run b s xs = Inr (acc, s')"
  shows "\<exists>k ts. map batch_tick acc = replicate k 0 @ ts \<and> sorted_wrt (<) (0 # ts) \<and>
     last_applied_tick s' = last (0 # map batch_tick acc)"
proof -
  have "last_applied_tick s = 0" using assms(1) by (auto simp: new_StandbyApplyLoop_def last_applied_tick_def)
  with standby_run_order [OF assms(2)] show ?thesis unfolding accept_order_def by auto
qed

theorem standby_order_witness:
  "\<exists>s acc s'. new_StandbyApplyLoop 4 = Inr s \<and>
     standby_run Debug s [\<lparr>batch_tick = 0, deltas = []\<rparr>, \<lparr>batch_tick = 0, deltas = []\<rparr>, \<lparr>batch_tick = 5, deltas = []\<rparr>,
       \<lparr>batch_tick = 3, deltas = []\<rparr>] = Inr (acc, s') \<and> map batch_tick acc = [0, 0, 5] \<and> last_applied_tick s' = 5"
proof -
  obtain s where s: "new_StandbyApplyLoop 4 = Inr s" "standby_last_applied_tick s = 0"
    by (auto simp: new_StandbyApplyLoop_def new_DeltaEngine_def isize_max_def PAGE_SIZE_def)
  let ?b = "\<lambda>t. \<lparr>batch_tick = t, deltas = []\<rparr>"
  have "\<exists>s'. standby_run Debug s [?b 0, ?b 0, ?b 5, ?b 3] = Inr ([?b 0, ?b 0, ?b 5], s')"
    using s(2) by (simp add: apply_batch_def)
  then obtain s' where run: "standby_run Debug s [?b 0, ?b 0, ?b 5, ?b 3] = Inr ([?b 0, ?b 0, ?b 5], s')" by blast
  have "last_applied_tick s' = 5" using standby_order [OF s(1) run] by auto
  with run s(1) show ?thesis
    by (intro exI [of _ s] exI [of _ "[?b 0, ?b 0, ?b 5]"] exI [of _ s']) (simp del: standby_run.simps)
qed

text \<open>
  Property C24. Replication is lossless end to end: diff the pages written at each of a
  strictly increasing sequence of ticks, push the batches into a ring with room for
  them, drain it, and feed the standby: no step panics or is refused, and the standby
  holds, for every page, the last content written.
\<close>

theorem replication_end_to_end:
  assumes "queue_sound api held" and "new_DeltaRing api cap = Inr r" and "length ticks \<le> unat cap" and "cap \<noteq> 0"
    and "new_DeltaEngine n = Inr e" and "new_StandbyApplyLoop m = Inr s"
    and "\<forall>(t, ws)\<in>set ticks. \<forall>(p, c)\<in>set ws. trackable p \<and> length c = PAGE_SIZE"
    and "sorted_wrt (<) (0 # map fst ticks)"
  shows "\<exists>e' r' batches r'' s'. primary_run b api e r ticks = Inr (map (\<lambda>_. Inr ()) ticks, e', r') \<and>
    drain_ring api r' = Some (batches, r'') \<and> standby_run b' s batches = Inr (batches, s') \<and>
    engine_map (engine s') = map_of (rev (map (\<lambda>(p, c). (unat p, c)) (concat (map snd ticks))))"
proof -
  have e: "engine_inv e" "engine_map e = Map.empty" "engine_inv (engine s)" "engine_map (engine s) = Map.empty"
      "last_applied_tick s = 0"
    using assms(5,6)
    by (auto simp: new_StandbyApplyLoop_def new_DeltaEngine_def last_applied_tick_def engine_inv_def engine_map_def
        split: if_splits)
  have r: "held (ring_queue r) = []" "aq_capacity api (ring_queue r) = cap"
    using new_DeltaRing_ok [OF assms(1,4)] assms(2) by auto
  obtain e' r' batches s' where run: "primary_run b api e r ticks = Inr (map (\<lambda>_. Inr ()) ticks, e', r')"
      "held (ring_queue r') = batches" "standby_run b' s batches = Inr (batches, s')"
      "engine_map (engine s') = map_of (rev (map (\<lambda>(p, c). (unat p, c)) (concat (map snd ticks))))"
    using primary_standby_sync [OF assms(1) e(1,3) _ assms(7), of r b b'] e(2,4,5) r assms(3,8) by auto
  obtain q where "drain_loop api (ring_queue r') [] = Some (batches, q)"
    using drain_loop_ok [OF assms(1), of "ring_queue r'" "[]"] run(2) by auto
  then have "drain_ring api r' = Some (batches, r'\<lparr>ring_queue := q\<rparr>)" by (simp add: drain_ring_def)
  with run show ?thesis by blast
qed

theorem replication_end_to_end_witness:
  "\<exists>e r s e' r' batches r'' s'. new_DeltaRing example_queue 4 = Inr r \<and> new_DeltaEngine 0 = Inr e \<and>
    new_StandbyApplyLoop 0 = Inr s \<and>
    primary_run Debug example_queue e r [(1, [(0, zero_page)]), (3, [(0, replicate PAGE_SIZE 7), (9, zero_page)])] =
      Inr ([Inr (), Inr ()], e', r') \<and>
    drain_ring example_queue r' = Some (batches, r'') \<and> standby_run Release s batches = Inr (batches, s') \<and>
    engine_map (engine s') 0 = Some (replicate PAGE_SIZE 7)"
proof -
  let ?ticks = "[(1, [(0, zero_page)]), (3, [(0, replicate PAGE_SIZE 7), (9, zero_page)])] :: (u64 \<times> (u64 \<times> u8 list) list) list"
  obtain r where r: "new_DeltaRing example_queue 4 = Inr r"
    using new_DeltaRing_ok [OF example_queue_sound, of 4] by auto
  obtain e where e: "new_DeltaEngine 0 = Inr e" using new_DeltaEngine_ok [of 0] by auto
  then obtain s where s: "new_StandbyApplyLoop 0 = Inr s" by (simp add: new_StandbyApplyLoop_def)
  have "\<forall>(t, ws)\<in>set ?ticks. \<forall>(p, c)\<in>set ws. trackable p \<and> length c = PAGE_SIZE"
    by (simp add: trackable_def isize_max_def PAGE_SIZE_def zero_page_def)
  from replication_end_to_end [OF example_queue_sound r _ _ e s this, of Debug Release]
  obtain e' r' batches r'' s' where
      "primary_run Debug example_queue e r ?ticks = Inr (map (\<lambda>_. Inr ()) ?ticks, e', r')"
      "drain_ring example_queue r' = Some (batches, r'')" "standby_run Release s batches = Inr (batches, s')"
      "engine_map (engine s') = map_of (rev (map (\<lambda>(p, c). (unat p, c)) (concat (map snd ?ticks))))"
    by auto
  with r e s show ?thesis
    by (intro exI [of _ e] exI [of _ r] exI [of _ s] exI [of _ e'] exI [of _ r'] exI [of _ batches]
        exI [of _ r''] exI [of _ s']) (simp del: primary_run.simps)
qed

text \<open>
  A producer handle is the ring itself while the ring is alive and in place:
  pushing through it gives the result and the state of pushing on the ring. Once the
  ring's counter is gone, an accepted push stores through a dangling address.
\<close>

theorem producer_push_is_ring_push:
  "push_producer api (producer_handle a) st x =
     (case ring_at st a of
        Some r \<Rightarrow>
          (let (res, r') = push_ring api r x
           in (Inr res, st\<lparr>shared_queue := ring_queue r', live_ticks := (live_ticks st)(a \<mapsto> last_pushed_tick r')\<rparr>))
      | None \<Rightarrow>
          (case aq_push api (shared_queue st) x of
             Some q \<Rightarrow> (Inl AccessOutsideMapping, st\<lparr>shared_queue := q\<rparr>)
           | None \<Rightarrow> (Inr (Inl (Full (aq_capacity api (shared_queue st)))), st)))"
proof -
  have "(live_ticks st)(a \<mapsto> t) = live_ticks st" if "live_ticks st a = Some t" for t
    using that by auto
  then show ?thesis
    by (cases "live_ticks st a"; cases "aq_push api (shared_queue st) x")
      (simp_all add: push_producer_def producer_handle_def ring_at_def push_ring_def last_pushed_tick_def Let_def)
qed

end
