(* ===== verification/Supervisor.thy ===== *)
theory Supervisor
  imports Scheduler Replicate
begin

section \<open>The supervisor loop (chronos-core/src/supervisor.rs)\<close>

text \<open>
  \<open>Supervisor\<close>: the cells, the scheduler and the optional replication ring, with one
  dispatch cycle as a single operation. The guest's execution is the parameter \<open>X\<close> (an
  implementation of the trait \<open>QuantumExecutor\<close>, with a state of type \<open>'x\<close>), and
  \<open>executor_contract\<close> states what it owes the cell it is handed. The runs of a
  supervisor are a step relation; its invariant is kept by every step, and no cycle
  panics before the tick counter is exhausted.
\<close>

subsection \<open>Data\<close>

datatype supervisor_error =
    DuplicateCell CellId
  | MemoryInit CellId mem_fault
  | ReplicationBackpressure CellId ring_error

datatype quantum_fault = Trap string | Memory mem_fault

record 'x quantum_executor =
  run_quantum :: "'x \<Rightarrow> cell \<Rightarrow> u64 \<Rightarrow> ((quantum_fault + u64) \<times> 'x \<times> cell) run"
  execution_digest :: "'x \<Rightarrow> cell \<Rightarrow> digest"

record 'q supervisor =
  cells :: "CellId \<rightharpoonup> cell"
  sup_scheduler :: scheduler
  replication :: "'q delta_ring option"
  max_instructions_per_quantum :: u64

subsection \<open>Operations\<close>

definition new_Supervisor :: "u64 \<Rightarrow> 'q supervisor" where
  "new_Supervisor n =
     \<lparr>cells = Map.empty, sup_scheduler = new_Scheduler [], replication = None,
      max_instructions_per_quantum = n\<rparr>"

definition enable_replication :: "'q array_queue_api \<Rightarrow> 'q supervisor \<Rightarrow> usize \<Rightarrow> 'q supervisor run" where
  "enable_replication api s ring_capacity =
     and_then (new_DeltaRing api ring_capacity) (\<lambda>r. Inr (s\<lparr>replication := Some r\<rparr>))"

definition spawn_cell ::
  "build \<Rightarrow> os_calls \<Rightarrow> hash_fn \<Rightarrow> 'q supervisor \<Rightarrow> cell_config \<Rightarrow> recorder_mode
     \<Rightarrow> syscall list \<times> ((supervisor_error + unit) \<times> 'q supervisor) run" where
  "spawn_cell b os H s cfg md =
     (let i = config_id cfg in
      if cells s i \<noteq> None then ([], Inr (Inl (DuplicateCell i), s))
      else case new_Cell b os H cfg md of
        (tr, r) \<Rightarrow> (tr, and_then r (\<lambda>res.
          case res of
            Inl e \<Rightarrow> Inr (Inl (MemoryInit i e), s)
          | Inr c \<Rightarrow> Inr (Inr (), s\<lparr>cells := (cells s)(i \<mapsto> c),
                                    sup_scheduler := register_cell (sup_scheduler s) i\<rparr>))))"

definition cell_of :: "'q supervisor \<Rightarrow> CellId \<Rightarrow> cell option" where
  "cell_of s i = cells s i"

definition clear_cell_dirty_pages :: "cell \<Rightarrow> cell" where
  "clear_cell_dirty_pages c = c\<lparr>memory := dirty_pages_mut (memory c) clear_all\<rparr>"

text \<open>The deltas of the dirty pages: \<open>copy_from_slice\<close> panics on a length other than a page.\<close>

fun raw_deltas :: "(u64 \<Rightarrow> u8 list run) \<Rightarrow> u64 list \<Rightarrow> page_delta list run" where
  "raw_deltas pg [] = Inr []"
| "raw_deltas pg (p # ps) =
     and_then (pg p) (\<lambda>bytes.
       if length bytes \<noteq> PAGE_SIZE then Inl AssertionFailed
       else and_then (raw_deltas pg ps) (\<lambda>ds. Inr (Raw p bytes # ds)))"

text \<open>The part of a cycle that runs when a checkpoint is due and the quantum did not fault.\<close>

definition checkpoint_and_flush ::
  "build \<Rightarrow> 'q array_queue_api \<Rightarrow> (u64 \<times> digest) iter_order \<Rightarrow> hash_fn \<Rightarrow> digest \<Rightarrow> CellId \<Rightarrow> u64
     \<Rightarrow> 'q supervisor \<Rightarrow> cell \<Rightarrow> ((supervisor_error + unit) \<times> 'q supervisor) run" where
  "checkpoint_and_flush b api ord H reg i t s c =
     (let dirty_snapshot = iter_dirty (dirty_pages (memory c)) in
      and_then (checkpoint ord H (checkpoints c) t (page_bytes b (memory c)) (dirty_pages (memory c)) reg) (\<lambda>(entry, chain).
        let c = c\<lparr>checkpoints := chain, last_checkpoint_tick := t\<rparr> in
        case replication s of
          None \<Rightarrow> Inr (Inr (), s\<lparr>cells := (cells s)(i \<mapsto> clear_cell_dirty_pages c)\<rparr>)
        | Some ring \<Rightarrow>
            and_then (raw_deltas (page_bytes b (memory c)) dirty_snapshot) (\<lambda>ds.
              case push_ring api ring \<lparr>batch_tick = t, deltas = ds\<rparr> of
                (Inl e, ring') \<Rightarrow>
                  Inr (Inl (ReplicationBackpressure i e),
                       s\<lparr>cells := (cells s)(i \<mapsto> c), replication := Some ring'\<rparr>)
              | (Inr _, ring') \<Rightarrow>
                  Inr (Inr (), s\<lparr>cells := (cells s)(i \<mapsto> clear_cell_dirty_pages c),
                                 replication := Some ring'\<rparr>))))"

definition run_one_cycle ::
  "build \<Rightarrow> 'q array_queue_api \<Rightarrow> (u64 \<times> digest) iter_order \<Rightarrow> hash_fn \<Rightarrow> 'x quantum_executor
     \<Rightarrow> 'q supervisor \<Rightarrow> 'x \<Rightarrow> ((supervisor_error + (CellId \<times> u64) option) \<times> 'q supervisor \<times> 'x) run" where
  "run_one_cycle b api ord H X s x =
     and_then (next_dispatch b (sup_scheduler s) (cells s)) (\<lambda>(out, sch).
       let s = s\<lparr>sup_scheduler := sch\<rparr> in
       case out of
         None \<Rightarrow> Inr (Inr None, s, x)
       | Some out \<Rightarrow>
           let i = outcome_cell out; t = outcome_tick out in
           (case cells s i of
              None \<Rightarrow> Inl ExpectNone
            | Some c \<Rightarrow>
                let (delivered, pending) = drain_for_dispatch (pending_io c)
                in and_then (run_quantum X x (c\<lparr>pending_io := pending\<rparr>) (max_instructions_per_quantum s)) (\<lambda>(res, x, c).
                     case res of
                       Inl fault \<Rightarrow> Inr (Inr (Some (i, t)), s\<lparr>cells := (cells s)(i \<mapsto> c)\<rparr>, x)
                     | Inr executed \<Rightarrow>
                         if outcome_due out
                         then and_then (checkpoint_and_flush b api ord H (execution_digest X x c) i t s c) (\<lambda>(r, s).
                                case r of
                                  Inl e \<Rightarrow> Inr (Inl e, s, x)
                                | Inr _ \<Rightarrow> Inr (Inr (Some (i, t)), s, x))
                         else Inr (Inr (Some (i, t)), s\<lparr>cells := (cells s)(i \<mapsto> c)\<rparr>, x))))"

subsection \<open>What an executor owes\<close>

text \<open>
  The trait and the memory's documentation: the executor works on the guest memory
  through its interface, so every page it stores to is marked, marks are not taken
  back, marked pages are committed ones, and the mapping and the bookkeeping of
  checkpoints are not its business. On a well-formed memory it returns: a panic of the
  executor would unwind through the cycle.
\<close>

definition executor_contract :: "build \<Rightarrow> 'x quantum_executor \<Rightarrow> bool" where
  "executor_contract b X \<longleftrightarrow>
     (\<forall>x c n. mem_inv (memory c) \<longrightarrow> dirty_readable b (memory c) \<longrightarrow> (\<exists>q. run_quantum X x c n = Inr q)) \<and>
     (\<forall>x c n res x' c'. run_quantum X x c n = Inr (res, x', c') \<longrightarrow> mem_inv (memory c) \<longrightarrow> dirty_readable b (memory c) \<longrightarrow>
        mem_inv (memory c') \<and> dirty_readable b (memory c') \<and>
        base (memory c') = base (memory c) \<and> mapped_len (memory c') = mapped_len (memory c) \<and>
        quota_bytes (memory c') = quota_bytes (memory c) \<and>
        pages (dirty (memory c)) \<subseteq> pages (dirty (memory c')) \<and>
        (\<forall>p. p \<notin> pages (dirty (memory c')) \<longrightarrow> page_content (memory c') p = page_content (memory c) p) \<and>
        checkpoints c' = checkpoints c \<and> last_checkpoint_tick c' = last_checkpoint_tick c \<and> config c' = config c)"

subsection \<open>Invariant and runs\<close>

definition mapping_of :: "cell \<Rightarrow> nat set" where
  "mapping_of c = {unat (base (memory c)) ..< unat (base (memory c)) + unat (mapped_len (memory c))}"

text \<open>Documented behaviour of \<open>mmap\<close> with a null hint: a new mapping overlaps no live one.\<close>

definition mmap_fresh :: "os_calls \<Rightarrow> nat set \<Rightarrow> bool" where
  "mmap_fresh os live \<longleftrightarrow>
     (\<forall>len a c. sys_mmap os len = Inr (a, c) \<longrightarrow> {unat a ..< unat a + unat len} \<inter> live = {})"

definition live_mappings :: "'q supervisor \<Rightarrow> nat set" where
  "live_mappings s = (\<Union>c\<in>ran (cells s). mapping_of c)"

definition ring_inv :: "'q array_queue_api \<Rightarrow> ('q \<Rightarrow> tick_batch list) \<Rightarrow> 'q delta_ring \<Rightarrow> bool" where
  "ring_inv api held r \<longleftrightarrow>
     aq_capacity api (ring_queue r) \<noteq> 0 \<and> length (held (ring_queue r)) \<le> unat (aq_capacity api (ring_queue r))"

definition sup_inv ::
  "build \<Rightarrow> hash_fn \<Rightarrow> 'q array_queue_api \<Rightarrow> ('q \<Rightarrow> tick_batch list) \<Rightarrow> 'q supervisor \<Rightarrow> bool" where
  "sup_inv b H api held s \<longleftrightarrow>
     distinct (order (sup_scheduler s)) \<and> set (order (sup_scheduler s)) = dom (cells s) \<and>
     (\<forall>i c. cells s i = Some c \<longrightarrow>
        cell_inv b H c \<and> last_checkpoint_tick c \<le> current_tick_of (sup_scheduler s)) \<and>
     (\<forall>i j c d. cells s i = Some c \<longrightarrow> cells s j = Some d \<longrightarrow> i \<noteq> j \<longrightarrow> mapping_of c \<inter> mapping_of d = {}) \<and>
     (\<forall>r. replication s = Some r \<longrightarrow> ring_inv api held r)"

text \<open>
  The steps of a deployment: spawning a cell, turning replication on, a dispatch cycle
  (whatever its result), and the consumer popping a batch, one turn of the loop of \<open>drain\<close>.
\<close>

inductive sup_step ::
  "build \<Rightarrow> hash_fn \<Rightarrow> 'q array_queue_api \<Rightarrow> 'x quantum_executor \<Rightarrow> 'q supervisor \<times> 'x \<Rightarrow> 'q supervisor \<times> 'x \<Rightarrow> bool"
  for b H api X where
  spawn: "mmap_sound os \<Longrightarrow> mmap_fresh os (live_mappings s) \<Longrightarrow>
    spawn_cell b os H s cfg md = (tr, Inr (res, s')) \<Longrightarrow> sup_step b H api X (s, x) (s', x)"
| replicate: "enable_replication api s cap = Inr s' \<Longrightarrow> sup_step b H api X (s, x) (s', x)"
| cycle: "run_one_cycle b api ord H X s x = Inr (res, s', x') \<Longrightarrow>
    unat (current_tick_of (sup_scheduler s)) + 1 < 2 ^ 64 \<Longrightarrow> sup_step b H api X (s, x) (s', x')"
| consume: "replication s = Some r \<Longrightarrow> aq_pop api (ring_queue r) = Some (y, q) \<Longrightarrow>
    sup_step b H api X (s, x) (s\<lparr>replication := Some (r\<lparr>ring_queue := q\<rparr>)\<rparr>, x)"

definition sup_reachable ::
  "build \<Rightarrow> hash_fn \<Rightarrow> 'q array_queue_api \<Rightarrow> 'x quantum_executor \<Rightarrow> 'q supervisor \<times> 'x \<Rightarrow> bool" where
  "sup_reachable b H api X sx \<longleftrightarrow> (\<exists>n x0. (sup_step b H api X)\<^sup>*\<^sup>* (new_Supervisor n, x0) sx)"

subsection \<open>One cell through a quantum and a checkpoint\<close>

lemma executor_keeps_cell_inv:
  assumes "executor_contract b X" and "run_quantum X x c n = Inr (res, x', c')" and "cell_inv b H c"
  shows "cell_inv b H c'" and "mapping_of c' = mapping_of c" and "checkpoints c' = checkpoints c"
    and "last_checkpoint_tick c' = last_checkpoint_tick c" and "config c' = config c"
    and "pages (dirty (memory c)) \<subseteq> pages (dirty (memory c'))"
proof -
  have mem: "mem_inv (memory c)" "dirty_readable b (memory c)" using assms(3) by (simp_all add: cell_inv_def)
  have c': "mem_inv (memory c')" "dirty_readable b (memory c')" "base (memory c') = base (memory c)"
      "mapped_len (memory c') = mapped_len (memory c)" "quota_bytes (memory c') = quota_bytes (memory c)"
      "pages (dirty (memory c)) \<subseteq> pages (dirty (memory c'))"
      "\<forall>p. p \<notin> pages (dirty (memory c')) \<longrightarrow> page_content (memory c') p = page_content (memory c) p"
      "checkpoints c' = checkpoints c" "last_checkpoint_tick c' = last_checkpoint_tick c" "config c' = config c"
    using assms(1) assms(2) mem unfolding executor_contract_def by blast+
  have "tree_synced H (tree (checkpoints c)) (memory c)" using assms(3) by (simp add: cell_inv_def)
  then have "tree_synced H (tree (checkpoints c')) (memory c')"
    using c'(5-8) unfolding tree_synced_def by (metis subsetD)
  then show "cell_inv b H c'" using c' assms(3) by (simp add: cell_inv_def)
  show "mapping_of c' = mapping_of c" using c' by (simp add: mapping_of_def)
  show "checkpoints c' = checkpoints c" "last_checkpoint_tick c' = last_checkpoint_tick c" "config c' = config c"
      "pages (dirty (memory c)) \<subseteq> pages (dirty (memory c'))"
    by (fact c')+
qed

lemma executor_returns:
  assumes "executor_contract b X" and "cell_inv b H c"
  obtains res x' c' where "run_quantum X x c n = Inr (res, x', c')"
proof -
  have "mem_inv (memory c)" "dirty_readable b (memory c)" using assms(2) by (simp_all add: cell_inv_def)
  then obtain q where "run_quantum X x c n = Inr q" using assms(1) unfolding executor_contract_def by blast
  then show thesis using that by (cases q) auto
qed

lemma cell_inv_pending [simp]: "cell_inv b H (c\<lparr>pending_io := p\<rparr>) = cell_inv b H c"
  by (simp add: cell_inv_def)

lemma mapping_of_simps [simp]:
  "mapping_of (c\<lparr>pending_io := p\<rparr>) = mapping_of c"
  "mapping_of (c\<lparr>checkpoints := ch, last_checkpoint_tick := t\<rparr>) = mapping_of c"
  "mapping_of (clear_cell_dirty_pages c) = mapping_of c"
  by (simp_all add: mapping_of_def clear_cell_dirty_pages_def dirty_pages_mut_def)

lemma raw_deltas_ok:
  assumes "\<forall>p\<in>set ps. pg p = Inr (cont p) \<and> length (cont p) = PAGE_SIZE"
  shows "raw_deltas pg ps = Inr (map (\<lambda>p. Raw p (cont p)) ps)"
  using assms by (induction ps) simp_all

text \<open>The batch a checkpoint flushes: every dirty page, in full.\<close>

definition dirty_batch :: "u64 \<Rightarrow> mmap_guarded_memory \<Rightarrow> tick_batch" where
  "dirty_batch t m = \<lparr>batch_tick = t, deltas = map (\<lambda>p. Raw p (page_content m p)) (iter_dirty (dirty m))\<rparr>"

lemma clear_cell_dirty_pages_inv:
  assumes "mem_inv (memory c)"
  shows "mem_inv (memory (clear_cell_dirty_pages c))" "pages (dirty (memory (clear_cell_dirty_pages c))) = {}"
  using assms dirty.clear_abs
  by (simp_all add: clear_cell_dirty_pages_def dirty_pages_mut_def mem_inv_def)

lemma checkpoint_and_flush_ok:
  assumes "cell_inv b H c"
  obtains e chain where "entries chain = entries (checkpoints c) @ [e]" "entry_tick e = t" "register_digest e = reg"
    and "smt_root e = memory_root H (memory c)"
    and "cell_inv b H (c\<lparr>checkpoints := chain, last_checkpoint_tick := t\<rparr>)"
    and "cell_inv b H (clear_cell_dirty_pages (c\<lparr>checkpoints := chain, last_checkpoint_tick := t\<rparr>))"
    and "checkpoint_and_flush b api ord H reg i t s c = Inr
      (let c1 = c\<lparr>checkpoints := chain, last_checkpoint_tick := t\<rparr> in
       case replication s of
         None \<Rightarrow> (Inr (), s\<lparr>cells := (cells s)(i \<mapsto> clear_cell_dirty_pages c1)\<rparr>)
       | Some ring \<Rightarrow>
           (case push_ring api ring (dirty_batch t (memory c)) of
              (Inl err, ring') \<Rightarrow>
                (Inl (ReplicationBackpressure i err), s\<lparr>cells := (cells s)(i \<mapsto> c1), replication := Some ring'\<rparr>)
            | (Inr _, ring') \<Rightarrow>
                (Inr (), s\<lparr>cells := (cells s)(i \<mapsto> clear_cell_dirty_pages c1), replication := Some ring'\<rparr>)))"
proof -
  let ?m = "memory c"
  have inv: "mem_inv ?m" "chain_inv H (checkpoints c)" "tree_synced H (tree (checkpoints c)) ?m"
      and readable: "\<forall>p\<in>pages (dirty ?m). unat p < quota_pages (quota_bytes ?m) \<and>
        (b = Debug \<longrightarrow> (unat p + 1) * PAGE_SIZE \<le> unat (size_bytes ?m))"
    using assms by (simp_all add: cell_inv_def dirty_readable_def)
  obtain e chain where cp: "checkpoint ord H (checkpoints c) t (page_bytes b ?m) (dirty ?m) reg = Inr (e, chain)"
      "chain_inv H chain" "entries chain = entries (checkpoints c) @ [e]" "entry_tick e = t" "register_digest e = reg"
      "smt_root e = memory_root H ?m" "tree_synced H (tree chain) (?m\<lparr>dirty := clear_all (dirty ?m)\<rparr>)"
    using tree_synced_checkpoint [OF inv(2,1,3) readable, of ord t reg] by blast
  have pg: "page_content (?m\<lparr>dirty := d\<rparr>) = page_content ?m" for d
    by (simp add: page_content_def fun_eq_iff)
  have "pages (clear_all (dirty ?m)) = {}" using clear_all_inv inv(1) by (simp add: mem_inv_def)
  then have "tree_synced H (tree chain) ?m" using cp(7) by (simp add: tree_synced_def pg cong: if_cong)
  then have c1: "cell_inv b H (c\<lparr>checkpoints := chain, last_checkpoint_tick := t\<rparr>)"
    using assms cp(2) by (simp add: cell_inv_def)
  have c2: "cell_inv b H (clear_cell_dirty_pages (c\<lparr>checkpoints := chain, last_checkpoint_tick := t\<rparr>))"
    using clear_cell_dirty_pages_inv [of "c\<lparr>checkpoints := chain, last_checkpoint_tick := t\<rparr>"] inv(1) cp(2,7)
    by (simp add: cell_inv_def dirty_readable_def) (simp add: clear_cell_dirty_pages_def dirty_pages_mut_def)
  have "\<forall>p\<in>set (iter_dirty (dirty ?m)). page_bytes b ?m p = Inr (page_content ?m p) \<and> length (page_content ?m p) = PAGE_SIZE"
    using readable inv(1) page_bytes_eq [OF inv(1)] by (auto simp: set_iter_dirty mem_inv_def)
  note raw = raw_deltas_ok [OF this]
  show thesis
    by (rule that [OF cp(3-6) c1 c2])
      (simp add: checkpoint_and_flush_def dirty_pages_def cp(1) raw dirty_batch_def Let_def split: option.split prod.split sum.split)
qed

subsection \<open>One cycle\<close>

definition quantum_cell :: "cell \<Rightarrow> cell" where
  "quantum_cell c = c\<lparr>pending_io := snd (drain_for_dispatch (pending_io c))\<rparr>"

lemma quantum_cell_simps [simp]:
  "cell_inv b H (quantum_cell c) = cell_inv b H c" "mapping_of (quantum_cell c) = mapping_of c"
  "last_checkpoint_tick (quantum_cell c) = last_checkpoint_tick c" "checkpoints (quantum_cell c) = checkpoints c"
  "memory (quantum_cell c) = memory c" "config (quantum_cell c) = config c" "queue (pending_io (quantum_cell c)) = []"
  by (simp_all add: quantum_cell_def drain_for_dispatch_def)

lemma run_one_cycle_idle:
  assumes "order (sup_scheduler s) = []"
  shows "run_one_cycle b api ord H X s x = Inr (Inr None, s, x)"
  using assms by (simp add: run_one_cycle_def next_dispatch_def)

lemma run_one_cycle_eq:
  assumes "order (sup_scheduler s) = i # is" and "unat (current_tick_of (sup_scheduler s)) + 1 < 2 ^ 64"
    and "cells s i = Some c"
    and "run_quantum X x (quantum_cell c) (max_instructions_per_quantum s) = Inr (res, x', c')"
    and "t = current_tick_of (sup_scheduler s) + 1"
  obtains sch where "order sch = is @ [i]" and "current_tick_of sch = t"
    and "run_one_cycle b api ord H X s x =
      (let s1 = s\<lparr>sup_scheduler := sch\<rparr> in
       if isl res \<or> \<not> checkpoint_due c t
       then Inr (Inr (Some (i, t)), s1\<lparr>cells := (cells s)(i \<mapsto> c')\<rparr>, x')
       else and_then (checkpoint_and_flush b api ord H (execution_digest X x' c') i t s1 c') (\<lambda>(r, s2).
              case r of Inl e \<Rightarrow> Inr (Inl e, s2, x') | Inr _ \<Rightarrow> Inr (Inr (Some (i, t)), s2, x')))"
proof -
  obtain sch where sch: "next_dispatch b (sup_scheduler s) (cells s) =
        Inr (Some \<lparr>outcome_cell = i, outcome_tick = t, outcome_due = checkpoint_due c t\<rparr>, sch)"
      "order sch = is @ [i]" "current_tick_of sch = t"
    using next_dispatch_eq [OF assms(1,2), of b "cells s"] assms(3,5) by auto
  obtain delivered p where d: "drain_for_dispatch (pending_io c) = (delivered, p)" by fastforce
  have q: "run_quantum X x (c\<lparr>pending_io := p\<rparr>) (max_instructions_per_quantum s) = Inr (res, x', c')"
    using assms(4) d by (simp add: quantum_cell_def)
  show thesis
    by (rule that [OF sch(2,3)])
      (cases res; simp add: run_one_cycle_def sch(1) assms(3) d q Let_def)
qed

subsection \<open>Every step keeps the invariant\<close>

lemma new_Supervisor_inv: "sup_inv b H api held (new_Supervisor n)"
  by (simp add: sup_inv_def new_Supervisor_def)

lemma sup_inv_update:
  assumes "sup_inv b H api held s" and "cells s i = Some c" and "cell_inv b H c'" and "mapping_of c' = mapping_of c"
    and "last_checkpoint_tick c' \<le> current_tick_of sch" and "current_tick_of (sup_scheduler s) \<le> current_tick_of sch"
    and "distinct (order sch)" and "set (order sch) = dom (cells s)"
    and "\<forall>r. rep = Some r \<longrightarrow> ring_inv api held r"
  shows "sup_inv b H api held (s\<lparr>sup_scheduler := sch, cells := (cells s)(i \<mapsto> c'), replication := rep\<rparr>)"
proof -
  have old: "cell_inv b H d \<and> last_checkpoint_tick d \<le> current_tick_of (sup_scheduler s)" if "cells s j = Some d" for j d
    using assms(1) that unfolding sup_inv_def by blast
  have disj: "mapping_of d \<inter> mapping_of d' = {}" if "cells s j = Some d" "cells s k = Some d'" "j \<noteq> k" for j k d d'
    using assms(1) that unfolding sup_inv_def by blast
  have "cell_inv b H d \<and> last_checkpoint_tick d \<le> current_tick_of sch" if "((cells s)(i \<mapsto> c')) j = Some d" for j d
    using old [of j d] that assms(3,5,6) by (auto split: if_splits)
  moreover have "mapping_of d \<inter> mapping_of d' = {}"
    if "((cells s)(i \<mapsto> c')) j = Some d" "((cells s)(i \<mapsto> c')) k = Some d'" "j \<noteq> k" for j k d d'
    using that disj [of j _ k] assms(2,4) by (auto split: if_splits)
  moreover have "dom ((cells s)(i \<mapsto> c')) = dom (cells s)" using assms(2) by auto
  ultimately show ?thesis
    using assms(7-9) by (simp add: sup_inv_def del: fun_upd_apply)
qed

lemma push_ring_inv:
  assumes "queue_sound api held" and "ring_inv api held r" and "push_ring api r x = (res, r')"
  shows "ring_inv api held r'"
  using push_ring_ok [OF assms(1), of r x] assms(2,3) by (auto simp: ring_inv_def split: if_splits)

text \<open>
  The effect of one cycle on the cell \<open>c\<close> it dispatches at tick \<open>t\<close>: \<open>c'\<close> is the cell the
  executor leaves, \<open>d\<close> the cell stored, \<open>rep\<close> and \<open>rep'\<close> the ring before and after.
\<close>

definition flushed :: "cell \<Rightarrow> cell \<Rightarrow> bool" where
  "flushed c' d \<longleftrightarrow> pages (dirty (memory d)) = {} \<and> memory d = (memory c')\<lparr>dirty := dirty (memory d)\<rparr>"

lemma flushed_memory:
  assumes "flushed c d"
  shows "quota_bytes (memory d) = quota_bytes (memory c)" and "size_bytes (memory d) = size_bytes (memory c)"
    and "page_content (memory d) = page_content (memory c)" and "memory_root H (memory d) = memory_root H (memory c)"
proof -
  from assms obtain dd where "memory d = (memory c)\<lparr>dirty := dd\<rparr>" unfolding flushed_def by blast
  then show "quota_bytes (memory d) = quota_bytes (memory c)" "size_bytes (memory d) = size_bytes (memory c)"
      "page_content (memory d) = page_content (memory c)"
    by (simp_all add: page_content_def fun_eq_iff)
  then show "memory_root H (memory d) = memory_root H (memory c)" by (intro memory_root_cong) simp_all
qed

definition checkpoint_effect ::
  "hash_fn \<Rightarrow> 'q array_queue_api \<Rightarrow> ('q \<Rightarrow> tick_batch list) \<Rightarrow> digest \<Rightarrow> CellId \<Rightarrow> u64 \<Rightarrow> cell \<Rightarrow> cell
     \<Rightarrow> 'q delta_ring option \<Rightarrow> 'q delta_ring option \<Rightarrow> supervisor_error + (CellId \<times> u64) option \<Rightarrow> bool" where
  "checkpoint_effect H api held reg i t c' d rep rep' r \<longleftrightarrow>
     last_checkpoint_tick d = t \<and>
     (\<exists>e. entries (checkpoints d) = entries (checkpoints c') @ [e] \<and> entry_tick e = t \<and> register_digest e = reg \<and>
          smt_root e = memory_root H (memory c')) \<and>
     (case rep of
        None \<Rightarrow> r = Inr (Some (i, t)) \<and> rep' = None \<and> flushed c' d
      | Some ring \<Rightarrow>
          (case rep' of
             None \<Rightarrow> False
           | Some ring' \<Rightarrow>
               if length (held (ring_queue ring)) < unat (aq_capacity api (ring_queue ring))
               then r = Inr (Some (i, t)) \<and> flushed c' d \<and>
                    held (ring_queue ring') = held (ring_queue ring) @ [dirty_batch t (memory c')] \<and>
                    aq_capacity api (ring_queue ring') = aq_capacity api (ring_queue ring)
               else r = Inl (ReplicationBackpressure i (Full (aq_capacity api (ring_queue ring)))) \<and>
                    ring' = ring \<and> memory d = memory c'))"

lemma cycle_checkpoint:
  assumes inv: "cell_inv b H c'" and sound: "queue_sound api held"
    and ring: "\<forall>r. replication s = Some r \<longrightarrow> ring_inv api held r"
  shows "\<exists>r d rep'. and_then (checkpoint_and_flush b api ord H reg i t s c') (\<lambda>(r, s2).
        case r of Inl e \<Rightarrow> Inr (Inl e, s2, x') | Inr _ \<Rightarrow> Inr (Inr (Some (i, t)), s2, x')) =
      Inr (r, s\<lparr>cells := (cells s)(i \<mapsto> d), replication := rep'\<rparr>, x') \<and>
    cell_inv b H d \<and> mapping_of d = mapping_of c' \<and> config d = config c' \<and>
    (\<forall>r. rep' = Some r \<longrightarrow> ring_inv api held r) \<and>
    checkpoint_effect H api held reg i t c' d (replication s) rep' r"
proof -
  obtain e chain where cp: "entries chain = entries (checkpoints c') @ [e]" "entry_tick e = t" "register_digest e = reg"
      "smt_root e = memory_root H (memory c')"
      "cell_inv b H (c'\<lparr>checkpoints := chain, last_checkpoint_tick := t\<rparr>)"
      "cell_inv b H (clear_cell_dirty_pages (c'\<lparr>checkpoints := chain, last_checkpoint_tick := t\<rparr>))"
    and eq: "checkpoint_and_flush b api ord H reg i t s c' = Inr
      (let c1 = c'\<lparr>checkpoints := chain, last_checkpoint_tick := t\<rparr> in
       case replication s of
         None \<Rightarrow> (Inr (), s\<lparr>cells := (cells s)(i \<mapsto> clear_cell_dirty_pages c1)\<rparr>)
       | Some ring \<Rightarrow>
           (case push_ring api ring (dirty_batch t (memory c')) of
              (Inl err, ring') \<Rightarrow>
                (Inl (ReplicationBackpressure i err), s\<lparr>cells := (cells s)(i \<mapsto> c1), replication := Some ring'\<rparr>)
            | (Inr _, ring') \<Rightarrow>
                (Inr (), s\<lparr>cells := (cells s)(i \<mapsto> clear_cell_dirty_pages c1), replication := Some ring'\<rparr>)))"
    using checkpoint_and_flush_ok [OF inv] by blast
  let ?c1 = "c'\<lparr>checkpoints := chain, last_checkpoint_tick := t\<rparr>"
  let ?c2 = "clear_cell_dirty_pages ?c1"
  have c2: "checkpoints ?c2 = chain" "last_checkpoint_tick ?c2 = t" "config ?c2 = config c'" "flushed c' ?c2"
    using clear_cell_dirty_pages_inv(2) [of ?c1] inv
    by (simp_all add: flushed_def clear_cell_dirty_pages_def dirty_pages_mut_def cell_inv_def)
  show ?thesis
  proof (cases "replication s")
    case None
    then have "s\<lparr>cells := f\<rparr> = s\<lparr>cells := f, replication := None\<rparr>" for f by simp
    then show ?thesis using cp c2 eq None
      by (intro exI [of _ "Inr (Some (i, t))"] exI [of _ ?c2] exI [of _ None]) (simp add: checkpoint_effect_def)
  next
    case (Some rg)
    obtain res rg' where p: "push_ring api rg (dirty_batch t (memory c')) = (res, rg')" by fastforce
    have ring': "ring_inv api held rg'" using push_ring_inv [OF sound _ p] ring Some by simp
    note ok = push_ring_ok [OF sound, of rg "dirty_batch t (memory c')"]
    show ?thesis
    proof (cases "length (held (ring_queue rg)) < unat (aq_capacity api (ring_queue rg))")
      case True
      with ok p have "res = Inr ()" "held (ring_queue rg') = held (ring_queue rg) @ [dirty_batch t (memory c')]"
        "aq_capacity api (ring_queue rg') = aq_capacity api (ring_queue rg)" by auto
      then show ?thesis using cp c2 eq Some p ring' True
        by (intro exI [of _ "Inr (Some (i, t))"] exI [of _ ?c2] exI [of _ "Some rg'"]) (simp add: checkpoint_effect_def)
    next
      case False
      with ok p have "res = Inl (Full (aq_capacity api (ring_queue rg)))" "rg' = rg" by auto
      then show ?thesis using cp eq Some p ring' False
        by (intro exI [of _ "Inl (ReplicationBackpressure i (Full (aq_capacity api (ring_queue rg))))"]
            exI [of _ ?c1] exI [of _ "Some rg'"]) (simp add: checkpoint_effect_def)
    qed
  qed
qed

lemma cycle_effect:
  assumes inv: "sup_inv b H api held s" and contract: "executor_contract b X" and sound: "queue_sound api held"
    and ord: "order (sup_scheduler s) = i # is" and room: "unat (current_tick_of (sup_scheduler s)) + 1 < 2 ^ 64"
    and c: "cells s i = Some c"
    and q: "run_quantum X x (quantum_cell c) (max_instructions_per_quantum s) = Inr (res, x', c')"
    and t: "t = current_tick_of (sup_scheduler s) + 1"
  shows "\<exists>r s' d. run_one_cycle b api od H X s x = Inr (r, s', x') \<and> sup_inv b H api held s' \<and>
    order (sup_scheduler s') = is @ [i] \<and> current_tick_of (sup_scheduler s') = t \<and>
    cells s' = (cells s)(i \<mapsto> d) \<and> config d = config c \<and>
    (if isl res \<or> \<not> checkpoint_due c t
     then r = Inr (Some (i, t)) \<and> d = c' \<and> replication s' = replication s
     else checkpoint_effect H api held (execution_digest X x' c') i t c' d (replication s) (replication s') r)"
proof -
  have cinv: "cell_inv b H c" "last_checkpoint_tick c \<le> current_tick_of (sup_scheduler s)"
    using inv c unfolding sup_inv_def by blast+
  have ring: "\<forall>r. replication s = Some r \<longrightarrow> ring_inv api held r" using inv unfolding sup_inv_def by blast
  have "unat t = unat (current_tick_of (sup_scheduler s)) + 1" using room by (simp add: t unat_Suc_small)
  then have le: "current_tick_of (sup_scheduler s) \<le> t" by (simp add: word_le_nat_alt)
  have c': "cell_inv b H c'" "mapping_of c' = mapping_of c" "checkpoints c' = checkpoints c"
      "last_checkpoint_tick c' = last_checkpoint_tick c" "config c' = config c"
    using executor_keeps_cell_inv [OF contract q] cinv(1) by simp_all
  obtain sch where sch: "order sch = is @ [i]" "current_tick_of sch = t"
    and eq: "run_one_cycle b api od H X s x =
      (let s1 = s\<lparr>sup_scheduler := sch\<rparr> in
       if isl res \<or> \<not> checkpoint_due c t
       then Inr (Inr (Some (i, t)), s1\<lparr>cells := (cells s)(i \<mapsto> c')\<rparr>, x')
       else and_then (checkpoint_and_flush b api od H (execution_digest X x' c') i t s1 c') (\<lambda>(r, s2).
              case r of Inl e \<Rightarrow> Inr (Inl e, s2, x') | Inr _ \<Rightarrow> Inr (Inr (Some (i, t)), s2, x')))"
    by (rule run_one_cycle_eq [OF ord room c q t])
  have perm: "distinct (order sch)" "set (order sch) = dom (cells s)"
    using inv ord sch(1) by (auto simp: sup_inv_def)
  note upd = sup_inv_update [OF inv c _ _ _ _ perm]
  show ?thesis
  proof (cases "isl res \<or> \<not> checkpoint_due c t")
    case True
    let ?s' = "s\<lparr>sup_scheduler := sch, cells := (cells s)(i \<mapsto> c'), replication := replication s\<rparr>"
    have "sup_inv b H api held ?s'"
      by (rule upd) (use c' cinv le sch ring in auto)
    then show ?thesis using True eq c' sch by (intro exI [of _ "Inr (Some (i, t))"] exI [of _ ?s'] exI [of _ c']) auto
  next
    case False
    let ?s1 = "s\<lparr>sup_scheduler := sch\<rparr>"
    obtain r d rep' where cf: "and_then (checkpoint_and_flush b api od H (execution_digest X x' c') i t ?s1 c') (\<lambda>(r, s2).
        case r of Inl e \<Rightarrow> Inr (Inl e, s2, x') | Inr _ \<Rightarrow> Inr (Inr (Some (i, t)), s2, x')) =
        Inr (r, ?s1\<lparr>cells := (cells ?s1)(i \<mapsto> d), replication := rep'\<rparr>, x')"
        "cell_inv b H d" "mapping_of d = mapping_of c'" "config d = config c'"
        "\<forall>r. rep' = Some r \<longrightarrow> ring_inv api held r"
        "checkpoint_effect H api held (execution_digest X x' c') i t c' d (replication ?s1) rep' r"
      using cycle_checkpoint [OF c'(1) sound, of ?s1 od "execution_digest X x' c'" i t x'] ring by auto
    let ?s' = "s\<lparr>sup_scheduler := sch, cells := (cells s)(i \<mapsto> d), replication := rep'\<rparr>"
    have "last_checkpoint_tick d = t" using cf(6) by (simp add: checkpoint_effect_def)
    then have "sup_inv b H api held ?s'"
      by (intro upd) (use cf c' le sch in auto)
    then show ?thesis using False eq cf c' sch by (intro exI [of _ r] exI [of _ ?s'] exI [of _ d]) (simp add: Let_def)
  qed
qed

lemma spawn_cell_inv:
  assumes "sup_inv b H api held s" and "mmap_sound os" and "mmap_fresh os (live_mappings s)"
    and "spawn_cell b os H s cfg md = (tr, Inr (res, s'))"
  shows "sup_inv b H api held s'"
proof (cases "s' = s")
  case False
  obtain tr' r where r: "new_Cell b os H cfg md = (tr', r)" by fastforce
  obtain c where c: "new_Cell b os H cfg md = (tr, Inr (Inr c))" "cells s (config_id cfg) = None"
      "s' = s\<lparr>cells := (cells s)(config_id cfg \<mapsto> c), sup_scheduler := register_cell (sup_scheduler s) (config_id cfg)\<rparr>"
    using assms(4) False r by (cases r) (auto simp: spawn_cell_def Let_def split: if_splits sum.splits)
  let ?i = "config_id cfg"
  have ok: "cell_inv b H c" "last_checkpoint_tick c = 0" using new_Cell_ok [OF assms(2) c(1)] by blast+
  have "sys_mmap os (mapped_len (memory c)) = Inr (base (memory c), region (memory c))"
    using new_MmapGuardedMemory_ok [OF assms(2) new_Cell_eq(1) [OF c(1)]] by blast
  then have "mapping_of c \<inter> live_mappings s = {}"
    using assms(3) unfolding mmap_fresh_def mapping_of_def by blast
  then have fresh: "mapping_of c \<inter> mapping_of d = {}" if "cells s j = Some d" for j d
    using that unfolding live_mappings_def by (auto simp: ran_def)
  have notin: "?i \<notin> set (order (sup_scheduler s))" using assms(1) c(2) by (auto simp: sup_inv_def)
  show ?thesis
    using assms(1) c(2,3) ok fresh notin unfolding sup_inv_def
    by (auto simp: Int_commute split: if_splits)
qed (use assms in simp)

lemma sup_inv_replication:
  "sup_inv b H api held s \<Longrightarrow> ring_inv api held r \<Longrightarrow> sup_inv b H api held (s\<lparr>replication := Some r\<rparr>)"
  by (simp add: sup_inv_def)

lemma dispatched_cell:
  assumes "sup_inv b H api held s" and "order (sup_scheduler s) = i # is"
  obtains c where "cells s i = Some c"
proof -
  have "i \<in> dom (cells s)" using assms by (metis list.set_intros(1) sup_inv_def)
  then show thesis using that by blast
qed

lemma dispatched_quantum:
  assumes "sup_inv b H api held s" and "executor_contract b X" and "cells s i = Some c"
  obtains res x' c' where "run_quantum X x (quantum_cell c) n = Inr (res, x', c')"
proof -
  have "cell_inv b H (quantum_cell c)" using assms(1,3) unfolding sup_inv_def quantum_cell_simps by blast
  then show thesis using executor_returns [OF assms(2)] that by blast
qed

lemma run_one_cycle_inv:
  assumes "sup_inv b H api held s" and "executor_contract b X" and "queue_sound api held"
    and "unat (current_tick_of (sup_scheduler s)) + 1 < 2 ^ 64"
  shows "\<exists>r s' x'. run_one_cycle b api od H X s x = Inr (r, s', x') \<and> sup_inv b H api held s'"
proof (cases "order (sup_scheduler s)")
  case Nil
  then show ?thesis using assms(1) run_one_cycle_idle [OF Nil, of b api od H X x] by simp
next
  case (Cons i "is")
  obtain c where c: "cells s i = Some c" by (rule dispatched_cell [OF assms(1) Cons])
  obtain res x' c' where "run_quantum X x (quantum_cell c) (max_instructions_per_quantum s) = Inr (res, x', c')"
    by (rule dispatched_quantum [OF assms(1,2) c])
  from cycle_effect [OF assms(1-3) Cons assms(4) c this refl, of od] show ?thesis by blast
qed

lemma ring_inv_pop:
  assumes "queue_sound api held" and "aq_pop api (ring_queue r) = Some (y, q)"
  shows "ring_inv api held r \<Longrightarrow> ring_inv api held (r\<lparr>ring_queue := q\<rparr>)" and "held (ring_queue r) = y # held q"
proof -
  obtain x xs where "held (ring_queue r) = x # xs"
    using queue_sound_pop(1) [OF assms(1), of "ring_queue r"] assms(2) by (cases "held (ring_queue r)") auto
  with queue_sound_pop(2) [OF assms(1) this] assms(2)
  have "held (ring_queue r) = y # held q" "aq_capacity api q = aq_capacity api (ring_queue r)" by auto
  then show "held (ring_queue r) = y # held q" "ring_inv api held r \<Longrightarrow> ring_inv api held (r\<lparr>ring_queue := q\<rparr>)"
    by (simp_all add: ring_inv_def)
qed

lemma sup_step_inv:
  assumes "executor_contract b X" and "queue_sound api held" and "sup_step b H api X sx sy"
    and "sup_inv b H api held (fst sx)"
  shows "sup_inv b H api held (fst sy)"
  using assms(3,4)
proof cases
  case (spawn os s cfg md tr res s' x)
  then show ?thesis using spawn_cell_inv assms(4) by auto
next
  case (replicate s cap s' x)
  have "cap \<noteq> 0" using replicate(3) assms(2) by (auto simp: enable_replication_def new_DeltaRing_def queue_sound_def)
  with new_DeltaRing_ok [OF assms(2)] obtain r where "new_DeltaRing api cap = Inr r" "held (ring_queue r) = []"
      "aq_capacity api (ring_queue r) = cap" by blast
  with replicate \<open>cap \<noteq> 0\<close> have "ring_inv api held r" "fst sy = fst sx\<lparr>replication := Some r\<rparr>"
    by (auto simp: enable_replication_def ring_inv_def)
  then show ?thesis using sup_inv_replication assms(4) by simp
next
  case (cycle od s x res s' x')
  then show ?thesis using run_one_cycle_inv [of b H api held s X od x] assms by auto
next
  case (consume s r y q x)
  then have "ring_inv api held r" using assms(4) by (simp add: sup_inv_def)
  with consume assms(4) show ?thesis using sup_inv_replication ring_inv_pop(1) [OF assms(2) consume(4)] by simp
qed

lemma sup_reachable_inv:
  assumes "executor_contract b X" and "queue_sound api held" and "sup_reachable b H api X sx"
  shows "sup_inv b H api held (fst sx)"
proof -
  obtain n x0 where "(sup_step b H api X)\<^sup>*\<^sup>* (new_Supervisor n, x0) sx"
    using assms(3) by (auto simp: sup_reachable_def)
  then show ?thesis
    by (induction rule: rtranclp_induct) (auto simp: new_Supervisor_inv intro: sup_step_inv [OF assms(1,2)])
qed

lemma sup_reachable_step:
  "sup_reachable b H api X sx \<Longrightarrow> sup_step b H api X sx sy \<Longrightarrow> sup_reachable b H api X sy"
  by (meson rtranclp.rtrancl_into_rtrancl sup_reachable_def)

subsection \<open>A concrete deployment for the witnesses\<close>

text \<open>An operating system that maps at a given address, and a guest that stores one byte.\<close>

definition example_os_at :: "u64 \<Rightarrow> os_calls" where
  "example_os_at a =
     \<lparr>sys_mmap = (\<lambda>len. if unat len \<le> 2 ^ 20 then Inr (a, \<lambda>_. 0) else Inl 12), sys_mprotect = (\<lambda>_ _. None)\<rparr>"

definition example_config :: "CellId \<Rightarrow> cell_config" where
  "example_config i =
     \<lparr>config_id = i, initial_memory_bytes = 4096, config_quota_bytes = 65536, checkpoint_interval_ticks = 1\<rparr>"

definition example_executor :: "build \<Rightarrow> nat quantum_executor" where
  "example_executor b =
     \<lparr>run_quantum = (\<lambda>x c n.
        if PAGE_SIZE \<le> unat (size_bytes (memory c)) then
          and_then (mark_dirty b (memory c) 0) (\<lambda>m.
            Inr (Inr 1, x + 1, c\<lparr>memory := m\<lparr>region := (region m)(7 := of_nat x)\<rparr>\<rparr>))
        else Inr (Inl (Memory (OutOfBounds 7 1 (size_bytes (memory c)))), x, c)),
      execution_digest = (\<lambda>x c. replicate 32 (of_nat x))\<rparr>"

lemma example_store:
  assumes "mem_inv (memory c)" and "PAGE_SIZE \<le> unat (size_bytes (memory c))"
  obtains m where "run_quantum (example_executor b) x c n = Inr (Inr 1, x + 1, c\<lparr>memory := m\<lparr>region := (region m)(7 := of_nat x)\<rparr>\<rparr>)"
    and "mem_inv m" and "pages (dirty m) = insert 0 (pages (dirty (memory c)))" and "m = memory c\<lparr>dirty := dirty m\<rparr>"
    and "0 < quota_pages (quota_bytes (memory c))"
proof -
  have "PAGE_SIZE \<le> unat (quota_bytes (memory c))" using assms by (simp add: mem_inv_def word_le_nat_alt)
  then have q: "0 < quota_pages (quota_bytes (memory c))" by (simp add: quota_pages_def PAGE_SIZE_def)
  then obtain m where "mark_dirty b (memory c) 0 = Inr m" "mem_inv m"
      "pages (dirty m) = insert 0 (pages (dirty (memory c)))" "m = memory c\<lparr>dirty := dirty m\<rparr>"
    using mark_dirty_inv [OF assms(1), of 0 b] by auto
  then show thesis using that q assms(2) by (simp add: example_executor_def)
qed

lemma page_content_store:
  assumes "p \<noteq> 0"
  shows "page_content (m\<lparr>region := (region m)(7 := v)\<rparr>) p = page_content m p"
proof -
  have "1 \<le> unat p" using assms by (simp add: Suc_leI unat_gt_0)
  then have "PAGE_SIZE \<le> unat p * PAGE_SIZE" by simp
  then have "unat p * PAGE_SIZE + i \<noteq> 7" for i by (simp add: PAGE_SIZE_def)
  then show ?thesis by (simp add: page_content_def)
qed

lemma example_executor_contract: "executor_contract b (example_executor b)"
proof (unfold executor_contract_def, (rule conjI; intro allI impI))
  fix x n and c :: cell
  assume inv: "mem_inv (memory c)"
  show "\<exists>q. run_quantum (example_executor b) x c n = Inr q"
  proof (cases "PAGE_SIZE \<le> unat (size_bytes (memory c))")
    case True
    then show ?thesis by (metis example_store [OF inv])
  qed (simp add: example_executor_def)
next
  fix x c n res x' c'
  assume run: "run_quantum (example_executor b) x c n = Inr (res, x', c')"
    and inv: "mem_inv (memory c)" "dirty_readable b (memory c)"
  show "mem_inv (memory c') \<and> dirty_readable b (memory c') \<and>
        base (memory c') = base (memory c) \<and> mapped_len (memory c') = mapped_len (memory c) \<and>
        quota_bytes (memory c') = quota_bytes (memory c) \<and>
        pages (dirty (memory c)) \<subseteq> pages (dirty (memory c')) \<and>
        (\<forall>p. p \<notin> pages (dirty (memory c')) \<longrightarrow> page_content (memory c') p = page_content (memory c) p) \<and>
        checkpoints c' = checkpoints c \<and> last_checkpoint_tick c' = last_checkpoint_tick c \<and> config c' = config c"
  proof (cases "PAGE_SIZE \<le> unat (size_bytes (memory c))")
    case True
    obtain m where m: "run_quantum (example_executor b) x c n = Inr (Inr 1, x + 1, c\<lparr>memory := m\<lparr>region := (region m)(7 := of_nat x)\<rparr>\<rparr>)"
        "mem_inv m" "pages (dirty m) = insert 0 (pages (dirty (memory c)))" "m = memory c\<lparr>dirty := dirty m\<rparr>"
        "0 < quota_pages (quota_bytes (memory c))"
      by (rule example_store [OF inv(1) True])
    have f: "base m = base (memory c)" "mapped_len m = mapped_len (memory c)" "quota_bytes m = quota_bytes (memory c)"
        "size_bytes m = size_bytes (memory c)"
      by (subst m(4), simp)+
    have r: "region m = region (memory c)" by (subst m(4), simp)
    have "mem_inv (m\<lparr>region := (region m)(7 := of_nat x)\<rparr>)" using m(2) by (simp add: mem_inv_def)
    moreover have "page_content m p = page_content (memory c) p" for p by (simp add: page_content_def r)
    ultimately show ?thesis
      using run m(1,3,5) inv(2) f True by (auto simp: dirty_readable_def page_content_store)
  next
    case False
    then show ?thesis using run inv by (auto simp: example_executor_def)
  qed
qed

lemma example_spawn_config:
  assumes "cells s (config_id cfg) = None" and "a \<noteq> 0" and "unat a + 2 ^ 20 \<le> 2 ^ 64"
    and "{unat a ..< unat a + 2 ^ 20} \<inter> live_mappings s = {}"
    and "config_quota_bytes cfg = 65536" and "initial_memory_bytes cfg \<le> 65536"
  obtains c tr where "spawn_cell b (example_os_at a) H s cfg Record = (tr, Inr (Inr (),
      s\<lparr>cells := (cells s)(config_id cfg \<mapsto> c), sup_scheduler := register_cell (sup_scheduler s) (config_id cfg)\<rparr>))"
    and "\<forall>x. sup_step b H api X (s, x) (s\<lparr>cells := (cells s)(config_id cfg \<mapsto> c), sup_scheduler := register_cell (sup_scheduler s) (config_id cfg)\<rparr>, x)"
    and "base (memory c) = a" and "size_bytes (memory c) = initial_memory_bytes cfg" and "mapping_of c \<subseteq> {unat a ..< unat a + 2 ^ 20}"
    and "config c = cfg"
    and "last_checkpoint_tick c = 0" and "entries (checkpoints c) = []" and "pages (dirty (memory c)) = {}"
    and "\<forall>p. unat p < quota_pages (quota_bytes (memory c)) \<longrightarrow> page_content (memory c) p = zero_page"
    and "recorder c = new_EventRecorder Record"
proof -
  have q: "quota_pages 65536 = 16" by (simp add: quota_pages_def PAGE_SIZE_def)
  let ?len = "rounded_len 65536 + of_nat PAGE_SIZE :: usize"
  have len: "unat ?len = 17 * PAGE_SIZE" using unat_rounded_len_guard [of 65536] q by simp
  have sound: "mmap_sound (example_os_at a)"
    using assms(2,3) by (auto simp: mmap_sound_def example_os_at_def split: if_splits)
  have fresh: "mmap_fresh (example_os_at a) (live_mappings s)"
    using assms(4) by (fastforce simp: mmap_fresh_def example_os_at_def split: if_splits)
  have map: "sys_mmap (example_os_at a) ?len = Inr (a, \<lambda>_. 0)" using len by (simp add: example_os_at_def PAGE_SIZE_def)
  have prot: "sys_mprotect (example_os_at a) (a + rounded_len 65536) (of_nat PAGE_SIZE) = None"
    by (simp add: example_os_at_def)
  obtain m where m: "new_MmapGuardedMemory b (example_os_at a) (initial_memory_bytes cfg) 65536 =
        ([Mmap ?len, Mprotect (a + rounded_len 65536) (of_nat PAGE_SIZE)], Inr (Inr m))"
      "base m = a" "mapped_len m = ?len"
    by (rule new_MmapGuardedMemory_success [OF assms(6) map prot])
  have size: "size_bytes m = initial_memory_bytes cfg" "mem_inv m" "\<forall>k < unat (mapped_len m). region m k = 0" "pages (dirty m) = {}"
    using new_MmapGuardedMemory_ok [OF sound m(1)] by blast+
  let ?c = "\<lparr>config = cfg, memory = m, recorder = new_EventRecorder Record,
      checkpoints = new_CheckpointChain H, cell_fd_table = new_FdTable,
      pending_io = new_PendingCompletions, last_checkpoint_tick = 0\<rparr>"
  have spawn: "spawn_cell b (example_os_at a) H s cfg Record =
      ([Mmap ?len, Mprotect (a + rounded_len 65536) (of_nat PAGE_SIZE)], Inr (Inr (),
        s\<lparr>cells := (cells s)(config_id cfg \<mapsto> ?c), sup_scheduler := register_cell (sup_scheduler s) (config_id cfg)\<rparr>))"
    using assms(1,5) m(1) by (simp add: spawn_cell_def new_Cell_def Let_def)
  show thesis
    by (rule that [OF spawn allI [OF sup_step.spawn [OF sound fresh spawn]]])
      (use m size(1,4) len zero_memory_pages [OF size(3,2)] in \<open>simp_all add: mapping_of_def PAGE_SIZE_def\<close>)
qed

lemma example_spawn:
  assumes "cells s i = None" and "a \<noteq> 0" and "unat a + 2 ^ 20 \<le> 2 ^ 64"
    and "{unat a ..< unat a + 2 ^ 20} \<inter> live_mappings s = {}"
  obtains c tr where "spawn_cell b (example_os_at a) H s (example_config i) Record = (tr, Inr (Inr (),
      s\<lparr>cells := (cells s)(i \<mapsto> c), sup_scheduler := register_cell (sup_scheduler s) i\<rparr>))"
    and "\<forall>x. sup_step b H api X (s, x) (s\<lparr>cells := (cells s)(i \<mapsto> c), sup_scheduler := register_cell (sup_scheduler s) i\<rparr>, x)"
    and "base (memory c) = a" and "size_bytes (memory c) = 4096" and "mapping_of c \<subseteq> {unat a ..< unat a + 2 ^ 20}"
    and "config c = example_config i"
    and "last_checkpoint_tick c = 0" and "entries (checkpoints c) = []" and "pages (dirty (memory c)) = {}"
    and "\<forall>p. unat p < quota_pages (quota_bytes (memory c)) \<longrightarrow> page_content (memory c) p = zero_page"
    and "recorder c = new_EventRecorder Record"
proof -
  have cfg: "config_id (example_config i) = i" "config_quota_bytes (example_config i) = 65536"
      "initial_memory_bytes (example_config i) = 4096"
    by (simp_all add: example_config_def)
  show thesis
    by (rule example_spawn_config [of s "example_config i" a b H api X]) (use assms cfg that in \<open>simp_all\<close>)
qed

text \<open>One cell at address 65536 and a ring of the given capacity, before the first cycle.\<close>

lemma example_systems:
  assumes "cap \<noteq> 0"
  obtains s c where "\<forall>x. sup_reachable b H example_queue X (s, x)" and "order (sup_scheduler s) = [1]"
    and "current_tick_of (sup_scheduler s) = 0" and "cells s = [1 \<mapsto> c]" and "base (memory c) = 65536"
    and "size_bytes (memory c) = 4096" and "config c = example_config 1" and "last_checkpoint_tick c = 0"
    and "replication s = Some \<lparr>ring_queue = (cap, []), ring_last_pushed_tick = 0\<rparr>"
    and "mapping_of c \<subseteq> {65536 ..< 65536 + 2 ^ 20}" and "entries (checkpoints c) = []" and "pages (dirty (memory c)) = {}"
    and "\<forall>p. unat p < quota_pages (quota_bytes (memory c)) \<longrightarrow> page_content (memory c) p = zero_page"
    and "recorder c = new_EventRecorder Record" and "max_instructions_per_quantum s = 1000"
proof -
  let ?s0 = "new_Supervisor 1000 :: (usize \<times> tick_batch list) supervisor"
  let ?s1 = "?s0\<lparr>replication := Some \<lparr>ring_queue = (cap, []), ring_last_pushed_tick = 0\<rparr>\<rparr>"
  have "sup_step b H example_queue X (?s0, x) (?s1, x)" for x
    using assms by (intro sup_step.replicate [of _ _ cap])
      (simp add: enable_replication_def new_DeltaRing_def example_queue_def)
  moreover have "sup_reachable b H example_queue X (?s0, x)" for x by (auto simp: sup_reachable_def)
  ultimately have r1: "sup_reachable b H example_queue X (?s1, x)" for x by (rule sup_reachable_step [rotated])
  obtain c tr where c: "\<forall>x. sup_step b H example_queue X (?s1, x)
        (?s1\<lparr>cells := (cells ?s1)(1 \<mapsto> c), sup_scheduler := register_cell (sup_scheduler ?s1) 1\<rparr>, x)"
      "base (memory c) = 65536" "size_bytes (memory c) = 4096" "config c = example_config 1"
      "last_checkpoint_tick c = 0" "mapping_of c \<subseteq> {unat (65536 :: u64) ..< unat (65536 :: u64) + 2 ^ 20}" "entries (checkpoints c) = []"
      "pages (dirty (memory c)) = {}" "\<forall>p. unat p < quota_pages (quota_bytes (memory c)) \<longrightarrow> page_content (memory c) p = zero_page" "recorder c = new_EventRecorder Record"
    by (rule example_spawn [of ?s1 1 65536 b H example_queue X]) (simp_all add: new_Supervisor_def live_mappings_def)
  show thesis
    by (rule that [OF allI [OF sup_reachable_step [OF r1 spec [OF c(1)]]]]) (use c in \<open>simp_all add: new_Supervisor_def\<close>)
qed

lemma example_system:
  assumes "cap \<noteq> 0"
  obtains s c where "sup_reachable b H example_queue X (s, x)" and "order (sup_scheduler s) = [1]"
    and "current_tick_of (sup_scheduler s) = 0" and "cells s = [1 \<mapsto> c]" and "base (memory c) = 65536"
    and "size_bytes (memory c) = 4096" and "config c = example_config 1" and "last_checkpoint_tick c = 0"
    and "replication s = Some \<lparr>ring_queue = (cap, []), ring_last_pushed_tick = 0\<rparr>"
    and "mapping_of c \<subseteq> {65536 ..< 65536 + 2 ^ 20}" and "entries (checkpoints c) = []" and "pages (dirty (memory c)) = {}"
    and "\<forall>p. unat p < quota_pages (quota_bytes (memory c)) \<longrightarrow> page_content (memory c) p = zero_page"
    and "recorder c = new_EventRecorder Record" and "max_instructions_per_quantum s = 1000"
  by (rule example_systems [OF assms, of b H X]) (erule allE, rule that)

text \<open>Two cells with one ring of the given capacity between them, before the first cycle.\<close>

lemma example_tenants:
  assumes "cap \<noteq> 0"
  obtains s c d where "\<forall>x. sup_reachable b H example_queue X (s, x)" and "order (sup_scheduler s) = [1, 2]"
    and "current_tick_of (sup_scheduler s) = 0" and "cells s = [1 \<mapsto> c, 2 \<mapsto> d]"
    and "size_bytes (memory c) = 4096" and "config c = example_config 1" and "pages (dirty (memory c)) = {}"
    and "size_bytes (memory d) = 4096" and "config d = example_config 2" and "pages (dirty (memory d)) = {}"
    and "replication s = Some \<lparr>ring_queue = (cap, []), ring_last_pushed_tick = 0\<rparr>"
    and "recorder c = new_EventRecorder Record" and "recorder d = new_EventRecorder Record"
    and "max_instructions_per_quantum s = 1000"
proof -
  obtain s c where s: "\<forall>x. sup_reachable b H example_queue X (s, x)" "order (sup_scheduler s) = [1]"
      "current_tick_of (sup_scheduler s) = 0" "cells s = [1 \<mapsto> c]" "size_bytes (memory c) = 4096"
      "config c = example_config 1" "pages (dirty (memory c)) = {}" "mapping_of c \<subseteq> {65536 ..< 65536 + 2 ^ 20}"
      "replication s = Some \<lparr>ring_queue = (cap, []), ring_last_pushed_tick = 0\<rparr>"
      "recorder c = new_EventRecorder Record" "max_instructions_per_quantum s = 1000"
    by (rule example_systems [OF assms, of b H X])
  obtain d tr where d: "\<forall>x. sup_step b H example_queue X (s, x)
        (s\<lparr>cells := (cells s)(2 \<mapsto> d), sup_scheduler := register_cell (sup_scheduler s) 2\<rparr>, x)"
      "size_bytes (memory d) = 4096" "config d = example_config 2" "pages (dirty (memory d)) = {}"
      "recorder d = new_EventRecorder Record"
    by (rule example_spawn [of s 2 4398046511104 b H example_queue X])
      (use s(4,8) in \<open>auto simp: live_mappings_def\<close>)
  show thesis
    by (rule that [OF allI [OF sup_reachable_step [OF spec [OF s(1)] spec [OF d(1)]]], of c d])
      (use s d in \<open>simp_all add: register_cell_def current_tick_of_def\<close>)
qed

text \<open>One cycle of the storing guest on a clean cell, with room in the ring.\<close>

lemma example_cycle:
  assumes reach: "sup_reachable Debug H example_queue (example_executor Debug) (s, x)"
    and ord: "order (sup_scheduler s) = i # is" and room: "unat (current_tick_of (sup_scheduler s)) + 1 < 2 ^ 64"
    and c: "cells s i = Some c" "size_bytes (memory c) = 4096" "config c = example_config i" "pages (dirty (memory c)) = {}"
    and ring: "replication s = Some r" "length (snd (ring_queue r)) < unat (fst (ring_queue r))"
    and t: "t = current_tick_of (sup_scheduler s) + 1"
  obtains s' d e r' where
    "run_one_cycle Debug example_queue od H (example_executor Debug) s x = Inr (Inr (Some (i, t)), s', x + 1)"
    and "sup_reachable Debug H example_queue (example_executor Debug) (s', x + 1)"
    and "order (sup_scheduler s') = is @ [i]" and "current_tick_of (sup_scheduler s') = t"
    and "cells s' = (cells s)(i \<mapsto> d)" and "size_bytes (memory d) = 4096" and "config d = example_config i"
    and "pages (dirty (memory d)) = {}" and "entries (checkpoints d) = entries (checkpoints c) @ [e]"
    and "replication s' = Some r'" and "fst (ring_queue r') = fst (ring_queue r)"
    and "snd (ring_queue r') = snd (ring_queue r) @ [\<lparr>batch_tick = t, deltas = [Raw 0 (page_content (memory d) 0)]\<rparr>]"
    and "page_content (memory d) 0 ! 7 = of_nat x" and "entry_tick e = t" and "register_digest e = replicate 32 (of_nat (x + 1))"
    and "quota_bytes (memory d) = quota_bytes (memory c)" and "page_content (memory d) 0 = (page_content (memory c) 0)[7 := of_nat x]"
    and "\<forall>p. p \<noteq> 0 \<longrightarrow> page_content (memory d) p = page_content (memory c) p"
proof -
  let ?X = "example_executor Debug"
  have inv: "sup_inv Debug H example_queue snd s"
    using sup_reachable_inv [OF example_executor_contract example_queue_sound reach] by simp
  then have cinv: "mem_inv (memory c)" "last_checkpoint_tick c \<le> current_tick_of (sup_scheduler s)"
    using c(1) by (auto simp: sup_inv_def cell_inv_def)
  obtain m where m: "run_quantum ?X x (quantum_cell c) (max_instructions_per_quantum s) =
        Inr (Inr 1, x + 1, (quantum_cell c)\<lparr>memory := m\<lparr>region := (region m)(7 := of_nat x)\<rparr>\<rparr>)"
      "mem_inv m" "pages (dirty m) = {0}" "m = memory c\<lparr>dirty := dirty m\<rparr>"
    by (rule example_store [of "quantum_cell c" Debug x]) (use cinv(1) c in \<open>simp_all add: PAGE_SIZE_def\<close>)
  let ?m = "m\<lparr>region := (region m)(7 := of_nat x)\<rparr>"
  have "iter_dirty (dirty m) = [0]"
    using m(2,3) by (simp add: mem_inv_def iter_dirty_eq_sorted)
  then have batch: "dirty_batch t ?m = \<lparr>batch_tick = t, deltas = [Raw 0 (page_content ?m 0)]\<rparr>"
    by (simp add: dirty_batch_def)
  have due: "checkpoint_due c t"
    using cinv(2) room c(3) by (simp add: t checkpoint_due_iff example_config_def unat_Suc_small word_le_nat_alt)
  have q: "aq_capacity example_queue = fst" by (simp add: example_queue_def)
  obtain s' d e r' where cyc: "run_one_cycle Debug example_queue od H ?X s x = Inr (Inr (Some (i, t)), s', x + 1)"
      "order (sup_scheduler s') = is @ [i]" "current_tick_of (sup_scheduler s') = t" "cells s' = (cells s)(i \<mapsto> d)"
      "config d = config c" "flushed ((quantum_cell c)\<lparr>memory := ?m\<rparr>) d" "entries (checkpoints d) = entries (checkpoints c) @ [e]"
      "replication s' = Some r'" "fst (ring_queue r') = fst (ring_queue r)"
      "snd (ring_queue r') = snd (ring_queue r) @ [dirty_batch t ?m]"
      "entry_tick e = t" "register_digest e = execution_digest ?X (x + 1) ((quantum_cell c)\<lparr>memory := ?m\<rparr>)"
    using cycle_effect [OF inv example_executor_contract example_queue_sound ord room c(1) m(1) t, of od] due ring
    by (fastforce simp: checkpoint_effect_def q split: option.splits)
  have "sup_step Debug H example_queue ?X (s, x) (s', x + 1)" by (rule sup_step.cycle [OF cyc(1) room])
  note reach' = sup_reachable_step [OF reach this]
  have content: "page_content (memory d) = page_content ?m" using flushed_memory(3) [OF cyc(6)] by simp
  have "size_bytes m = 4096" using c(2) by (subst m(4)) simp
  then have "size_bytes (memory d) = 4096" using flushed_memory(2) [OF cyc(6)] by simp
  moreover have "page_content ?m 0 ! 7 = of_nat x" by (simp add: page_content_def PAGE_SIZE_def)
  moreover have "quota_bytes m = quota_bytes (memory c)" by (subst m(4)) simp
  then have "quota_bytes (memory d) = quota_bytes (memory c)" using flushed_memory(1) [OF cyc(6)] by simp
  moreover have same: "region m = region (memory c)" by (subst m(4)) simp
  then have "page_content ?m 0 = (page_content (memory c) 0)[7 := of_nat x]"
    by (intro nth_equalityI) (auto simp: page_content_def nth_list_update PAGE_SIZE_def)
  moreover have "\<forall>p. p \<noteq> 0 \<longrightarrow> page_content ?m p = page_content (memory c) p"
    using same page_content_store [of _ m "of_nat x"] by (simp add: page_content_def [of m] page_content_def [of "memory c"])
  ultimately show thesis
    using that [OF cyc(1) reach' cyc(2-4)] cyc(5-12) c(3) batch content by (simp add: flushed_def example_executor_def)
qed

subsection \<open>Properties\<close>

text \<open>
  Property C6. The supervisor's invariant holds in every reachable state: the rotation
  lists exactly the registered cells, each once; every cell's memory, checkpoint chain
  and Merkle tree are well formed and in step with each other; no checkpoint lies in
  the future; the cells' mappings are pairwise disjoint; the ring is within capacity.
\<close>

theorem supervisor_invariant:
  assumes "executor_contract b X" and "queue_sound api held" and "sup_reachable b H api X (s, x)"
  shows "sup_inv b H api held s"
  using sup_reachable_inv [OF assms] by simp

theorem supervisor_invariant_witness:
  "\<exists>s x. sup_reachable Debug example_hash example_queue (example_executor Debug) (s, x) \<and> dom (cells s) = {1} \<and>
     sup_inv Debug example_hash example_queue snd s"
proof -
  obtain s c where s: "sup_reachable Debug example_hash example_queue (example_executor Debug) (s, 0)" "cells s = [1 \<mapsto> c]"
    by (rule example_system [of 4]) simp_all
  then show ?thesis
    using supervisor_invariant [OF example_executor_contract example_queue_sound s(1)]
    by (intro exI [of _ s] exI [of _ 0]) simp
qed

text \<open>
  Property C7. No dispatch cycle panics: from every reachable state in which a tick is
  left, \<open>run_one_cycle\<close> returns. The scheduler never names an unknown cell (the \<open>expect\<close>),
  no dirty page read by the checkpoint or the flush trips an assertion or leaves the
  mapping, and no arithmetic overflows.
\<close>

theorem cycle_never_panics:
  assumes "executor_contract b X" and "queue_sound api held" and "sup_reachable b H api X (s, x)"
    and "unat (current_tick_of (sup_scheduler s)) + 1 < 2 ^ 64"
  shows "\<exists>r s' x'. run_one_cycle b api od H X s x = Inr (r, s', x')"
  using run_one_cycle_inv [OF _ assms(1,2,4), of H od x] sup_reachable_inv [OF assms(1-3)] by auto

theorem cycle_never_panics_witness:
  "\<exists>s x r s' x'. dom (cells s) = {1} \<and>
     run_one_cycle Debug example_queue reverse_order example_hash (example_executor Debug) s x = Inr (r, s', x')"
proof -
  obtain s c where s: "sup_reachable Debug example_hash example_queue (example_executor Debug) (s, 0)" "cells s = [1 \<mapsto> c]"
      "current_tick_of (sup_scheduler s) = 0"
    by (rule example_system [of 4]) simp_all
  then show ?thesis
    using cycle_never_panics [OF example_executor_contract example_queue_sound s(1), of reverse_order]
    by (intro exI [of _ s] exI [of _ 0]) simp
qed

text \<open>
  Property C5. A cycle whose quantum succeeds and whose checkpoint is due appends one
  entry for the tick, whose root is the Merkle root of the whole memory as the executor
  left it, with the execution digest; with replication it queues the full content of
  every dirty page as one batch; and it clears the dirty set only when both consumed
  it: when the ring is full it reports \<open>ReplicationBackpressure\<close>, leaves the ring alone
  and keeps every dirty page marked. Other cells are not touched.
\<close>

theorem cycle_checkpoints_and_flushes:
  assumes "executor_contract b X" and "queue_sound api held" and "sup_reachable b H api X (s, x)"
    and "unat (current_tick_of (sup_scheduler s)) + 1 < 2 ^ 64" and "order (sup_scheduler s) = i # is"
    and "cells s i = Some c" and "run_quantum X x (quantum_cell c) (max_instructions_per_quantum s) = Inr (Inr n, x', c')"
    and "checkpoint_due c (current_tick_of (sup_scheduler s) + 1)"
  shows "\<exists>r s' d. run_one_cycle b api od H X s x = Inr (r, s', x') \<and> cells s' = (cells s)(i \<mapsto> d) \<and>
    checkpoint_effect H api held (execution_digest X x' c') i (current_tick_of (sup_scheduler s) + 1) c' d
      (replication s) (replication s') r"
  using cycle_effect [OF _ assms(1,2,5,4,6,7) refl, of H od] sup_reachable_inv [OF assms(1-3)] assms(8) by auto

theorem cycle_checkpoints_and_flushes_witness:
  "\<exists>s r s' d ring'. run_one_cycle Debug example_queue reverse_order example_hash (example_executor Debug) s 5 = Inr (r, s', 6) \<and>
     cells s' 1 = Some d \<and> r = Inr (Some (1, 1)) \<and> length (entries (checkpoints d)) = 1 \<and>
     replication s' = Some ring' \<and> length (snd (ring_queue ring')) = 1 \<and> pages (dirty (memory d)) = {}"
proof -
  let ?X = "example_executor Debug"
  obtain s c where s: "sup_reachable Debug example_hash example_queue ?X (s, 5)" "order (sup_scheduler s) = [1]"
      "current_tick_of (sup_scheduler s) = 0" "cells s = [1 \<mapsto> c]" "size_bytes (memory c) = 4096"
      "config c = example_config 1" "last_checkpoint_tick c = 0"
      "replication s = Some \<lparr>ring_queue = (4, []), ring_last_pushed_tick = 0\<rparr>" "entries (checkpoints c) = []"
    by (rule example_system [of 4]) simp_all
  have "sup_inv Debug example_hash example_queue snd s"
    using sup_reachable_inv [OF example_executor_contract example_queue_sound s(1)] by simp
  then have inv: "mem_inv (memory c)" using s(4) by (auto simp: sup_inv_def cell_inv_def)
  obtain m where m: "run_quantum ?X 5 (quantum_cell c) (max_instructions_per_quantum s) =
      Inr (Inr 1, 5 + 1, (quantum_cell c)\<lparr>memory := m\<lparr>region := (region m)(7 := of_nat 5)\<rparr>\<rparr>)"
    by (rule example_store [of "quantum_cell c" Debug 5]) (use inv s(5) in \<open>simp_all add: PAGE_SIZE_def\<close>)
  have due: "checkpoint_due c (current_tick_of (sup_scheduler s) + 1)"
    using s(3,6,7) by (simp add: checkpoint_due_iff example_config_def)
  show ?thesis
    using cycle_checkpoints_and_flushes [OF example_executor_contract example_queue_sound s(1) _ s(2) _ m due, of reverse_order] s(3,4,8,9)
    by (fastforce simp: checkpoint_effect_def flushed_def example_queue_def split: option.splits)
qed

text \<open>
  Property C27. A faulting quantum is contained: the cycle still returns the dispatched
  cell and tick, takes no checkpoint and pushes no batch, keeps the cell's chain and
  every other cell, advances the rotation, and leaves a state in which the invariant
  holds, so later cycles go on.
\<close>

theorem cycle_fault_contained:
  assumes "executor_contract b X" and "queue_sound api held" and "sup_reachable b H api X (s, x)"
    and "unat (current_tick_of (sup_scheduler s)) + 1 < 2 ^ 64" and "order (sup_scheduler s) = i # is"
    and "cells s i = Some c" and "run_quantum X x (quantum_cell c) (max_instructions_per_quantum s) = Inr (Inl fault, x', c')"
  shows "\<exists>s'. run_one_cycle b api od H X s x = Inr (Inr (Some (i, current_tick_of (sup_scheduler s) + 1)), s', x') \<and>
    cells s' = (cells s)(i \<mapsto> c') \<and> checkpoints c' = checkpoints c \<and>
    last_checkpoint_tick c' = last_checkpoint_tick c \<and> replication s' = replication s \<and>
    order (sup_scheduler s') = is @ [i] \<and> sup_inv b H api held s'"
proof -
  have inv: "sup_inv b H api held s" using sup_reachable_inv [OF assms(1-3)] by simp
  then have "cell_inv b H (quantum_cell c)" using assms(6) unfolding sup_inv_def quantum_cell_simps by blast
  note frame = executor_keeps_cell_inv(3,4) [OF assms(1,7) this]
  show ?thesis using cycle_effect [OF inv assms(1,2,5,4,6,7) refl, of od] frame by auto
qed

definition trapping_executor :: "nat quantum_executor" where
  "trapping_executor =
     \<lparr>run_quantum = (\<lambda>x c n. Inr (Inl (Trap ''unreachable''), x, c)), execution_digest = (\<lambda>x c. replicate 32 0)\<rparr>"

theorem cycle_fault_contained_witness:
  "\<exists>s s' c. cells s 1 = Some c \<and> cells s' 1 = Some (quantum_cell c) \<and> replication s' = replication s \<and>
     run_one_cycle Debug example_queue reverse_order example_hash trapping_executor s 0 = Inr (Inr (Some (1, 1)), s', 0)"
proof -
  obtain s c where s: "sup_reachable Debug example_hash example_queue trapping_executor (s, 0)"
      "order (sup_scheduler s) = [1]" "current_tick_of (sup_scheduler s) = 0" "cells s = [1 \<mapsto> c]"
    by (rule example_system [of 4]) simp_all
  have con: "executor_contract Debug trapping_executor" by (auto simp: executor_contract_def trapping_executor_def)
  have q: "run_quantum trapping_executor 0 (quantum_cell c) (max_instructions_per_quantum s) =
      Inr (Inl (Trap ''unreachable''), 0, quantum_cell c)"
    by (simp add: trapping_executor_def)
  show ?thesis
    using cycle_fault_contained [OF con example_queue_sound s(1) _ s(2) _ q, of reverse_order] s(3,4)
    by - (rule exI [of _ s], fastforce)
qed

text \<open>
  The checkpoint interval is honoured: after every dispatch of a cell whose
  quantum succeeds, whether or not the flush met a full ring, fewer than
  \<open>checkpoint_interval_ticks\<close> ticks (or none, for an interval of 0 or 1) have passed since
  its last checkpoint.
\<close>

lemma checkpoint_lag_bounded:
  assumes "executor_contract b X" and "queue_sound api held" and "sup_reachable b H api X (s, x)"
    and "unat (current_tick_of (sup_scheduler s)) + 1 < 2 ^ 64" and "order (sup_scheduler s) = i # is"
    and "cells s i = Some c" and "run_quantum X x (quantum_cell c) (max_instructions_per_quantum s) = Inr (Inr n, x', c')"
  shows "\<exists>r s' d. run_one_cycle b api od H X s x = Inr (r, s', x') \<and> cells s' i = Some d \<and>
    unat (current_tick_of (sup_scheduler s')) - unat (last_checkpoint_tick d)
      < max 1 (unat (checkpoint_interval_ticks (config d)))"
proof -
  have inv: "sup_inv b H api held s" using sup_reachable_inv [OF assms(1-3)] by simp
  then have "cell_inv b H (quantum_cell c)" using assms(6) unfolding sup_inv_def quantum_cell_simps by blast
  note frame = executor_keeps_cell_inv(4,5) [OF assms(1,7) this]
  let ?t = "current_tick_of (sup_scheduler s) + 1"
  obtain r s' d where cyc: "run_one_cycle b api od H X s x = Inr (r, s', x')" "cells s' = (cells s)(i \<mapsto> d)"
      "current_tick_of (sup_scheduler s') = ?t" "config d = config c"
    and eff: "if \<not> checkpoint_due c ?t then d = c'
      else checkpoint_effect H api held (execution_digest X x' c') i ?t c' d (replication s) (replication s') r"
    using cycle_effect [OF inv assms(1,2,5,4,6,7) refl, of od] by (auto split: if_splits)
  have "unat ?t - unat (last_checkpoint_tick d) < max 1 (unat (checkpoint_interval_ticks (config d)))"
  proof (cases "checkpoint_due c ?t")
    case True
    then show ?thesis using eff by (simp add: checkpoint_effect_def)
  next
    case False
    then show ?thesis using eff frame cyc(4) by (simp add: checkpoint_due_iff)
  qed
  then show ?thesis using cyc by auto
qed

text \<open>
  Property C28. Spawning on every path: a second cell with the same id is refused before any
  call to the operating system; a memory fault is reported for that cell, changes
  nothing in the supervisor and leaves nothing mapped; success adds a fresh cell under
  its id and appends the id to the rotation.
\<close>

theorem spawn_cell_outcomes:
  assumes "mmap_sound os"
  shows "\<exists>tr res s'. spawn_cell b os H s cfg md = (tr, Inr (res, s')) \<and>
    (if cells s (config_id cfg) \<noteq> None then tr = [] \<and> res = Inl (DuplicateCell (config_id cfg)) \<and> s' = s
     else case res of
       Inl e \<Rightarrow> s' = s \<and> nothing_mapped os tr \<and> (\<exists>f. e = MemoryInit (config_id cfg) f)
     | Inr _ \<Rightarrow> \<exists>c. cells s' = (cells s)(config_id cfg \<mapsto> c) \<and> cell_inv b H c \<and> config c = cfg \<and>
         mode (recorder c) = md \<and> entries (checkpoints c) = [] \<and> pages (dirty (memory c)) = {} \<and>
         order (sup_scheduler s') = order (sup_scheduler s) @ [config_id cfg] \<and> replication s' = replication s)"
proof (cases "cells s (config_id cfg)")
  case (Some c)
  then show ?thesis by (simp add: spawn_cell_def Let_def)
next
  case None
  obtain tr r where new: "new_MmapGuardedMemory b os (initial_memory_bytes cfg) (config_quota_bytes cfg) = (tr, Inr r)"
      "isl r \<longrightarrow> nothing_mapped os tr"
    using new_MmapGuardedMemory_total by blast
  show ?thesis
  proof (cases r)
    case (Inl f)
    then show ?thesis using None new by (simp add: spawn_cell_def new_Cell_def Let_def)
  next
    case (Inr m)
    then obtain c where c: "new_Cell b os H cfg md = (tr, Inr (Inr c))" using new by (simp add: new_Cell_def)
    from new_Cell_ok [OF assms c, of b] None c show ?thesis
      by (simp add: spawn_cell_def Let_def) (rule exI [of _ c], simp)
  qed
qed

theorem spawn_cell_outcomes_witness:
  "\<exists>s' :: nat supervisor. snd (spawn_cell Debug (example_os_at 65536) example_hash (new_Supervisor 1) (example_config 1) Replay) = Inr (Inr (), s') \<and>
     spawn_cell Debug (example_os_at 65536) example_hash s' (example_config 1) Record = ([], Inr (Inl (DuplicateCell 1), s'))"
proof -
  let ?os = "example_os_at 65536"
  have sound: "mmap_sound ?os" by (auto simp: mmap_sound_def example_os_at_def split: if_splits)
  have len: "unat (rounded_len 65536 + of_nat PAGE_SIZE :: usize) = 17 * PAGE_SIZE"
    using unat_rounded_len_guard [of 65536] by (simp add: quota_pages_def PAGE_SIZE_def)
  have map: "sys_mmap ?os (rounded_len 65536 + of_nat PAGE_SIZE) = Inr (65536, \<lambda>_. 0)"
    using len by (simp add: example_os_at_def PAGE_SIZE_def)
  have prot: "sys_mprotect ?os (65536 + rounded_len 65536) (of_nat PAGE_SIZE) = None" by (simp add: example_os_at_def)
  have le: "(4096 :: u32) \<le> 65536" by simp
  obtain s' :: "nat supervisor" where s': "snd (spawn_cell Debug ?os example_hash (new_Supervisor 1) (example_config 1) Replay) = Inr (Inr (), s')"
    by (rule new_MmapGuardedMemory_success [OF le map prot, of Debug])
      (simp add: spawn_cell_def new_Cell_def new_Supervisor_def example_config_def Let_def)
  have "config_id (example_config 1) = 1" by (simp add: example_config_def)
  then have "cells s' 1 \<noteq> None"
    using spawn_cell_outcomes [OF sound, of Debug example_hash "new_Supervisor 1 :: nat supervisor" "example_config 1" Replay] s'
    by (auto simp: new_Supervisor_def)
  then show ?thesis
    using s' spawn_cell_outcomes [OF sound, of Debug example_hash s' "example_config 1" Record] \<open>config_id (example_config 1) = 1\<close>
    by auto
qed

end
