(* ===== verification/Cell_History.thy ===== *)
theory Cell_History
  imports Supervisor
begin

section \<open>What happens to one cell in a reachable system\<close>

text \<open>
  An induction principle for properties of single cells: they hold in every reachable
  state when new cells have them and a cycle of the cell keeps them. It gives the history
  of the checkpoints: their ticks are spaced by the configured interval, and the last
  recorded root is the root of the memory as long as no page has been written since.
\<close>

subsection \<open>The cell's part of a cycle\<close>

text \<open>What a quantum may do to the cell, by the executor's contract.\<close>

definition quantum_rel :: "cell \<Rightarrow> cell \<Rightarrow> bool" where
  "quantum_rel c c' \<longleftrightarrow>
     checkpoints c' = checkpoints c \<and> last_checkpoint_tick c' = last_checkpoint_tick c \<and> config c' = config c \<and>
     quota_bytes (memory c') = quota_bytes (memory c) \<and> pages (dirty (memory c)) \<subseteq> pages (dirty (memory c')) \<and>
     (\<forall>p. p \<notin> pages (dirty (memory c')) \<longrightarrow> page_content (memory c') p = page_content (memory c) p)"

text \<open>What a checkpoint at tick \<open>t\<close> does to it, whether the ring took the batch or not.\<close>

definition checkpoint_rel :: "hash_fn \<Rightarrow> u64 \<Rightarrow> cell \<Rightarrow> cell \<Rightarrow> bool" where
  "checkpoint_rel H t c' d \<longleftrightarrow>
     last_checkpoint_tick d = t \<and> config d = config c' \<and>
     (\<exists>e. entries (checkpoints d) = entries (checkpoints c') @ [e] \<and> entry_tick e = t \<and>
          smt_root e = memory_root H (memory c')) \<and>
     (flushed c' d \<or> memory d = memory c')"

lemma quantum_relI:
  assumes "executor_contract b X" and "run_quantum X x (quantum_cell c) n = Inr (res, x', c')" and "cell_inv b H c"
  shows "quantum_rel c c'"
proof -
  have mem: "mem_inv (memory (quantum_cell c))" "dirty_readable b (memory (quantum_cell c))"
    using assms(3) by (simp_all add: cell_inv_def)
  have *: "quota_bytes (memory c') = quota_bytes (memory (quantum_cell c))"
      "\<forall>p. p \<notin> pages (dirty (memory c')) \<longrightarrow> page_content (memory c') p = page_content (memory (quantum_cell c)) p"
    using assms(1,2) mem unfolding executor_contract_def by blast+
  have "cell_inv b H (quantum_cell c)" using assms(3) by simp
  from executor_keeps_cell_inv(3-6) [OF assms(1,2) this] * show ?thesis by (simp add: quantum_rel_def)
qed

lemma checkpoint_relI:
  assumes "checkpoint_effect H api held reg i t c' d rep rep' r" and "config d = config c'"
  shows "checkpoint_rel H t c' d"
  using assms by (auto simp: checkpoint_effect_def checkpoint_rel_def split: option.splits if_splits)

lemma cycle_cell_history:
  assumes "executor_contract b X" and "queue_sound api held" and "sup_inv b H api held s"
    and "unat (current_tick_of (sup_scheduler s)) + 1 < 2 ^ 64" and "run_one_cycle b api od H X s x = Inr (r, s', x')"
    and "cells s' i = Some d"
  shows "cells s i = Some d \<or>
    (\<exists>c c'. cells s i = Some c \<and> cell_inv b H c \<and> last_checkpoint_tick c < current_tick_of (sup_scheduler s) + 1 \<and>
       quantum_rel c c' \<and>
       (d = c' \<or> checkpoint_due c (current_tick_of (sup_scheduler s) + 1) \<and>
                 checkpoint_rel H (current_tick_of (sup_scheduler s) + 1) c' d))"
proof (cases "order (sup_scheduler s)")
  case Nil
  then show ?thesis using assms(5,6) by (simp add: run_one_cycle_idle)
next
  case (Cons j "is")
  let ?t = "current_tick_of (sup_scheduler s) + 1"
  obtain c where c: "cells s j = Some c" by (rule dispatched_cell [OF assms(3) Cons])
  obtain res y c' where q: "run_quantum X x (quantum_cell c) (max_instructions_per_quantum s) = Inr (res, y, c')"
    by (rule dispatched_quantum [OF assms(3,1) c])
  have inv: "cell_inv b H c" "last_checkpoint_tick c \<le> current_tick_of (sup_scheduler s)"
    using assms(3) c unfolding sup_inv_def by blast+
  have rel: "quantum_rel c c'" by (rule quantum_relI [OF assms(1) q inv(1)])
  have lt: "last_checkpoint_tick c < ?t"
    using inv(2) assms(4) by (simp add: word_less_nat_alt word_le_nat_alt unat_Suc_small)
  obtain d' where d': "cells s' = (cells s)(j \<mapsto> d')" "config d' = config c"
    and eff: "if isl res \<or> \<not> checkpoint_due c ?t then d' = c'
       else checkpoint_effect H api held (execution_digest X y c') j ?t c' d' (replication s) (replication s') r"
    using cycle_effect [OF assms(3,1,2) Cons assms(4) c q refl, of od] assms(5) by (auto split: if_splits)
  show ?thesis
  proof (cases "i = j")
    case True
    then have "d = d'" using d'(1) assms(6) by simp
    moreover have "config d' = config c'" using d'(2) rel by (simp add: quantum_rel_def)
    then have "d' = c' \<or> checkpoint_due c ?t \<and> checkpoint_rel H ?t c' d'"
      using eff checkpoint_relI by (fastforce split: if_splits)
    ultimately show ?thesis using True c inv(1) lt rel by blast
  next
    case False
    then show ?thesis using d'(1) assms(6) by simp
  qed
qed

lemma sup_reachable_cellwise:
  assumes contract: "executor_contract b X" and sound: "queue_sound api held"
    and reach: "sup_reachable b H api X (s, x)" and cell: "cells s i = Some c"
    and new: "\<And>os cfg md tr c. mmap_sound os \<Longrightarrow> new_Cell b os H cfg md = (tr, Inr (Inr c)) \<Longrightarrow> P (config_id cfg) c"
    and quantum: "\<And>i c c'. cell_inv b H c \<Longrightarrow> P i c \<Longrightarrow> quantum_rel c c' \<Longrightarrow> P i c'"
    and checkpoint: "\<And>i t c c' d. cell_inv b H c \<Longrightarrow> P i c \<Longrightarrow> quantum_rel c c' \<Longrightarrow> last_checkpoint_tick c < t \<Longrightarrow>
      checkpoint_due c t \<Longrightarrow> checkpoint_rel H t c' d \<Longrightarrow> P i d"
  shows "P i c"
proof -
  obtain n x0 where "(sup_step b H api X)\<^sup>*\<^sup>* (new_Supervisor n, x0) (s, x)"
    using reach by (auto simp: sup_reachable_def)
  then have "\<forall>i c. cells (fst (s, x)) i = Some c \<longrightarrow> P i c"
  proof (induction rule: rtranclp_induct)
    case base
    then show ?case by (simp add: new_Supervisor_def)
  next
    case (step y z)
    have inv: "sup_inv b H api held (fst y)"
      by (rule sup_reachable_inv [OF contract sound]) (use step.hyps(1) in \<open>auto simp: sup_reachable_def\<close>)
    from step.hyps(2) show ?case
    proof cases
      case (spawn os s cfg md tr res s' x)
      obtain tr' rr where rr: "new_Cell b os H cfg md = (tr', rr)" by fastforce
      have "s' = s \<or> (\<exists>c. new_Cell b os H cfg md = (tr, Inr (Inr c)) \<and> cells s' = (cells s)(config_id cfg \<mapsto> c))"
        using spawn(5) rr by (cases rr) (auto simp: spawn_cell_def Let_def split: if_splits sum.splits)
      then show ?thesis using step.IH spawn(1,2) new [OF spawn(3)] by (auto split: if_splits)
    next
      case (replicate s cap s' x)
      then show ?thesis using step.IH by (auto simp: enable_replication_def)
    next
      case (cycle od s x res s' x')
      show ?thesis
      proof (intro allI impI)
        fix i d assume d: "cells (fst z) i = Some d"
        let ?t = "current_tick_of (sup_scheduler s) + 1"
        have old: "P i c" if "cells s i = Some c" for i c using step.IH cycle(1) that by simp
        have "sup_inv b H api held s" "cells s' i = Some d" using inv d cycle(1,2) by simp_all
        from cycle_cell_history [OF contract sound this(1) cycle(4,3) this(2)]
        consider "cells s i = Some d"
          | c c' where "cells s i = Some c" "cell_inv b H c" "last_checkpoint_tick c < ?t" "quantum_rel c c'"
              "d = c' \<or> checkpoint_due c ?t \<and> checkpoint_rel H ?t c' d"
          by blast
        then show "P i d"
        proof cases
          case 1
          then show ?thesis by (rule old)
        next
          case (2 c c')
          then show ?thesis using quantum [OF 2(2) old [OF 2(1)] 2(4)] checkpoint [OF 2(2) old [OF 2(1)] 2(4,3)] by blast
        qed
      qed
    next
      case (consume s r y q x)
      then show ?thesis using step.IH by simp
    qed
  qed
  then show ?thesis using cell by simp
qed

subsection \<open>The ticks of the checkpoints\<close>

definition spaced :: "cell \<Rightarrow> bool" where
  "spaced c \<longleftrightarrow>
     successively (\<lambda>t u. t < u \<and> unat (checkpoint_interval_ticks (config c)) \<le> unat u - unat t)
       (0 # map entry_tick (entries (checkpoints c))) \<and>
     last (0 # map entry_tick (entries (checkpoints c))) = last_checkpoint_tick c"

lemma spaced_checkpoint:
  assumes "spaced c" and "quantum_rel c c'" and "last_checkpoint_tick c < t" and "checkpoint_due c t"
    and "checkpoint_rel H t c' d"
  shows "spaced d"
proof -
  let ?ts = "map entry_tick (entries (checkpoints c))"
  have d: "map entry_tick (entries (checkpoints d)) = ?ts @ [t]" "last_checkpoint_tick d = t" "config d = config c"
    using assms(2,5) by (auto simp: quantum_rel_def checkpoint_rel_def)
  let ?R = "\<lambda>t u. t < u \<and> unat (checkpoint_interval_ticks (config c)) \<le> unat u - unat t"
  have "successively ?R (0 # ?ts)" "last (0 # ?ts) = last_checkpoint_tick c" using assms(1) by (simp_all add: spaced_def)
  moreover have "?R (last_checkpoint_tick c) t" using assms(3,4) by (simp add: checkpoint_due_iff)
  ultimately have "successively ?R ((0 # ?ts) @ [t])" by (simp only: successively_append_iff) simp
  then show ?thesis unfolding spaced_def d by simp
qed

lemma spaced_reachable:
  assumes "executor_contract b X" and "queue_sound api held" and "sup_reachable b H api X (s, x)" and "cells s i = Some c"
  shows "spaced c"
proof (rule sup_reachable_cellwise [OF assms, where P = "\<lambda>_. spaced"])
  fix os cfg md tr c assume "mmap_sound os" "new_Cell b os H cfg md = (tr, Inr (Inr c))"
  then show "spaced c" using new_Cell_ok by (fastforce simp: spaced_def)
next
  fix c c' assume "spaced c" "quantum_rel c c'"
  then show "spaced c'" by (simp add: spaced_def quantum_rel_def)
qed (rule spaced_checkpoint)

lemma spaced_sorted:
  assumes "spaced c"
  shows "sorted_wrt (<) (map entry_tick (entries (checkpoints c)))"
proof -
  have "successively (<) (0 # map entry_tick (entries (checkpoints c)))"
    using assms unfolding spaced_def by (auto elim!: successively_mono)
  then have "sorted_wrt (<) (0 # map entry_tick (entries (checkpoints c)))"
    by (subst (asm) successively_iff_sorted_wrt_strong) auto
  then show ?thesis by simp
qed

lemma sorted_wrt_less_last:
  fixes ts :: "'a :: linorder list"
  assumes "sorted_wrt (<) ts" and "t \<in> set ts"
  shows "t \<le> last ts"
  using assms by (induction ts rule: rev_induct) (auto simp: sorted_wrt_append)

subsection \<open>The last recorded root\<close>

definition root_current :: "hash_fn \<Rightarrow> cell \<Rightarrow> bool" where
  "root_current H c \<longleftrightarrow>
     (pages (dirty (memory c)) = {} \<longrightarrow> entries (checkpoints c) \<noteq> [] \<longrightarrow>
      smt_root (last (entries (checkpoints c))) = memory_root H (memory c))"

lemma root_current_reachable:
  assumes "executor_contract b X" and "queue_sound api held" and "sup_reachable b H api X (s, x)" and "cells s i = Some c"
  shows "root_current H c"
proof (rule sup_reachable_cellwise [OF assms, where P = "\<lambda>_. root_current H"])
  fix os cfg md tr c assume "mmap_sound os" "new_Cell b os H cfg md = (tr, Inr (Inr c))"
  then show "root_current H c" using new_Cell_ok by (fastforce simp: root_current_def)
next
  fix c c' assume c: "root_current H c" "quantum_rel c c'"
  show "root_current H c'"
    unfolding root_current_def
  proof (intro impI)
    assume "pages (dirty (memory c')) = {}" "entries (checkpoints c') \<noteq> []"
    moreover from this(1) c(2) have "memory_root H (memory c') = memory_root H (memory c)"
      by (intro memory_root_cong) (simp_all add: quantum_rel_def)
    ultimately show "smt_root (last (entries (checkpoints c'))) = memory_root H (memory c')"
      using c by (simp add: root_current_def quantum_rel_def)
  qed
next
  fix t c c' d assume d: "checkpoint_rel H t c' d"
  show "root_current H d" using d by (auto simp: root_current_def checkpoint_rel_def flushed_memory(4))
qed

subsection \<open>Properties\<close>

text \<open>
  Property C21. The checkpoint chain of every cell in every reachable state is an ordered
  history: the ticks of its entries increase strictly, the first lies at least one
  checkpoint interval after tick zero and neighbours lie at least one interval apart, none lies after the
  current tick, and as long as no page is dirty the last recorded root is the Merkle
  root of the whole memory as it stands.
\<close>

theorem checkpoint_history:
  assumes "executor_contract b X" and "queue_sound api held" and "sup_reachable b H api X (s, x)" and "cells s i = Some c"
    and "ticks = map entry_tick (entries (checkpoints c))"
  shows "sorted_wrt (<) ticks \<and>
    successively (\<lambda>t u. unat (checkpoint_interval_ticks (config c)) \<le> unat u - unat t) (0 # ticks) \<and>
    (\<forall>t\<in>set ticks. t \<le> current_tick_of (sup_scheduler s)) \<and>
    (pages (dirty (memory c)) = {} \<and> ticks \<noteq> [] \<longrightarrow>
       smt_root (last (entries (checkpoints c))) = memory_root H (memory c))"
proof -
  have sp: "spaced c" by (rule spaced_reachable [OF assms(1-4)])
  have sorted: "sorted_wrt (<) ticks" unfolding assms(5) by (rule spaced_sorted [OF sp])
  have "last_checkpoint_tick c \<le> current_tick_of (sup_scheduler s)"
    using sup_reachable_inv [OF assms(1-3)] assms(4) by (simp add: sup_inv_def)
  moreover have "t \<le> last_checkpoint_tick c" if "t \<in> set ticks" for t
    using that sp sorted_wrt_less_last [OF sorted that] by (auto simp: spaced_def assms(5) split: if_splits)
  ultimately have "\<forall>t\<in>set ticks. t \<le> current_tick_of (sup_scheduler s)" by fastforce
  moreover have "successively (\<lambda>t u. unat (checkpoint_interval_ticks (config c)) \<le> unat u - unat t) (0 # ticks)"
    using sp unfolding spaced_def assms(5) by (auto elim: successively_mono)
  ultimately show ?thesis
    using sorted root_current_reachable [OF assms(1-4)] by (simp add: root_current_def assms(5))
qed

theorem checkpoint_history_witness:
  "\<exists>s x c ticks. sup_reachable Debug example_hash example_queue (example_executor Debug) (s, x) \<and> cells s 1 = Some c \<and>
     ticks = map entry_tick (entries (checkpoints c)) \<and> length ticks = 1 \<and> sorted_wrt (<) ticks \<and>
     smt_root (last (entries (checkpoints c))) = memory_root example_hash (memory c)"
proof -
  let ?X = "example_executor Debug"
  obtain s c r where s: "sup_reachable Debug example_hash example_queue ?X (s, 0)"
      "order (sup_scheduler s) = [1]" "current_tick_of (sup_scheduler s) = 0" "cells s 1 = Some c"
      "size_bytes (memory c) = 4096" "config c = example_config 1" "pages (dirty (memory c)) = {}"
      "replication s = Some r" "length (snd (ring_queue r)) < unat (fst (ring_queue r))" "entries (checkpoints c) = []"
    by (rule example_system [of 4 Debug example_hash ?X 0]) simp_all
  obtain s' d e where s': "sup_reachable Debug example_hash example_queue ?X (s', 0 + 1)" "cells s' = (cells s)(1 \<mapsto> d)"
      "entries (checkpoints d) = entries (checkpoints c) @ [e]" "pages (dirty (memory d)) = {}"
    by (rule example_cycle [OF s(1,2) _ s(4-9) refl]) (simp_all add: s(3))
  have d: "cells s' 1 = Some d" "length (map entry_tick (entries (checkpoints d))) = 1" using s'(2,3) s(10) by simp_all
  show ?thesis
    using checkpoint_history [OF example_executor_contract example_queue_sound s'(1) d(1) refl] s'(1,4) d by fastforce
qed

end
