(* ===== verification/Determinism.thy ===== *)
theory Determinism
  imports Cell_History
begin

section \<open>Determinism and separation of supervisor runs\<close>

text \<open>
  Runs of whole dispatch cycles. What a supervisor computes depends neither on the iteration
  order of its hash maps nor on the build profile, and what becomes of one tenant
  depends on no other tenant, as long as the shared ring has room.
\<close>

subsection \<open>Runs of cycles\<close>

text \<open>One iteration order per cycle; the results of the cycles are collected.\<close>

fun run_cycles ::
  "build \<Rightarrow> 'q array_queue_api \<Rightarrow> hash_fn \<Rightarrow> 'x quantum_executor \<Rightarrow> 'q supervisor \<Rightarrow> 'x
     \<Rightarrow> (u64 \<times> digest) iter_order list
     \<Rightarrow> ((supervisor_error + (CellId \<times> u64) option) list \<times> 'q supervisor \<times> 'x) run" where
  "run_cycles b api H X s x [] = Inr ([], s, x)"
| "run_cycles b api H X s x (od # ods) =
     and_then (run_one_cycle b api od H X s x) (\<lambda>(r, s1, x1).
       and_then (run_cycles b api H X s1 x1 ods) (\<lambda>(rs, s2, x2). Inr (r # rs, s2, x2)))"

subsection \<open>Profiles and iteration orders\<close>

lemma fold_run_cong:
  assumes "\<And>s x. x \<in> set xs \<Longrightarrow> f s x = g s x"
  shows "fold_run f s xs = fold_run g s xs"
  using assms
proof (induction xs arbitrary: s)
  case (Cons x xs)
  then show ?case by (cases "g s x") simp_all
qed simp

lemma raw_deltas_cong:
  assumes "\<And>p. p \<in> set ps \<Longrightarrow> pg p = pg' p"
  shows "raw_deltas pg ps = raw_deltas pg' ps"
  using assms
proof (induction ps)
  case (Cons p ps)
  then show ?case by (cases "pg' p") simp_all
qed simp

lemma cell_inv_release: "cell_inv Debug H c \<Longrightarrow> cell_inv b H c"
  by (auto simp: cell_inv_def dirty_readable_def)

lemma sup_inv_release: "sup_inv Debug H api held s \<Longrightarrow> sup_inv b H api held s"
  unfolding sup_inv_def using cell_inv_release by metis

lemma dirty_page_bytes:
  assumes "cell_inv b H c" and "p \<in> pages (dirty (memory c))"
  shows "page_bytes b (memory c) p = Inr (page_content (memory c) p)" and "unat p < 2 ^ TREE_DEPTH"
proof -
  have *: "mem_inv (memory c)" "unat p < quota_pages (quota_bytes (memory c))"
      "b = Debug \<longrightarrow> (unat p + 1) * PAGE_SIZE \<le> unat (size_bytes (memory c))"
    using assms by (auto simp: cell_inv_def dirty_readable_def)
  show "page_bytes b (memory c) p = Inr (page_content (memory c) p)" using *(3) by (auto simp: page_bytes_eq [OF *(1,2)])
  show "unat p < 2 ^ TREE_DEPTH"
    using *(2) quota_pages_bounds(2) [of "quota_bytes (memory c)"] by (simp add: TREE_DEPTH_def)
qed

lemma checkpoint_det:
  assumes "cell_inv b H c" and "cell_inv b' H c"
  shows "checkpoint od H (checkpoints c) t (page_bytes b (memory c)) (dirty (memory c)) reg =
    checkpoint od' H (checkpoints c) t (page_bytes b' (memory c)) (dirty (memory c)) reg"
proof -
  let ?m = "memory c"
  have set: "set (iter_dirty (dirty ?m)) = pages (dirty ?m)"
    using assms by (simp add: cell_inv_def mem_inv_def set_iter_dirty)
  have tree: "smt_inv H (tree (checkpoints c)) \<and> within_depth (tree (checkpoints c))"
    using assms by (simp add: cell_inv_def chain_inv_def)
  let ?fold = "\<lambda>b. fold_run (\<lambda>tr p. and_then (page_bytes b ?m p) (\<lambda>bs. Inr (update_leaf H tr p bs)))
      (tree (checkpoints c)) (iter_dirty (dirty ?m))"
  have "\<forall>p\<in>set (iter_dirty (dirty ?m)). page_bytes b ?m p = Inr (page_content ?m p) \<and> unat p < 2 ^ TREE_DEPTH"
    using dirty_page_bytes [OF assms(1)] by (simp add: set)
  then obtain tr where tr: "?fold b = Inr tr" "smt_inv H tr" "within_depth tr"
    using smt.rehash [OF tree] by blast
  have "?fold b' = ?fold b"
    by (rule fold_run_cong) (simp add: dirty_page_bytes [OF assms(1)] dirty_page_bytes [OF assms(2)] set)
  then have "?fold b' = Inr tr" using tr(1) by simp
  moreover have "root od H tr = root od' H tr" using tr(2,3) by (simp add: root_eq_node_hash)
  ultimately show ?thesis using tr(1) by (simp add: checkpoint_def)
qed

lemma checkpoint_and_flush_det:
  assumes "cell_inv b H c" and "cell_inv b' H c"
  shows "checkpoint_and_flush b api od H reg i t s c = checkpoint_and_flush b' api od' H reg i t s c"
proof -
  have set: "set (iter_dirty (dirty (memory c))) = pages (dirty (memory c))"
    using assms by (simp add: cell_inv_def mem_inv_def set_iter_dirty)
  have "raw_deltas (page_bytes b (memory c)) (iter_dirty (dirty (memory c))) =
      raw_deltas (page_bytes b' (memory c)) (iter_dirty (dirty (memory c)))"
    by (rule raw_deltas_cong) (simp add: dirty_page_bytes [OF assms(1)] dirty_page_bytes [OF assms(2)] set)
  then show ?thesis
    using checkpoint_det [OF assms, of od t reg od']
    by (cases "replication s") (simp_all add: checkpoint_and_flush_def dirty_pages_def Let_def)
qed

lemma scheduler_eqI:
  fixes s s' :: scheduler
  shows "order s = order s' \<Longrightarrow> current_tick_of s = current_tick_of s' \<Longrightarrow> s = s'"
  by (simp add: current_tick_of_def)

text \<open>Two builds agree on a cycle when they agree on its quantum and on its checkpoint, if one is taken.\<close>

lemma run_one_cycle_cong:
  assumes ord: "order (sup_scheduler s) = i # is" and room: "unat (current_tick_of (sup_scheduler s)) + 1 < 2 ^ 64"
    and c: "cells s i = Some c" and q: "run_quantum X x (quantum_cell c) (max_instructions_per_quantum s) = Inr (res, x', c')"
    and q': "run_quantum Y x (quantum_cell c) (max_instructions_per_quantum s) = Inr (res, x', c')"
    and t: "t = current_tick_of (sup_scheduler s) + 1"
    and flush: "\<And>s. \<not> isl res \<Longrightarrow> checkpoint_due c t \<Longrightarrow>
      checkpoint_and_flush b api od H (execution_digest X x' c') i t s c' =
      checkpoint_and_flush b' api od' H (execution_digest Y x' c') i t s c'"
  shows "run_one_cycle b api od H X s x = run_one_cycle b' api od' H Y s x"
proof -
  let ?run = "\<lambda>X b od sch. (let s1 = s\<lparr>sup_scheduler := sch\<rparr> in
       if isl res \<or> \<not> checkpoint_due c t
       then Inr (Inr (Some (i, t)), s1\<lparr>cells := (cells s)(i \<mapsto> c')\<rparr>, x')
       else and_then (checkpoint_and_flush b api od H (execution_digest X x' c') i t s1 c') (\<lambda>(r, s2).
              case r of Inl e \<Rightarrow> Inr (Inl e, s2, x') | Inr _ \<Rightarrow> Inr (Inr (Some (i, t)), s2, x')))"
  obtain sch where sch: "order sch = is @ [i]" "current_tick_of sch = t" "run_one_cycle b api od H X s x = ?run X b od sch"
    by (rule run_one_cycle_eq [OF ord room c q t])
  obtain sch' where sch': "order sch' = is @ [i]" "current_tick_of sch' = t" "run_one_cycle b' api od' H Y s x = ?run Y b' od' sch'"
    by (rule run_one_cycle_eq [OF ord room c q' t])
  have "sch' = sch" using sch sch' by (intro scheduler_eqI) simp_all
  then show ?thesis
    unfolding sch(3) sch'(3) using flush by (cases "isl res \<or> \<not> checkpoint_due c t") (auto simp: Let_def)
qed

lemma run_one_cycle_det:
  assumes inv: "sup_inv Debug H api held s" and contract: "executor_contract Debug X"
    and room: "unat (current_tick_of (sup_scheduler s)) + 1 < 2 ^ 64"
  shows "run_one_cycle b api od H X s x = run_one_cycle b' api od' H X s x"
proof (cases "order (sup_scheduler s)")
  case Nil
  then show ?thesis by (simp add: run_one_cycle_idle)
next
  case (Cons i "is")
  obtain c where c: "cells s i = Some c" by (rule dispatched_cell [OF inv Cons])
  obtain res x' c' where q: "run_quantum X x (quantum_cell c) (max_instructions_per_quantum s) = Inr (res, x', c')"
    by (rule dispatched_quantum [OF inv contract c])
  have "cell_inv Debug H c" using inv c unfolding sup_inv_def by blast
  then have c': "cell_inv Debug H c'" using executor_keeps_cell_inv(1) [OF contract q] by simp
  show ?thesis
    by (rule run_one_cycle_cong [OF Cons room c q q refl checkpoint_and_flush_det])
      (rule cell_inv_release [OF c'])+
qed

lemma run_one_cycle_tick:
  assumes "sup_inv b H api held s" and "unat (current_tick_of (sup_scheduler s)) + 1 < 2 ^ 64"
    and "executor_contract b X" and "queue_sound api held" and "run_one_cycle b api od H X s x = Inr (r, s', x')"
  shows "unat (current_tick_of (sup_scheduler s')) \<le> unat (current_tick_of (sup_scheduler s)) + 1"
proof (cases "order (sup_scheduler s)")
  case Nil
  then show ?thesis using assms(5) by (simp add: run_one_cycle_idle)
next
  case (Cons i "is")
  obtain c where c: "cells s i = Some c" by (rule dispatched_cell [OF assms(1) Cons])
  obtain res y c' where q: "run_quantum X x (quantum_cell c) (max_instructions_per_quantum s) = Inr (res, y, c')"
    by (rule dispatched_quantum [OF assms(1,3) c])
  have "current_tick_of (sup_scheduler s') = current_tick_of (sup_scheduler s) + 1"
    using cycle_effect [OF assms(1,3,4) Cons assms(2) c q refl, of od] assms(5) by auto
  then show ?thesis using assms(2) by (simp add: unat_Suc_small)
qed

lemma run_cycles_det:
  assumes contract: "executor_contract Debug X" and sound: "queue_sound api held"
    and "sup_inv Debug H api held s" and "unat (current_tick_of (sup_scheduler s)) + length ods < 2 ^ 64"
    and "length ods = length ods'"
  shows "\<exists>rs s' x'. run_cycles Debug api H X s x ods = Inr (rs, s', x') \<and>
    run_cycles Release api H X s x ods' = Inr (rs, s', x') \<and> sup_inv Debug H api held s'"
  using assms(5,3,4)
proof (induction ods ods' arbitrary: s x rule: list_induct2)
  case (Cons od ods od' ods')
  have room: "unat (current_tick_of (sup_scheduler s)) + 1 < 2 ^ 64" using Cons.prems(2) by simp
  obtain r s1 x1 where one: "run_one_cycle Debug api od H X s x = Inr (r, s1, x1)" "sup_inv Debug H api held s1"
    using run_one_cycle_inv [OF Cons.prems(1) contract sound room] by blast
  have "unat (current_tick_of (sup_scheduler s1)) \<le> unat (current_tick_of (sup_scheduler s)) + 1"
    by (rule run_one_cycle_tick [OF Cons.prems(1) room contract sound one(1)])
  then have "unat (current_tick_of (sup_scheduler s1)) + length ods < 2 ^ 64" using Cons.prems(2) by simp
  from Cons.IH [OF one(2) this]
  obtain rs s2 x2 where "run_cycles Debug api H X s1 x1 ods = Inr (rs, s2, x2)"
      "run_cycles Release api H X s1 x1 ods' = Inr (rs, s2, x2)" "sup_inv Debug H api held s2"
    by blast
  moreover have "run_one_cycle Release api od' H X s x = Inr (r, s1, x1)"
    using run_one_cycle_det [OF Cons.prems(1) contract room, of Release od' x Debug od] one(1) by simp
  ultimately show ?case using one(1) by simp
qed simp

subsection \<open>One tenant does not depend on the others\<close>

text \<open>
  An executor that keeps a state per tenant, which is what the trait describes (\<open>starting
  from wherever that cell's saved execution state left off\<close>).
\<close>

definition per_tenant ::
  "('y \<Rightarrow> cell \<Rightarrow> u64 \<Rightarrow> ((quantum_fault + u64) \<times> 'y \<times> cell) run) \<Rightarrow> ('y \<Rightarrow> cell \<Rightarrow> digest)
     \<Rightarrow> (CellId \<Rightarrow> 'y) quantum_executor" where
  "per_tenant f g =
     \<lparr>run_quantum = (\<lambda>x c n. let i = config_id (config c) in and_then (f (x i) c n) (\<lambda>(res, y, c'). Inr (res, x(i := y), c'))),
      execution_digest = (\<lambda>x c. g (x (config_id (config c))) c)\<rparr>"

text \<open>Cells are stored under their own id, in every reachable state.\<close>

definition keyed :: "'q supervisor \<Rightarrow> bool" where
  "keyed s \<longleftrightarrow> (\<forall>i c. cells s i = Some c \<longrightarrow> config_id (config c) = i)"

text \<open>The part of a state that tenant \<open>i\<close> can see.\<close>

definition same_view :: "CellId \<Rightarrow> 'q supervisor \<Rightarrow> (CellId \<Rightarrow> 'y) \<Rightarrow> 'q supervisor \<Rightarrow> (CellId \<Rightarrow> 'y) \<Rightarrow> bool" where
  "same_view i s x u y \<longleftrightarrow>
     sup_scheduler s = sup_scheduler u \<and> max_instructions_per_quantum s = max_instructions_per_quantum u \<and>
     cells s i = cells u i \<and> x i = y i"

text \<open>A due checkpoint that meets no full ring leaves a cell that depends on nothing but the cell before.\<close>

lemma checkpoint_and_flush_cell:
  assumes "cell_inv b H c"
  obtains d where "\<And>api od s r s'. checkpoint_and_flush b api od H reg i t s c = Inr (r, s') \<Longrightarrow> \<not> isl r \<Longrightarrow>
    \<exists>rep. s' = s\<lparr>cells := (cells s)(i \<mapsto> d), replication := rep\<rparr>"
proof -
  obtain e chain where cp: "checkpoint insertion_order H (checkpoints c) t (page_bytes b (memory c)) (dirty (memory c)) reg = Inr (e, chain)"
    using tree_synced_checkpoint [of H "checkpoints c" "memory c" b insertion_order t reg] assms
    by (auto simp: cell_inv_def dirty_readable_def)
  let ?d = "clear_cell_dirty_pages (c\<lparr>checkpoints := chain, last_checkpoint_tick := t\<rparr>)"
  show thesis
  proof (rule that)
    fix od s r s' and api :: "'b array_queue_api"
    assume run: "checkpoint_and_flush b api od H reg i t s c = Inr (r, s')" "\<not> isl r"
    have cp': "checkpoint od H (checkpoints c) t (page_bytes b (memory c)) (dirty (memory c)) reg = Inr (e, chain)"
      using checkpoint_det [OF assms assms, of od t reg insertion_order] cp by simp
    show "\<exists>rep. s' = s\<lparr>cells := (cells s)(i \<mapsto> ?d), replication := rep\<rparr>"
    proof (cases "replication s")
      case None
      then have "s\<lparr>cells := f\<rparr> = s\<lparr>cells := f, replication := None\<rparr>" for f by simp
      then show ?thesis
        using run(1) None by (auto simp: checkpoint_and_flush_def dirty_pages_def cp' Let_def intro!: exI [of _ None])
    next
      case (Some rg)
      then obtain ds where ds: "raw_deltas (page_bytes b (memory c)) (iter_dirty (dirty (memory c))) = Inr ds"
        using run(1) by (auto simp: checkpoint_and_flush_def dirty_pages_def cp' Let_def)
      obtain res rg' where p: "push_ring api rg \<lparr>batch_tick = t, deltas = ds\<rparr> = (res, rg')" by fastforce
      show ?thesis
        using run Some ds p by (cases res) (auto simp: checkpoint_and_flush_def dirty_pages_def cp' Let_def)
    qed
  qed
qed

text \<open>The state after a cycle without backpressure, \<open>d\<close> being that cell.\<close>

lemma cycle_stored:
  fixes s :: "'q supervisor"
  assumes "order (sup_scheduler s) = j # is" and "unat (current_tick_of (sup_scheduler s)) + 1 < 2 ^ 64"
    and "cells s j = Some c" and q: "run_quantum X x (quantum_cell c) (max_instructions_per_quantum s) = Inr (res, x', c')"
    and "t = current_tick_of (sup_scheduler s) + 1"
    and d: "\<And>api od (s :: 'q supervisor) r s'. checkpoint_and_flush b api od H (execution_digest X x' c') j t s c' = Inr (r, s') \<Longrightarrow> \<not> isl r \<Longrightarrow>
      \<exists>rep. s' = s\<lparr>cells := (cells s)(j \<mapsto> d), replication := rep\<rparr>"
    and run: "run_one_cycle b api od H X s x = Inr (r, s', x'')" and ok: "\<not> isl r"
  shows "r = Inr (Some (j, t)) \<and> x'' = x' \<and> cells s' = (cells s)(j \<mapsto> if isl res \<or> \<not> checkpoint_due c t then c' else d) \<and>
    order (sup_scheduler s') = is @ [j] \<and> current_tick_of (sup_scheduler s') = t \<and>
    max_instructions_per_quantum s' = max_instructions_per_quantum s"
proof -
  obtain sch where sch: "order sch = is @ [j]" "current_tick_of sch = t"
    and eq: "run_one_cycle b api od H X s x =
      (let s1 = s\<lparr>sup_scheduler := sch\<rparr> in
       if isl res \<or> \<not> checkpoint_due c t
       then Inr (Inr (Some (j, t)), s1\<lparr>cells := (cells s)(j \<mapsto> c')\<rparr>, x')
       else and_then (checkpoint_and_flush b api od H (execution_digest X x' c') j t s1 c') (\<lambda>(r, s2).
              case r of Inl e \<Rightarrow> Inr (Inl e, s2, x') | Inr _ \<Rightarrow> Inr (Inr (Some (j, t)), s2, x')))"
    by (rule run_one_cycle_eq [OF assms(1-3) q assms(5)])
  show ?thesis
  proof (cases "isl res \<or> \<not> checkpoint_due c t")
    case True
    then show ?thesis using run eq sch by auto
  next
    case False
    let ?s1 = "s\<lparr>sup_scheduler := sch\<rparr>"
    obtain r1 s2 where f: "checkpoint_and_flush b api od H (execution_digest X x' c') j t ?s1 c' = Inr (r1, s2)"
      using run eq False by auto
    have "r = Inr (Some (j, t)) \<and> s' = s2 \<and> x'' = x' \<and> \<not> isl r1"
      using run ok unfolding eq Let_def by (cases r1) (use f False in auto)
    then show ?thesis using d [OF f] False sch by auto
  qed
qed

text \<open>
  What a cycle makes of the dispatched tenant \<open>j\<close>: a new execution state \<open>z\<close> and a new cell
  \<open>k\<close>, both functions of the tenant's own state, the tick and the instruction budget.
\<close>

lemma tenant_cycle:
  fixes y0 :: 'y and n :: u64
  assumes contract: "executor_contract b (per_tenant f g)" and inv: "cell_inv b H c" and id: "config_id (config c) = j"
    and room: "unat t0 + 1 < 2 ^ 64"
  obtains z k where "\<And>(s :: 'q supervisor) x api od r s' x'. order (sup_scheduler s) = j # is \<Longrightarrow> current_tick_of (sup_scheduler s) = t0 \<Longrightarrow>
    max_instructions_per_quantum s = n \<Longrightarrow> cells s j = Some c \<Longrightarrow> x j = y0 \<Longrightarrow>
    run_one_cycle b api od H (per_tenant f g) s x = Inr (r, s', x') \<Longrightarrow> \<not> isl r \<Longrightarrow>
    r = Inr (Some (j, t0 + 1)) \<and> x' = x(j := z) \<and> cells s' = (cells s)(j \<mapsto> k) \<and> order (sup_scheduler s') = is @ [j] \<and>
    current_tick_of (sup_scheduler s') = t0 + 1 \<and> max_instructions_per_quantum s' = n"
proof -
  let ?X = "per_tenant f g"
  obtain res u c' where "run_quantum ?X (\<lambda>_. y0) (quantum_cell c) n = Inr (res, u, c')"
    using executor_returns [OF contract, of H "quantum_cell c" "\<lambda>_. y0" n] inv by auto
  then obtain z where f: "f y0 (quantum_cell c) n = Inr (res, z, c')" by (auto simp: per_tenant_def Let_def)
  have q: "run_quantum ?X x (quantum_cell c) n = Inr (res, x(j := z), c')" if "x j = y0" for x
    using f that id by (simp add: per_tenant_def)
  have c': "cell_inv b H c'" "config c' = config c"
    using executor_keeps_cell_inv(1,5) [OF contract q [of "\<lambda>_. y0"]] inv by simp_all
  have reg: "execution_digest ?X (x(j := z)) c' = g z c'" for x using c'(2) id by (simp add: per_tenant_def)
  obtain d where d: "\<And>api od (s :: 'q supervisor) r s'. checkpoint_and_flush b api od H (g z c') j (t0 + 1) s c' = Inr (r, s') \<Longrightarrow>
      \<not> isl r \<Longrightarrow> \<exists>rep. s' = s\<lparr>cells := (cells s)(j \<mapsto> d), replication := rep\<rparr>"
    using checkpoint_and_flush_cell [OF c'(1)] by blast
  show thesis
  proof (rule that)
    fix s :: "'q supervisor" and x od r s' x' api
    assume s: "order (sup_scheduler s) = j # is" "current_tick_of (sup_scheduler s) = t0"
        "max_instructions_per_quantum s = n" "cells s j = Some c" "x j = y0"
        and run: "run_one_cycle b api od H ?X s x = Inr (r, s', x')" "\<not> isl r"
    have q': "run_quantum ?X x (quantum_cell c) (max_instructions_per_quantum s) = Inr (res, x(j := z), c')"
      using q [of x, OF s(5)] s(3) by simp
    have "unat (current_tick_of (sup_scheduler s)) + 1 < 2 ^ 64" "t0 + 1 = current_tick_of (sup_scheduler s) + 1"
      using room s(2) by simp_all
    from cycle_stored [OF s(1) this(1) s(4) q' this(2) _ run, of d] d
    show "r = Inr (Some (j, t0 + 1)) \<and> x' = x(j := z) \<and> cells s' = (cells s)(j \<mapsto> if isl res \<or> \<not> checkpoint_due c (t0 + 1) then c' else d) \<and>
        order (sup_scheduler s') = is @ [j] \<and> current_tick_of (sup_scheduler s') = t0 + 1 \<and>
        max_instructions_per_quantum s' = n"
      using s(3) unfolding reg by metis
  qed
qed

lemma cycle_same_view:
  fixes s u :: "'q supervisor" and x y :: "CellId \<Rightarrow> 'y"
  assumes contract: "executor_contract b (per_tenant f g)"
    and inv: "sup_inv b H api held s" "sup_inv b H api held u" and key: "keyed s" "keyed u"
    and view: "same_view i s x u y" and room: "unat (current_tick_of (sup_scheduler s)) + 1 < 2 ^ 64"
    and runs: "run_one_cycle b api od H (per_tenant f g) s x = Inr (r, s', x')"
      "run_one_cycle b api od' H (per_tenant f g) u y = Inr (r', u', y')"
    and ok: "\<not> isl r" "\<not> isl r'"
  shows "r = r' \<and> same_view i s' x' u' y'"
proof (cases "order (sup_scheduler s)")
  case Nil
  then show ?thesis using runs view by (simp add: same_view_def run_one_cycle_idle)
next
  case (Cons j "is")
  let ?t = "current_tick_of (sup_scheduler s)" and ?n = "max_instructions_per_quantum s"
  have u: "order (sup_scheduler u) = j # is" "current_tick_of (sup_scheduler u) = ?t" "max_instructions_per_quantum u = ?n"
      "cells u i = cells s i" "y i = x i"
    using view Cons by (simp_all add: same_view_def)
  obtain c where c: "cells s j = Some c" by (rule dispatched_cell [OF inv(1) Cons])
  obtain e where e: "cells u j = Some e" by (rule dispatched_cell [OF inv(2) u(1)])
  have "cell_inv b H c" "config_id (config c) = j" using inv(1) key(1) c by (auto simp: sup_inv_def keyed_def)
  from tenant_cycle [OF contract this room, of "is" ?n "x j"] obtain z k where zk:
    "\<And>(s :: 'q supervisor) y api od r s' x'. order (sup_scheduler s) = j # is \<Longrightarrow> current_tick_of (sup_scheduler s) = ?t \<Longrightarrow>
      max_instructions_per_quantum s = ?n \<Longrightarrow> cells s j = Some c \<Longrightarrow> y j = x j \<Longrightarrow>
      run_one_cycle b api od H (per_tenant f g) s y = Inr (r, s', x') \<Longrightarrow> \<not> isl r \<Longrightarrow>
      r = Inr (Some (j, ?t + 1)) \<and> x' = y(j := z) \<and> cells s' = (cells s)(j \<mapsto> k) \<and> order (sup_scheduler s') = is @ [j] \<and>
      current_tick_of (sup_scheduler s') = ?t + 1 \<and> max_instructions_per_quantum s' = ?n"
    by blast
  have "cell_inv b H e" "config_id (config e) = j" using inv(2) key(2) e by (auto simp: sup_inv_def keyed_def)
  from tenant_cycle [OF contract this room, of "is" ?n "y j"] obtain z2 k2 where zk2:
    "\<And>(s :: 'q supervisor) x api od r s' x'. order (sup_scheduler s) = j # is \<Longrightarrow> current_tick_of (sup_scheduler s) = ?t \<Longrightarrow>
      max_instructions_per_quantum s = ?n \<Longrightarrow> cells s j = Some e \<Longrightarrow> x j = y j \<Longrightarrow>
      run_one_cycle b api od H (per_tenant f g) s x = Inr (r, s', x') \<Longrightarrow> \<not> isl r \<Longrightarrow>
      r = Inr (Some (j, ?t + 1)) \<and> x' = x(j := z2) \<and> cells s' = (cells s)(j \<mapsto> k2) \<and> order (sup_scheduler s') = is @ [j] \<and>
      current_tick_of (sup_scheduler s') = ?t + 1 \<and> max_instructions_per_quantum s' = ?n"
    by blast
  note s' = zk [OF Cons refl refl c refl runs(1) ok(1)] and u' = zk2 [OF u(1-3) e refl runs(2) ok(2)]
  have sch: "sup_scheduler s' = sup_scheduler u'" using s' u' by (intro scheduler_eqI) simp_all
  show ?thesis
  proof (cases "j = i")
    case True
    then have "cells u j = Some c" "y j = x j" using c u(4,5) by simp_all
    from zk [OF u(1-3) this runs(2) ok(2)] show ?thesis using s' sch True by (simp add: same_view_def)
  next
    case False
    then show ?thesis using s' u' u(4,5) sch by (simp add: same_view_def)
  qed
qed

lemma keyed_reachable:
  assumes "executor_contract b X" and "queue_sound api held" and "sup_reachable b H api X (s, x)"
  shows "keyed s"
  unfolding keyed_def
proof (intro allI impI)
  fix i c assume "cells s i = Some c"
  then show "config_id (config c) = i"
  proof (rule sup_reachable_cellwise [OF assms, where P = "\<lambda>i c. config_id (config c) = i"])
    fix os cfg md tr c assume "mmap_sound os" "new_Cell b os H cfg md = (tr, Inr (Inr c))"
    then show "config_id (config c) = config_id cfg" using new_Cell_ok by blast
  qed (simp_all add: quantum_rel_def checkpoint_rel_def)
qed

lemma run_cycles_Cons:
  assumes "run_cycles b api H X s x (od # ods) = Inr (rs, s', x')"
  obtains r rs1 s1 x1 where "run_one_cycle b api od H X s x = Inr (r, s1, x1)"
    and "run_cycles b api H X s1 x1 ods = Inr (rs1, s', x')" and "rs = r # rs1"
proof (cases "run_one_cycle b api od H X s x")
  case (Inr y)
  obtain r s1 x1 where y: "y = (r, s1, x1)" by (cases y)
  show thesis using assms Inr y that by (cases "run_cycles b api H X s1 x1 ods") auto
qed (use assms in simp)

lemma length_run_cycles: "run_cycles b api H X s x ods = Inr (rs, s', x') \<Longrightarrow> length rs = length ods"
  by (induction ods arbitrary: s x rs) (auto elim!: run_cycles_Cons simp del: run_cycles.simps(2))

text \<open>Every state on the way of a run that returns is reachable.\<close>

lemma cycle_reachable:
  assumes "executor_contract b X" and "queue_sound api held" and "sup_reachable b H api X (s, x)"
    and "unat (current_tick_of (sup_scheduler s)) + Suc n < 2 ^ 64" and "run_one_cycle b api od H X s x = Inr (r, s', x')"
  shows "sup_reachable b H api X (s', x')" and "unat (current_tick_of (sup_scheduler s')) + n < 2 ^ 64"
proof -
  have room: "unat (current_tick_of (sup_scheduler s)) + 1 < 2 ^ 64" using assms(4) by simp
  show "sup_reachable b H api X (s', x')"
    by (rule sup_reachable_step [OF assms(3) sup_step.cycle [OF assms(5) room]])
  have "sup_inv b H api held s" using sup_reachable_inv [OF assms(1-3)] by simp
  from run_one_cycle_tick [OF this room assms(1,2,5)] assms(4)
  show "unat (current_tick_of (sup_scheduler s')) + n < 2 ^ 64" by simp
qed

lemma run_cycles_same_view:
  fixes s u :: "'q supervisor" and x y :: "CellId \<Rightarrow> 'y"
  assumes contract: "executor_contract b (per_tenant f g)" and sound: "queue_sound api held"
    and "length ods = length ods'"
    and "sup_reachable b H api (per_tenant f g) (s, x)" and "sup_reachable b H api (per_tenant f g) (u, y)"
    and "same_view i s x u y" and "unat (current_tick_of (sup_scheduler s)) + length ods < 2 ^ 64"
    and "run_cycles b api H (per_tenant f g) s x ods = Inr (rs, s', x')"
    and "run_cycles b api H (per_tenant f g) u y ods' = Inr (rs', u', y')"
    and "\<forall>r\<in>set rs \<union> set rs'. \<not> isl r"
  shows "rs = rs' \<and> same_view i s' x' u' y'"
  using assms(3-)
proof (induction ods ods' arbitrary: s x u y rs rs' rule: list_induct2)
  case (Cons od ods od' ods')
  let ?X = "per_tenant f g"
  obtain r rs1 s1 x1 where s1: "run_one_cycle b api od H ?X s x = Inr (r, s1, x1)"
      "run_cycles b api H ?X s1 x1 ods = Inr (rs1, s', x')" "rs = r # rs1"
    by (rule run_cycles_Cons [OF Cons.prems(5)])
  obtain r' rs1' u1 y1 where u1: "run_one_cycle b api od' H ?X u y = Inr (r', u1, y1)"
      "run_cycles b api H ?X u1 y1 ods' = Inr (rs1', u', y')" "rs' = r' # rs1'"
    by (rule run_cycles_Cons [OF Cons.prems(6)])
  have room: "unat (current_tick_of (sup_scheduler s)) + Suc (length ods) < 2 ^ 64"
      "unat (current_tick_of (sup_scheduler u)) + Suc (length ods) < 2 ^ 64"
    using Cons.prems(3,4) by (simp_all add: same_view_def)
  have view: "r = r' \<and> same_view i s1 x1 u1 y1"
    using sup_reachable_inv [OF contract sound Cons.prems(1)] sup_reachable_inv [OF contract sound Cons.prems(2)]
      keyed_reachable [OF contract sound Cons.prems(1)] keyed_reachable [OF contract sound Cons.prems(2)] room(1) s1(3) u1(3) Cons.prems(7)
    by (intro cycle_same_view [OF contract _ _ _ _ Cons.prems(3) _ s1(1) u1(1), of held]) simp_all
  have "rs1 = rs1' \<and> same_view i s' x' u' y'"
    using cycle_reachable [OF contract sound Cons.prems(1) room(1) s1(1)] cycle_reachable [OF contract sound Cons.prems(2) room(2) u1(1)]
      view Cons.prems(7) s1(3) u1(3)
    by (intro Cons.IH [OF _ _ _ _ s1(2) u1(2)]) simp_all
  then show ?case using view s1(3) u1(3) by simp
qed simp

subsection \<open>Backpressure\<close>

text \<open>Room for \<open>n\<close> batches in the ring, or no ring at all: then no cycle is refused.\<close>

definition ring_room :: "'q array_queue_api \<Rightarrow> ('q \<Rightarrow> tick_batch list) \<Rightarrow> 'q supervisor \<Rightarrow> nat \<Rightarrow> bool" where
  "ring_room api held s n \<longleftrightarrow>
     (case replication s of
        None \<Rightarrow> True
      | Some r \<Rightarrow> length (held (ring_queue r)) + n \<le> unat (aq_capacity api (ring_queue r)))"

lemma cycle_ring_room:
  assumes "sup_inv b H api held s" and "executor_contract b X" and "queue_sound api held"
    and "unat (current_tick_of (sup_scheduler s)) + 1 < 2 ^ 64" and "ring_room api held s (Suc n)"
    and "run_one_cycle b api od H X s x = Inr (r, s', x')"
  shows "\<not> isl r \<and> ring_room api held s' n"
proof (cases "order (sup_scheduler s)")
  case Nil
  then show ?thesis using assms(5,6) by (auto simp: run_one_cycle_idle ring_room_def split: option.splits)
next
  case (Cons i "is")
  let ?t = "current_tick_of (sup_scheduler s) + 1"
  obtain c where c: "cells s i = Some c" by (rule dispatched_cell [OF assms(1) Cons])
  obtain res y c' where q: "run_quantum X x (quantum_cell c) (max_instructions_per_quantum s) = Inr (res, y, c')"
    by (rule dispatched_quantum [OF assms(1,2) c])
  obtain d where "if isl res \<or> \<not> checkpoint_due c ?t
     then r = Inr (Some (i, ?t)) \<and> d = c' \<and> replication s' = replication s
     else checkpoint_effect H api held (execution_digest X y c') i ?t c' d (replication s) (replication s') r"
    using cycle_effect [OF assms(1-3) Cons assms(4) c q refl, of od] assms(6) by auto
  then show ?thesis
    using assms(5) by (auto simp: ring_room_def checkpoint_effect_def split: if_splits option.splits)
qed

lemma run_cycles_ring_room:
  assumes "executor_contract b X" and "queue_sound api held" and "sup_reachable b H api X (s, x)"
    and "unat (current_tick_of (sup_scheduler s)) + length ods < 2 ^ 64" and "ring_room api held s (length ods)"
  shows "\<exists>rs s' x'. run_cycles b api H X s x ods = Inr (rs, s', x') \<and> (\<forall>r\<in>set rs. \<not> isl r)"
  using assms(3-)
proof (induction ods arbitrary: s x)
  case (Cons od ods)
  have inv: "sup_inv b H api held s" using sup_reachable_inv [OF assms(1,2) Cons.prems(1)] by simp
  have room: "unat (current_tick_of (sup_scheduler s)) + 1 < 2 ^ 64" using Cons.prems(2) by simp
  obtain r s1 x1 where one: "run_one_cycle b api od H X s x = Inr (r, s1, x1)"
    using run_one_cycle_inv [OF inv assms(1,2) room] by blast
  have ok: "\<not> isl r \<and> ring_room api held s1 (length ods)"
    using cycle_ring_room [OF inv assms(1,2) room _ one] Cons.prems(3) by simp
  from cycle_reachable [OF assms(1,2) Cons.prems(1) _ one, of "length ods"] Cons.prems(2) ok
  obtain rs s' x' where "run_cycles b api H X s1 x1 ods = Inr (rs, s', x')" "\<forall>r\<in>set rs. \<not> isl r"
    using Cons.IH [of s1 x1] by auto
  then show ?case using one ok by simp
qed simp

lemma per_tenant_contract:
  assumes "executor_contract b X"
  shows "executor_contract b (per_tenant (run_quantum X) (execution_digest X))"
  unfolding executor_contract_def
proof (rule conjI; intro allI impI)
  fix x :: "CellId \<Rightarrow> 'a" and c :: cell and n :: u64
  assume "mem_inv (memory c)" "dirty_readable b (memory c)"
  then obtain q where "run_quantum X (x (config_id (config c))) c n = Inr q"
    using assms unfolding executor_contract_def by blast
  then show "\<exists>q. run_quantum (per_tenant (run_quantum X) (execution_digest X)) x c n = Inr q"
    by (cases q) (simp add: per_tenant_def Let_def)
next
  fix x :: "CellId \<Rightarrow> 'a" and c n res x' c'
  assume run: "run_quantum (per_tenant (run_quantum X) (execution_digest X)) x c n = Inr (res, x', c')"
    and mem: "mem_inv (memory c)" "dirty_readable b (memory c)"
  obtain y where "run_quantum X (x (config_id (config c))) c n = Inr (res, y, c')"
    using run by (auto simp: per_tenant_def Let_def)
  with assms mem show "mem_inv (memory c') \<and> dirty_readable b (memory c') \<and>
        base (memory c') = base (memory c) \<and> mapped_len (memory c') = mapped_len (memory c) \<and>
        quota_bytes (memory c') = quota_bytes (memory c) \<and>
        pages (dirty (memory c)) \<subseteq> pages (dirty (memory c')) \<and>
        (\<forall>p. p \<notin> pages (dirty (memory c')) \<longrightarrow> page_content (memory c') p = page_content (memory c) p) \<and>
        checkpoints c' = checkpoints c \<and> last_checkpoint_tick c' = last_checkpoint_tick c \<and> config c' = config c"
    unfolding executor_contract_def by blast
qed

subsection \<open>Properties\<close>

text \<open>
  Property C19. A run of dispatch cycles is deterministic. From every reachable state with
  that many ticks left, any number of cycles runs to the end, and the results of all
  cycles, the final supervisor (every cell's memory, chain hash and the contents of the ring included)
  and the final execution state are the same in a debug and in a release build, whatever
  order the hash maps of the Merkle tree iterate in during each cycle.
\<close>

theorem runs_deterministic:
  assumes "executor_contract Debug X" and "queue_sound api held" and "sup_reachable Debug H api X (s, x)"
    and "unat (current_tick_of (sup_scheduler s)) + length ods < 2 ^ 64" and "length ods = length ods'"
  shows "\<exists>rs s' x'. length rs = length ods \<and> run_cycles Debug api H X s x ods = Inr (rs, s', x') \<and>
    run_cycles Release api H X s x ods' = Inr (rs, s', x')"
proof -
  have "sup_inv Debug H api held s" using sup_reachable_inv [OF assms(1-3)] by simp
  from run_cycles_det [OF assms(1,2) this assms(4,5), of x] show ?thesis using length_run_cycles by metis
qed

theorem runs_deterministic_witness:
  "\<exists>(s :: (usize \<times> tick_batch list) supervisor) rs s' x'. dom (cells s) = {1, 2} \<and> length rs = 3 \<and>
     run_cycles Debug example_queue example_hash (example_executor Debug) s 7
       [insertion_order, insertion_order, insertion_order] = Inr (rs, s', x') \<and>
     run_cycles Release example_queue example_hash (example_executor Debug) s 7
       [reverse_order, insertion_order, reverse_order] = Inr (rs, s', x')"
proof -
  let ?X = "example_executor Debug"
  obtain s c d where s: "\<forall>x. sup_reachable Debug example_hash example_queue ?X (s, x)" "cells s = [1 \<mapsto> c, 2 \<mapsto> d]"
      "current_tick_of (sup_scheduler s) = 0"
    by (rule example_tenants [of 4 Debug example_hash ?X]) simp_all
  have "dom (cells s) = {1, 2}" using s(2) by auto
  moreover from runs_deterministic [OF example_executor_contract example_queue_sound spec [OF s(1)],
      of "[insertion_order, insertion_order, insertion_order]" "[reverse_order, insertion_order, reverse_order]"] s(3)
  have "\<exists>rs s' x'. length rs = 3 \<and>
     run_cycles Debug example_queue example_hash ?X s 7 [insertion_order, insertion_order, insertion_order] = Inr (rs, s', x') \<and>
     run_cycles Release example_queue example_hash ?X s 7 [reverse_order, insertion_order, reverse_order] = Inr (rs, s', x')"
    by (simp del: run_cycles.simps add: numeral_3_eq_3)
  ultimately show ?thesis by blast
qed

text \<open>
  Property C16. Tenants do not interfere. Take two reachable systems that agree on the
  rotation, the tick, the instruction budget and everything that belongs to tenant \<open>i\<close>
  (its cell and its saved execution state), while every other tenant's memory, log,
  chain and execution state may differ, and the contents of the ring too. After any number of cycles that meet no
  full ring in either system, the two runs have dispatched the same cells at the same
  ticks and still agree on everything that belongs to tenant \<open>i\<close>.
\<close>

theorem noninterference:
  fixes s u :: "'q supervisor" and x y :: "CellId \<Rightarrow> 'y"
  assumes "executor_contract b (per_tenant f g)" and "queue_sound api held" and "length ods = length ods'"
    and "sup_reachable b H api (per_tenant f g) (s, x)" and "sup_reachable b H api (per_tenant f g) (u, y)"
    and "same_view i s x u y" and "unat (current_tick_of (sup_scheduler s)) + length ods < 2 ^ 64"
    and "run_cycles b api H (per_tenant f g) s x ods = Inr (rs, s', x')"
    and "run_cycles b api H (per_tenant f g) u y ods' = Inr (rs', u', y')"
    and "\<forall>r\<in>set rs \<union> set rs'. \<not> isl r"
  shows "rs = rs' \<and> same_view i s' x' u' y'"
  by (rule run_cycles_same_view [OF assms])

text \<open>Two tenants, of which the second starts from another execution state in the second run.\<close>

theorem noninterference_witness:
  "\<exists>(s :: (usize \<times> tick_batch list) supervisor) X x y rs s' x' u' y'. (x :: CellId \<Rightarrow> nat) 2 \<noteq> y 2 \<and> dom (cells s) = {1, 2} \<and>
     run_cycles Debug example_queue example_hash X s x [insertion_order, insertion_order, insertion_order] = Inr (rs, s', x') \<and>
     run_cycles Debug example_queue example_hash X s y [reverse_order, reverse_order, reverse_order] = Inr (rs, u', y') \<and>
     same_view 1 s' x' u' y'"
proof -
  let ?E = "example_executor Debug"
  let ?X = "per_tenant (run_quantum ?E) (execution_digest ?E)" and ?n = "new_Supervisor 1000"
  let ?x = "\<lambda>_ :: CellId. 0 :: nat" and ?y = "\<lambda>i :: CellId. if i = 2 then 9 else 0 :: nat"
  let ?o = "[insertion_order, insertion_order, insertion_order]" and ?r = "[reverse_order, reverse_order, reverse_order]"
  obtain s c d where all: "\<forall>x. sup_reachable Debug example_hash example_queue ?X (s, x)"
    and s: "cells s = [1 \<mapsto> c, 2 \<mapsto> d]" "current_tick_of (sup_scheduler s) = 0"
      "replication s = Some \<lparr>ring_queue = (4, []), ring_last_pushed_tick = 0\<rparr>"
    by (rule example_tenants [of 4 Debug example_hash ?X]) simp_all
  note reach = spec [OF all] and contract = per_tenant_contract [OF example_executor_contract [of Debug]]
  have room: "ring_room example_queue snd s 3" using s(3) by (simp add: ring_room_def example_queue_def)
  obtain rs s' x' where run: "run_cycles Debug example_queue example_hash ?X s ?x ?o = Inr (rs, s', x')" "\<forall>r\<in>set rs. \<not> isl r"
    using run_cycles_ring_room [OF contract example_queue_sound reach, of ?o ?x] room s(2) by (auto simp: numeral_3_eq_3)
  obtain rs' u' y' where run': "run_cycles Debug example_queue example_hash ?X s ?y ?r = Inr (rs', u', y')" "\<forall>r\<in>set rs'. \<not> isl r"
    using run_cycles_ring_room [OF contract example_queue_sound reach, of ?r ?y] room s(2) by (auto simp: numeral_3_eq_3)
  have view: "same_view 1 s ?x s ?y" by (simp add: same_view_def)
  have "rs = rs' \<and> same_view 1 s' x' u' y'"
    by (rule noninterference [OF contract example_queue_sound _ reach reach view _ run(1) run'(1)]) (use s(2) run(2) run'(2) in auto)
  moreover have "dom (cells s) = {1, 2}" using s(1) by auto
  ultimately show ?thesis
    using run(1) run'(1) by (intro exI [of _ s] exI [of _ ?X] exI [of _ ?x] exI [of _ ?y]) (auto simp del: run_cycles.simps)
qed

end
