(* ===== verification/Guest_Execution.thy ===== *)
theory Guest_Execution
  imports Supervisor
begin

section \<open>Guests behind the memory and host-call interfaces\<close>

text \<open>
  The execution engine is not part of the repository. What the repository fixes is the
  interface an engine works through: loads and stores ask \<open>translate\<close> for a host pointer
  and access the mapping through that pointer, every
  page of an approved store is marked with \<open>mark_dirty\<close> after the write (the store-path
  trampoline of the comment at guarded_memory.rs:61), memory grows by \<open>grow\<close>, descriptors are closed in the
  cell's table, and clock and random reads are calls of the cell's recorder. A guest is therefore an arbitrary
  function \<open>G\<close> from its own state to the next thing it asks of that interface, and
  \<open>hosted_executor\<close> is the \<open>QuantumExecutor\<close> that serves it; a panic of any operation it
  calls is a panic of the quantum. The theory shows that such an
  executor keeps the contract the supervisor relies on, whatever the guest does.
\<close>

subsection \<open>What a guest asks for\<close>

datatype host_ask = Ask_Clock | Ask_Random "u8 list"

fun request_at :: "Tick \<Rightarrow> host_ask \<Rightarrow> host_request" where
  "request_at t Ask_Clock = ClockCall t"
| "request_at t (Ask_Random buf) = RandomCall t buf"

datatype 'g guest_action =
    Compute 'g
  | Load u32 u32 "u8 list \<Rightarrow> 'g"
  | Store u32 u32 "nat \<Rightarrow> u8" 'g
  | Grow u32 "mem_fault + u32 \<Rightarrow> 'g"
  | Close_Fd GuestFd "bool \<Rightarrow> 'g"
  | Host host_ask "replay_error + recorded_value \<Rightarrow> 'g"
  | Fault quantum_fault

text \<open>The pages a store of \<open>len\<close> bytes at \<open>p\<close> touches.\<close>

definition touched_pages :: "u32 \<Rightarrow> u32 \<Rightarrow> u64 list" where
  "touched_pages p len =
     (if len = 0 then []
      else map of_nat [unat p div PAGE_SIZE ..< (unat p + unat len - 1) div PAGE_SIZE + 1])"

text \<open>
  Access to the mapping by machine address: \<open>n\<close> bytes at the host address \<open>a\<close>. The mapping
  holds its bytes by distance from \<open>base\<close>; leaving it, or touching the guard page, is a
  fault of the process.
\<close>

definition host_accessible :: "mmap_guarded_memory \<Rightarrow> u64 \<Rightarrow> nat \<Rightarrow> bool" where
  "host_accessible m a n \<longleftrightarrow>
     unat (base m) \<le> unat a \<and> unat a + n + PAGE_SIZE \<le> unat (base m) + unat (mapped_len m)"

definition host_read :: "mmap_guarded_memory \<Rightarrow> u64 \<Rightarrow> nat \<Rightarrow> u8 list run" where
  "host_read m a n =
     (if host_accessible m a n then Inr (map (\<lambda>i. region m (unat a + i - unat (base m))) [0..<n])
      else Inl AccessOutsideMapping)"

definition host_write :: "mmap_guarded_memory \<Rightarrow> u64 \<Rightarrow> nat \<Rightarrow> (nat \<Rightarrow> u8) \<Rightarrow> mmap_guarded_memory run" where
  "host_write m a n bytes =
     (if host_accessible m a n
      then Inr (m\<lparr>region := (\<lambda>k. if unat a \<le> unat (base m) + k \<and> unat (base m) + k < unat a + n
                              then bytes (unat (base m) + k - unat a) else region m k)\<rparr>)
      else Inl AccessOutsideMapping)"

definition guest_load :: "mmap_guarded_memory \<Rightarrow> u32 \<Rightarrow> u32 \<Rightarrow> (mem_fault + u8 list) run" where
  "guest_load m p len =
     (case translate m p len of
        Inl e \<Rightarrow> Inr (Inl e)
      | Inr a \<Rightarrow> and_then (host_read m a (unat len)) (\<lambda>bytes. Inr (Inr bytes)))"

definition guest_store ::
  "build \<Rightarrow> mmap_guarded_memory \<Rightarrow> u32 \<Rightarrow> u32 \<Rightarrow> (nat \<Rightarrow> u8) \<Rightarrow> (mem_fault + mmap_guarded_memory) run" where
  "guest_store b m p len bytes =
     (case translate m p len of
        Inl e \<Rightarrow> Inr (Inl e)
      | Inr a \<Rightarrow>
          and_then (host_write m a (unat len) bytes) (\<lambda>m1.
          and_then (fold_run (mark_dirty b) m1 (touched_pages p len)) (\<lambda>m'. Inr (Inr m'))))"

text \<open>
  One action at tick \<open>t\<close>. A memory fault ends the quantum; a failed growth, a descriptor that is not
  open and a replay error are answers the guest sees.
\<close>

definition guest_step ::
  "build \<Rightarrow> 's host_source \<Rightarrow> Tick \<Rightarrow> 'g guest_action \<Rightarrow> cell \<Rightarrow> 's \<Rightarrow> ((quantum_fault + 'g) \<times> cell \<times> 's) run" where
  "guest_step b src t a c h =
     (case a of
        Compute g \<Rightarrow> Inr (Inr g, c, h)
      | Load p len k \<Rightarrow>
          and_then (guest_load (memory c) p len) (\<lambda>r.
            case r of
              Inl e \<Rightarrow> Inr (Inl (Memory e), c, h)
            | Inr bytes \<Rightarrow> Inr (Inr (k bytes), c, h))
      | Store p len bytes g \<Rightarrow>
          and_then (guest_store b (memory c) p len bytes) (\<lambda>r.
            case r of
              Inl e \<Rightarrow> Inr (Inl (Memory e), c, h)
            | Inr m \<Rightarrow> Inr (Inr g, c\<lparr>memory := m\<rparr>, h))
      | Grow d k \<Rightarrow>
          (case grow (memory c) d of
             Inl e \<Rightarrow> Inr (Inr (k (Inl e)), c, h)
           | Inr (n, m) \<Rightarrow> Inr (Inr (k (Inr n)), c\<lparr>memory := m\<rparr>, h))
      | Close_Fd fd k \<Rightarrow>
          (case close_fd (cell_fd_table c) fd of
             (h_fd, t') \<Rightarrow> Inr (Inr (k (h_fd \<noteq> None)), c\<lparr>cell_fd_table := t'\<rparr>, h))
      | Host q k \<Rightarrow>
          and_then (host_call (recorder_ops b) src (recorder c) (request_at t q) h) (\<lambda>(v, r, h').
            Inr (Inr (k v), c\<lparr>recorder := r\<rparr>, h'))
      | Fault f \<Rightarrow> Inr (Inl f, c, h))"

text \<open>A quantum: at most \<open>n\<close> actions; the result counts the executed ones.\<close>

fun quantum_loop ::
  "build \<Rightarrow> 's host_source \<Rightarrow> ('g \<Rightarrow> 'g guest_action) \<Rightarrow> Tick \<Rightarrow> nat \<Rightarrow> 'g \<Rightarrow> cell \<Rightarrow> 's
     \<Rightarrow> ((quantum_fault + nat) \<times> 'g \<times> cell \<times> 's) run" where
  "quantum_loop b src G t 0 g c h = Inr (Inr 0, g, c, h)"
| "quantum_loop b src G t (Suc n) g c h =
     and_then (guest_step b src t (G g) c h) (\<lambda>(r, c', h').
       case r of
         Inl f \<Rightarrow> Inr (Inl f, g, c', h')
       | Inr g' \<Rightarrow>
           and_then (quantum_loop b src G t n g' c' h') (\<lambda>(res, g'', c'', h'').
             Inr (map_sum id Suc res, g'', c'', h'')))"

text \<open>
  The executor. \<open>run_quantum\<close> is not given the tick, so the executor counts its dispatches,
  which is what the scheduler's clock counts. It keeps a state per tenant, the number of
  quanta so far and the host.
\<close>

definition hosted_executor ::
  "build \<Rightarrow> 's host_source \<Rightarrow> ('g \<Rightarrow> 'g guest_action) \<Rightarrow> ('g \<Rightarrow> mmap_guarded_memory \<Rightarrow> digest)
     \<Rightarrow> ((CellId \<Rightarrow> 'g) \<times> Tick \<times> 's) quantum_executor" where
  "hosted_executor b src G dg =
     \<lparr>run_quantum = (\<lambda>(gs, t, h) c n.
        let i = config_id (config c) in
        and_then (quantum_loop b src G (t + 1) (unat n) (gs i) c h) (\<lambda>(res, g, c', h').
          Inr (map_sum id of_nat res, (gs(i := g), t + 1, h'), c'))),
      execution_digest = (\<lambda>(gs, t, h) c. dg (gs (config_id (config c))) (memory c))\<rparr>"

subsection \<open>What an action may do to a cell\<close>

text \<open>The contract of an executor, as a relation between the memory before and after.\<close>

definition memory_kept :: "build \<Rightarrow> mmap_guarded_memory \<Rightarrow> mmap_guarded_memory \<Rightarrow> bool" where
  "memory_kept b m m' \<longleftrightarrow>
     mem_inv m' \<and> dirty_readable b m' \<and> base m' = base m \<and> mapped_len m' = mapped_len m \<and>
     quota_bytes m' = quota_bytes m \<and> pages (dirty m) \<subseteq> pages (dirty m') \<and>
     (\<forall>p. p \<notin> pages (dirty m') \<longrightarrow> page_content m' p = page_content m p) \<and>
     unat (size_bytes m) \<le> unat (size_bytes m') \<and> (PAGE_SIZE dvd unat (size_bytes m) \<longrightarrow> PAGE_SIZE dvd unat (size_bytes m'))"

lemma memory_kept_refl: "mem_inv m \<Longrightarrow> dirty_readable b m \<Longrightarrow> memory_kept b m m"
  by (simp add: memory_kept_def)

lemma memory_kept_trans:
  assumes "memory_kept b m1 m2" and "memory_kept b m2 m3"
  shows "memory_kept b m1 m3"
  using assms unfolding memory_kept_def by (metis order_trans subsetD)

lemma touched_pages_in_range:
  assumes "unat p + unat len \<le> unat (quota :: u32)" and "q \<in> set (touched_pages p len)"
  shows "unat q < quota_pages quota" and "unat q * PAGE_SIZE < unat p + unat len"
proof -
  obtain n where n: "q = of_nat n" "n \<le> (unat p + unat len - 1) div PAGE_SIZE" "len \<noteq> 0"
    using assms(2) by (auto simp: touched_pages_def split: if_splits)
  have l: "0 < unat len" using n(3) by (simp add: unat_gt_0)
  then have le: "n * PAGE_SIZE < unat p + unat len"
    using n(2) by (simp add: PAGE_SIZE_def)
  then have "n < 2 ^ 64" using assms(1) u32_less [of quota] by (simp add: PAGE_SIZE_def)
  then have q: "unat q = n" by (simp add: n(1) unat_of_nat take_bit_nat_eq_self)
  then show "unat q * PAGE_SIZE < unat p + unat len" using le by simp
  have "n * PAGE_SIZE < quota_pages quota * PAGE_SIZE"
    using le assms(1) quota_pages_bounds(1) [of quota] by linarith
  then show "unat q < quota_pages quota" using q by simp
qed

text \<open>The mapping after a store, by guest offset: what the access through the host pointer comes to.\<close>

definition write_region :: "mmap_guarded_memory \<Rightarrow> u32 \<Rightarrow> u32 \<Rightarrow> (nat \<Rightarrow> u8) \<Rightarrow> mmap_guarded_memory" where
  "write_region m p len bytes =
     m\<lparr>region := (\<lambda>k. if unat p \<le> k \<and> k < unat p + unat len then bytes (k - unat p) else region m k)\<rparr>"

lemma approved_access:
  assumes "mem_inv m" and "translate m p len = Inr a"
  shows "host_read m a (unat len) = Inr (map (\<lambda>i. region m (unat p + i)) [0..<unat len])"
    and "host_write m a (unat len) bytes = Inr (write_region m p len bytes)"
  using translate_range [OF assms]
  by (simp_all add: host_read_def host_write_def host_accessible_def write_region_def fun_eq_iff)

lemma guest_load_eq:
  assumes "mem_inv m"
  shows "guest_load m p len = Inr (
    if unat p + unat len \<le> unat (size_bytes m) then Inr (map (\<lambda>i. region m (unat p + i)) [0..<unat len])
    else Inl (OutOfBounds p len (size_bytes m)))"
  using approved_access(1) [OF assms, of p len] by (simp add: guest_load_def translate_eq)

lemma untouched_page:
  assumes "q \<notin> set (touched_pages p len)"
  shows "page_content (write_region m p len bytes) q = page_content m q"
proof -
  have "\<not> (unat p \<le> unat q * PAGE_SIZE + i \<and> unat q * PAGE_SIZE + i < unat p + unat len)" if i: "i < PAGE_SIZE" for i
  proof
    assume k: "unat p \<le> unat q * PAGE_SIZE + i \<and> unat q * PAGE_SIZE + i < unat p + unat len"
    have d: "(unat q * PAGE_SIZE + i) div PAGE_SIZE = unat q" using i by simp
    have "unat p div PAGE_SIZE \<le> unat q" using k d by (metis div_le_mono)
    moreover have "unat q * PAGE_SIZE + i \<le> unat p + unat len - 1" using k by linarith
    then have "unat q \<le> (unat p + unat len - 1) div PAGE_SIZE" using d by (metis div_le_mono)
    moreover have "len \<noteq> 0" using k by auto
    ultimately have "unat q \<in> {unat p div PAGE_SIZE ..< (unat p + unat len - 1) div PAGE_SIZE + 1}" by simp
    then have "of_nat (unat q) \<in> set (touched_pages p len)"
      using \<open>len \<noteq> 0\<close> unfolding touched_pages_def by (simp only: if_False set_map set_upt image_eqI)
    then show False using assms by simp
  qed
  then show ?thesis by (auto simp: page_content_def write_region_def)
qed

lemma mark_pages:
  assumes "mem_inv m" and "\<forall>q\<in>set qs. unat q < quota_pages (quota_bytes m)"
  shows "\<exists>d. fold_run (mark_dirty b) m qs = Inr (m\<lparr>dirty := d\<rparr>) \<and> mem_inv (m\<lparr>dirty := d\<rparr>) \<and>
    pages d = pages (dirty m) \<union> set qs"
  using assms
proof (induction qs arbitrary: m)
  case Nil
  then show ?case by (intro exI [of _ "dirty m"]) simp
next
  case (Cons q qs)
  obtain m1 where m1: "mark_dirty b m q = Inr m1" "mem_inv m1" "pages (dirty m1) = insert q (pages (dirty m))"
      "m1 = m\<lparr>dirty := dirty m1\<rparr>"
    using mark_dirty_inv [of m q b] Cons.prems by auto
  have "quota_bytes m1 = quota_bytes m" by (subst m1(4)) simp
  then obtain d where d: "fold_run (mark_dirty b) m1 qs = Inr (m1\<lparr>dirty := d\<rparr>)" "mem_inv (m1\<lparr>dirty := d\<rparr>)"
      "pages d = pages (dirty m1) \<union> set qs"
    using Cons.IH [OF m1(2)] Cons.prems(2) by auto
  have "m1\<lparr>dirty := d\<rparr> = m\<lparr>dirty := d\<rparr>" by (subst m1(4)) simp
  then show ?case using d m1(1,3) by (intro exI [of _ d]) simp
qed

lemma guest_store_cases:
  assumes "mem_inv m"
  obtains "unat (size_bytes m) < unat p + unat len" "guest_store b m p len bytes = Inr (Inl (OutOfBounds p len (size_bytes m)))"
  | d where "unat p + unat len \<le> unat (size_bytes m)"
      "guest_store b m p len bytes = Inr (Inr ((write_region m p len bytes)\<lparr>dirty := d\<rparr>))"
      "mem_inv ((write_region m p len bytes)\<lparr>dirty := d\<rparr>)" "pages d = pages (dirty m) \<union> set (touched_pages p len)"
proof (cases "unat p + unat len \<le> unat (size_bytes m)")
  case False
  then show thesis using that(1) by (simp add: guest_store_def translate_eq)
next
  case True
  let ?m = "write_region m p len bytes"
  have inv: "mem_inv ?m" using assms by (simp add: mem_inv_def write_region_def)
  have "unat p + unat len \<le> unat (quota_bytes m)" using True assms by (simp add: mem_inv_def word_le_nat_alt)
  then have "\<forall>q\<in>set (touched_pages p len). unat q < quota_pages (quota_bytes ?m)"
    using touched_pages_in_range(1) by (simp add: write_region_def)
  from mark_pages [OF inv this, of b] obtain d where "fold_run (mark_dirty b) ?m (touched_pages p len) = Inr (?m\<lparr>dirty := d\<rparr>)"
      "mem_inv (?m\<lparr>dirty := d\<rparr>)" "pages d = pages (dirty m) \<union> set (touched_pages p len)"
    by (auto simp: write_region_def)
  moreover have "translate m p len = Inr (base m + ucast p)" using True by (simp add: translate_eq)
  ultimately show thesis using that(2) True approved_access(2) [OF assms, of p len] by (simp add: guest_store_def)
qed

lemma guest_store_kept:
  assumes "mem_inv m" and "dirty_readable b m" and "b = Debug \<longrightarrow> PAGE_SIZE dvd unat (size_bytes m)"
    and "guest_store b' m p len bytes = Inr (Inr m')"
  shows "memory_kept b m m'"
proof (cases rule: guest_store_cases [OF assms(1), of p len b' bytes])
  case (2 d)
  let ?w = "write_region m p len bytes"
  have m': "m' = ?w\<lparr>dirty := d\<rparr>" using 2(2) assms(4) by simp
  have f: "base m' = base m" "mapped_len m' = mapped_len m" "quota_bytes m' = quota_bytes m" "size_bytes m' = size_bytes m"
      "dirty m' = d" "page_content m' = page_content ?w"
    by (simp_all add: m' write_region_def page_content_def fun_eq_iff)
  have le: "unat p + unat len \<le> unat (quota_bytes m)" using 2(1) assms(1) by (simp add: mem_inv_def word_le_nat_alt)
  have "(unat q + 1) * PAGE_SIZE \<le> unat (size_bytes m)" if q: "q \<in> set (touched_pages p len)" and "b = Debug" for q
  proof -
    obtain k where k: "unat (size_bytes m) = PAGE_SIZE * k" using assms(3) \<open>b = Debug\<close> by (elim impE dvdE)
    have "unat q * PAGE_SIZE < k * PAGE_SIZE" using touched_pages_in_range(2) [OF le q] 2(1) k by (metis mult.commute order_less_le_trans)
    then have "(unat q + 1) * PAGE_SIZE \<le> k * PAGE_SIZE" by (intro mult_le_mono1) simp
    then show ?thesis using k by (simp add: mult.commute)
  qed
  then have "dirty_readable b m'"
    using assms(2) touched_pages_in_range(1) [OF le] 2(4) unfolding dirty_readable_def f by blast
  moreover have "page_content m' q = page_content m q" if "q \<notin> pages (dirty m')" for q
    using untouched_page [of q p len m bytes] that 2(4) by (simp add: f)
  moreover have "mem_inv m'" using 2(3) m' by simp
  ultimately show ?thesis using 2(4) f(1-5) by (auto simp: memory_kept_def)
qed (use assms(4) in simp)

lemma grow_kept:
  assumes "mem_inv m" and "dirty_readable b m" and "grow m d = Inr (n, m')"
  shows "memory_kept b m m'"
proof -
  have m': "mem_inv m'" "region m' = region m" "dirty m' = dirty m"
      "unat (size_bytes m') = unat (size_bytes m) + unat d * PAGE_SIZE"
    using grow_inv [OF assms(1,3)] by blast+
  have f: "base m' = base m" "mapped_len m' = mapped_len m" "quota_bytes m' = quota_bytes m"
    using assms(3) by (auto simp: grow_eq split: if_splits)
  have "page_content m' = page_content m" by (simp add: page_content_def m'(2) fun_eq_iff)
  moreover have "dirty_readable b m'" using assms(2) m'(3,4) f(3) by (fastforce simp: dirty_readable_def)
  ultimately show ?thesis using m' f by (simp add: memory_kept_def)
qed

text \<open>
  What every action keeps of a cell, under whichever profile the executor itself is built (\<open>b'\<close>
  below); the recorder and the descriptor table are all else it may change.\<close>

definition cell_kept :: "build \<Rightarrow> cell \<Rightarrow> cell \<Rightarrow> bool" where
  "cell_kept b c c' \<longleftrightarrow>
     memory_kept b (memory c) (memory c') \<and> c' = c\<lparr>memory := memory c', recorder := recorder c', cell_fd_table := cell_fd_table c'\<rparr>"

definition guest_ready :: "build \<Rightarrow> cell \<Rightarrow> bool" where
  "guest_ready b c \<longleftrightarrow> mem_inv (memory c) \<and> dirty_readable b (memory c) \<and>
     (b = Debug \<longrightarrow> PAGE_SIZE dvd unat (size_bytes (memory c)))"

lemma cell_kept_trans:
  assumes "cell_kept b c1 c2" and "cell_kept b c2 c3"
  shows "cell_kept b c1 c3"
proof -
  have "c3 = c2\<lparr>memory := memory c3, recorder := recorder c3, cell_fd_table := cell_fd_table c3\<rparr>" using assms(2) by (simp add: cell_kept_def)
  also have "\<dots> = (c1\<lparr>memory := memory c2, recorder := recorder c2, cell_fd_table := cell_fd_table c2\<rparr>)
      \<lparr>memory := memory c3, recorder := recorder c3, cell_fd_table := cell_fd_table c3\<rparr>"
    using assms(1) by (metis cell_kept_def)
  also have "\<dots> = c1\<lparr>memory := memory c3, recorder := recorder c3, cell_fd_table := cell_fd_table c3\<rparr>" by simp
  finally show ?thesis using assms memory_kept_trans unfolding cell_kept_def by blast
qed

lemma cell_kept_ready: "guest_ready b c \<Longrightarrow> cell_kept b c c' \<Longrightarrow> guest_ready b c'"
  by (simp add: guest_ready_def cell_kept_def memory_kept_def)

lemma guest_step_kept:
  assumes "guest_ready b c" and "guest_step b' src t a c h = Inr (res, c', h')"
  shows "cell_kept b c c'"
proof -
  have ready: "mem_inv (memory c)" "dirty_readable b (memory c)" "b = Debug \<longrightarrow> PAGE_SIZE dvd unat (size_bytes (memory c))"
    using assms(1) by (simp_all add: guest_ready_def)
  note refl = memory_kept_refl [OF ready(1,2)]
  show ?thesis
  proof (cases a)
    case (Store p len bytes g)
    then obtain r where r: "guest_store b' (memory c) p len bytes = Inr r" using assms(2) by (auto simp: guest_step_def)
    then show ?thesis
      using assms(2) refl guest_store_kept [OF ready, of b' p len bytes] Store
      by (cases r) (auto simp: guest_step_def cell_kept_def)
  next
    case (Load p len k)
    then obtain r where "guest_load (memory c) p len = Inr r" using assms(2) by (auto simp: guest_step_def)
    then show ?thesis using assms(2) refl Load by (cases r) (auto simp: guest_step_def cell_kept_def)
  next
    case (Grow d k)
    then show ?thesis
      using assms(2) refl grow_kept [OF ready(1,2), of d]
      by (auto simp: guest_step_def cell_kept_def split: sum.splits)
  qed (use assms(2) refl in \<open>auto simp: guest_step_def cell_kept_def split: sum.splits prod.splits\<close>)
qed

lemma quantum_loop_kept:
  assumes "guest_ready b c" and "quantum_loop b' src G t n g c h = Inr (res, g', c', h')"
  shows "cell_kept b c c'"
  using assms
proof (induction n arbitrary: g c h res)
  case 0
  then show ?case by (simp add: cell_kept_def guest_ready_def memory_kept_refl)
next
  case (Suc n)
  obtain r c1 h1 where step: "guest_step b' src t (G g) c h = Inr (r, c1, h1)" using Suc.prems(2) by auto
  note kept = guest_step_kept [OF Suc.prems(1) step]
  show ?case
  proof (cases r)
    case (Inl f)
    then show ?thesis using Suc.prems(2) step kept by simp
  next
    case (Inr g1)
    then obtain res1 where "quantum_loop b' src G t n g1 c1 h1 = Inr (res1, g', c', h')"
      using Suc.prems(2) step by auto
    then show ?thesis using Suc.IH [OF cell_kept_ready [OF Suc.prems(1) kept]] cell_kept_trans [OF kept] by blast
  qed
qed

lemma hosted_quantum_kept:
  assumes "guest_ready b c" and "run_quantum (hosted_executor b' src G dg) x c n = Inr (res, x', c')"
  shows "cell_kept b c c'"
proof -
  obtain gs t h where x: "x = (gs, t, h)" using prod_cases3 by blast
  obtain r g h' where "quantum_loop b' src G (t + 1) (unat n) (gs (config_id (config c))) c h = Inr (r, g, c', h')"
    using assms(2) by (auto simp: hosted_executor_def x Let_def)
  then show ?thesis by (rule quantum_loop_kept [OF assms(1)])
qed

text \<open>
  In a release build nothing an action calls can panic on a well-formed memory: \<open>translate\<close>'s
  pointers stay inside the mapping, the pages of an approved store are inside the dirty
  set's capacity, and a recorder's ordinal wraps.
\<close>

lemma host_call_release: "\<exists>v r' h'. host_call (recorder_ops Release) src r q h = Inr (v, r', h')"
proof (cases q)
  case (ClockCall t)
  then show ?thesis
    by (simp add: wall_clock_now_def next_ordinal_def plus_build_def Let_def split: recorder_mode.split option.split recorded_value.split prod.split)
next
  case (RandomCall t buf)
  then show ?thesis
    by (simp add: random_bytes_def next_ordinal_def plus_build_def Let_def split: recorder_mode.split option.split recorded_value.split prod.split)
qed

lemma guest_store_returns:
  assumes "mem_inv m"
  obtains r where "guest_store b m p len bytes = Inr r"
  using guest_store_cases [OF assms, of p len b bytes] by metis

lemma guest_step_returns:
  assumes "mem_inv (memory c)"
  obtains res c' h' where "guest_step Release src t a c h = Inr (res, c', h')"
proof -
  have "\<exists>res c' h'. guest_step Release src t a c h = Inr (res, c', h')"
  proof (cases a)
    case (Store p len bytes g)
    obtain r where "guest_store Release (memory c) p len bytes = Inr r" by (rule guest_store_returns [OF assms])
    then show ?thesis using Store by (cases r) (simp_all add: guest_step_def)
  next
    case (Host q k)
    then show ?thesis using host_call_release [of src "recorder c" "request_at t q" h] by (auto simp: guest_step_def)
  qed (auto simp: guest_step_def guest_load_eq [OF assms] split: sum.split prod.split)
  then show thesis using that by blast
qed

lemma quantum_loop_returns:
  assumes "guest_ready Release c"
  obtains res g' c' h' where "quantum_loop Release src G t n g c h = Inr (res, g', c', h')"
proof -
  have "\<exists>q. quantum_loop Release src G t n g c h = Inr q"
    using assms
  proof (induction n arbitrary: g c h)
    case (Suc n)
    obtain r c1 h1 where step: "guest_step Release src t (G g) c h = Inr (r, c1, h1)"
      using guest_step_returns [of c src t "G g" h] Suc.prems by (auto simp: guest_ready_def)
    have "\<exists>q. quantum_loop Release src G t n g1 c1 h1 = Inr q" for g1
      by (rule Suc.IH [OF cell_kept_ready [OF Suc.prems guest_step_kept [OF Suc.prems step]]])
    then show ?case using step by (cases r) (auto, metis prod_cases4)
  qed simp
  then show thesis using that by (metis prod_cases4)
qed

lemma hosted_contract:
  fixes src :: "'s host_source" and G :: "'g \<Rightarrow> 'g guest_action"
  shows "executor_contract Release (hosted_executor Release src G dg)"
  unfolding executor_contract_def
proof (rule conjI; intro allI impI)
  fix x :: "(CellId \<Rightarrow> 'g) \<times> Tick \<times> 's" and n :: u64 and c :: cell
  assume "mem_inv (memory c)" and "dirty_readable Release (memory c)"
  then have ready: "guest_ready Release c" by (simp add: guest_ready_def)
  obtain gs t h where x: "x = (gs, t, h)" using prod_cases3 by blast
  obtain r g' c' h' where "quantum_loop Release src G (t + 1) (unat n) (gs (config_id (config c))) c h = Inr (r, g', c', h')"
    by (rule quantum_loop_returns [OF ready])
  then show "\<exists>q. run_quantum (hosted_executor Release src G dg) x c n = Inr q"
    by (simp add: hosted_executor_def x Let_def)
next
  fix x c n res x' c'
  assume run: "run_quantum (hosted_executor Release src G dg) x c n = Inr (res, x', c')"
    and "mem_inv (memory c)" and "dirty_readable Release (memory c)"
  then have "guest_ready Release c" by (simp add: guest_ready_def)
  from hosted_quantum_kept [OF this run]
  have m: "memory_kept Release (memory c) (memory c')" and c': "c' = c\<lparr>memory := memory c', recorder := recorder c', cell_fd_table := cell_fd_table c'\<rparr>"
    by (simp_all add: cell_kept_def)
  have "checkpoints c' = checkpoints c" "last_checkpoint_tick c' = last_checkpoint_tick c" "config c' = config c"
    by (subst c', simp)+
  with m show "mem_inv (memory c') \<and> dirty_readable Release (memory c') \<and>
        base (memory c') = base (memory c) \<and> mapped_len (memory c') = mapped_len (memory c) \<and>
        quota_bytes (memory c') = quota_bytes (memory c) \<and>
        pages (dirty (memory c)) \<subseteq> pages (dirty (memory c')) \<and>
        (\<forall>p. p \<notin> pages (dirty (memory c')) \<longrightarrow> page_content (memory c') p = page_content (memory c) p) \<and>
        checkpoints c' = checkpoints c \<and> last_checkpoint_tick c' = last_checkpoint_tick c \<and> config c' = config c"
    unfolding memory_kept_def by blast
qed


subsection \<open>Properties\<close>

lemma set_touched_pages:
  assumes "unat p + unat len < 2 ^ 64"
  shows "set (touched_pages p len) =
    {q. \<exists>k. unat p \<le> k \<and> k < unat p + unat len \<and> k div PAGE_SIZE = unat q}"
proof (intro set_eqI iffI CollectI)
  fix q assume "q \<in> set (touched_pages p len)"
  then obtain n where n: "q = of_nat n" "unat p div PAGE_SIZE \<le> n" "n \<le> (unat p + unat len - 1) div PAGE_SIZE" "len \<noteq> 0"
    by (auto simp: touched_pages_def split: if_splits)
  have l: "0 < unat len" using n(4) by (simp add: unat_gt_0)
  then have le: "n * PAGE_SIZE < unat p + unat len" using n(3) by (simp add: PAGE_SIZE_def)
  then have "n < 2 ^ 64" using assms by (simp add: PAGE_SIZE_def)
  then have q: "unat q = n" by (simp add: n(1) unat_of_nat take_bit_nat_eq_self)
  let ?k = "max (unat p) (n * PAGE_SIZE)"
  have "?k div PAGE_SIZE = n" using n(2) by (auto simp: max_def PAGE_SIZE_def)
  then show "\<exists>k. unat p \<le> k \<and> k < unat p + unat len \<and> k div PAGE_SIZE = unat q"
    using le l q by (intro exI [of _ ?k]) auto
next
  fix q :: u64 assume "q \<in> {q. \<exists>k. unat p \<le> k \<and> k < unat p + unat len \<and> k div PAGE_SIZE = unat q}"
  then obtain k where k: "unat p \<le> k" "k < unat p + unat len" "k div PAGE_SIZE = unat q" by blast
  have "unat p div PAGE_SIZE \<le> unat q" using div_le_mono [OF k(1), of PAGE_SIZE] k(3) by simp
  moreover have "k \<le> unat p + unat len - 1" using k(2) by simp
  then have "unat q \<le> (unat p + unat len - 1) div PAGE_SIZE" using div_le_mono k(3) by metis
  moreover have "len \<noteq> 0" using k(1,2) by auto
  ultimately have "unat q \<in> {unat p div PAGE_SIZE ..< (unat p + unat len - 1) div PAGE_SIZE + 1}" by simp
  then have "of_nat (unat q) \<in> set (touched_pages p len)"
    using \<open>len \<noteq> 0\<close> unfolding touched_pages_def by (simp only: if_False set_map set_upt image_eqI)
  then show "q \<in> set (touched_pages p len)" by simp
qed


text \<open>
  Property C30. A store through the pointer \<open>translate\<close> returns is what the checkpoint and
  the flush later see. Inside the committed size, writing the bytes at that host address and
  marking the pages stays inside the mapping and returns, in either build profile; afterwards
  \<open>page_bytes\<close> of every readable page gives the old page with exactly the bytes of the guest
  range \<open>[p, p + len)\<close> replaced, a load of the range gives the stored bytes back and a load of
  any disjoint range is as before, and \<open>iter_dirty\<close> lists, beside the pages marked
  before, exactly those that hold a byte of the range. Outside the committed size the store is
  an \<open>OutOfBounds\<close> fault and nothing is written.
\<close>

theorem guest_store_functional:
  assumes "mem_inv m"
  shows "if unat p + unat len \<le> unat (size_bytes m)
    then \<exists>m'. guest_store b m p len bytes = Inr (Inr m') \<and> mem_inv m' \<and>
      (\<forall>q. unat q < quota_pages (quota_bytes m) \<and> (b = Debug \<longrightarrow> (unat q + 1) * PAGE_SIZE \<le> unat (size_bytes m)) \<longrightarrow>
         (\<exists>old. page_bytes b m q = Inr old \<and>
            page_bytes b m' q = Inr (map (\<lambda>i. let k = unat q * PAGE_SIZE + i in
              if unat p \<le> k \<and> k < unat p + unat len then bytes (k - unat p) else old ! i) [0..<PAGE_SIZE]))) \<and>
      guest_load m' p len = Inr (Inr (map bytes [0..<unat len])) \<and>
      (\<forall>p' len'. unat p' + unat len' \<le> unat p \<or> unat p + unat len \<le> unat p' \<longrightarrow>
         guest_load m' p' len' = guest_load m p' len') \<and>
      set (iter_dirty (dirty_pages m')) = set (iter_dirty (dirty_pages m)) \<union>
        {q. \<exists>k. unat p \<le> k \<and> k < unat p + unat len \<and> k div PAGE_SIZE = unat q}
    else guest_store b m p len bytes = Inr (Inl (OutOfBounds p len (size_bytes m)))"
proof (cases rule: guest_store_cases [OF assms, of p len b bytes])
  case (2 d)
  let ?w = "write_region m p len bytes"
  let ?m' = "?w\<lparr>dirty := d\<rparr>"
  have same: "size_bytes ?m' = size_bytes m" "quota_bytes ?m' = quota_bytes m" "region ?m' = region ?w"
    by (simp_all add: write_region_def)
  have room: "unat p + unat len < 2 ^ 64" using 2(1) u32_less [of "size_bytes m"] by simp
  have load: "guest_load ?m' p len = Inr (Inr (map bytes [0..<unat len]))"
    using 2(1) by (simp add: guest_load_eq [OF 2(3)]) (simp add: write_region_def)
  have frame: "guest_load ?m' p' len' = guest_load m p' len'"
    if "unat p' + unat len' \<le> unat p \<or> unat p + unat len \<le> unat p'" for p' len'
    unfolding guest_load_eq [OF 2(3)] guest_load_eq [OF assms] same using that by (auto simp: write_region_def)
  have view: "\<exists>old. page_bytes b m q = Inr old \<and>
      page_bytes b ?m' q = Inr (map (\<lambda>i. let k = unat q * PAGE_SIZE + i in
        if unat p \<le> k \<and> k < unat p + unat len then bytes (k - unat p) else old ! i) [0..<PAGE_SIZE])"
    if "unat q < quota_pages (quota_bytes m) \<and> (b = Debug \<longrightarrow> (unat q + 1) * PAGE_SIZE \<le> unat (size_bytes m))" for q
    by (rule exI [of _ "page_content m q"])
      (use that page_bytes_eq [OF assms, of q b] page_bytes_eq [OF 2(3), of q b]
       in \<open>auto simp: same page_content_def, simp_all add: write_region_def Let_def\<close>)
  have "set (iter_dirty (dirty_pages ?m')) = set (iter_dirty (dirty_pages m)) \<union>
      {q. \<exists>k. unat p \<le> k \<and> k < unat p + unat len \<and> k div PAGE_SIZE = unat q}"
    using 2(3,4) assms by (simp add: dirty_pages_def mem_inv_def set_iter_dirty set_touched_pages [OF room])
  then show ?thesis using 2(1-3) load frame view by auto
qed simp

theorem guest_store_functional_witness:
  "\<exists>m m'. snd (new_MmapGuardedMemory Debug example_os 8192 65536) = Inr (Inr m) \<and>
     guest_store Debug m 4094 4 of_nat = Inr (Inr m') \<and> guest_load m' 4094 4 = Inr (Inr [0, 1, 2, 3]) \<and>
     set (iter_dirty (dirty_pages m')) = {0, 1} \<and> guest_store Debug m 8190 4 of_nat = Inr (Inl (OutOfBounds 8190 4 8192))"
proof -
  obtain m where m: "snd (new_MmapGuardedMemory Debug example_os 8192 65536) = Inr (Inr m)" "mem_inv m" "size_bytes m = 8192"
      "pages (dirty m) = {}"
    using example_memory [of 8192 65536 Debug] by auto
  note store = guest_store_functional [OF m(2), where b = Debug and bytes = of_nat]
  have "set (iter_dirty (dirty_pages m)) = {}" using m(2,4) by (simp add: dirty_pages_def set_iter_dirty mem_inv_def)
  then obtain m' where m': "guest_store Debug m 4094 4 of_nat = Inr (Inr m')" "guest_load m' 4094 4 = Inr (Inr (map of_nat [0..<unat (4 :: u32)]))"
      "set (iter_dirty (dirty_pages m')) = {q. \<exists>k. unat (4094 :: u32) \<le> k \<and> k < unat (4094 :: u32) + unat (4 :: u32) \<and> k div PAGE_SIZE = unat q}"
    using store [of 4094 4] m(3) by auto
  have "{q :: u64. \<exists>k. 4094 \<le> k \<and> k < 4094 + (4 :: nat) \<and> k div 4096 = unat q} = {0, 1}"
  proof (intro set_eqI iffI)
    fix q :: u64 assume "q \<in> {q :: u64. \<exists>k. 4094 \<le> k \<and> k < 4094 + (4 :: nat) \<and> k div 4096 = unat q}"
    then have "unat q = unat (0 :: u64) \<or> unat q = unat (1 :: u64)" by auto
    then show "q \<in> {0, 1}" unfolding word_unat_eq_iff [symmetric] by blast
  next
    fix q :: u64 assume "q \<in> {0, 1}"
    then show "q \<in> {q :: u64. \<exists>k. 4094 \<le> k \<and> k < 4094 + (4 :: nat) \<and> k div 4096 = unat q}"
      by (auto intro: exI [of _ "4094 :: nat"] exI [of _ "4096 :: nat"])
  qed
  then have "set (iter_dirty (dirty_pages m')) = {0, 1}" using m'(3) by (simp add: PAGE_SIZE_def)
  moreover have "map of_nat [0..<unat (4 :: u32)] = [0, 1, 2, 3 :: u8]" by (simp add: upt_rec)
  ultimately show ?thesis using m(1) m' store [of 8190 4] m(3) by auto
qed

text \<open>
  Property C8. No guest can bring the supervisor down. Whatever a guest computes, loads,
  stores, grows, closes, asks of the host or faults with, an executor that serves it through the
  interfaces, accessing memory through the pointers \<open>translate\<close> returns, never leaves the mapping
  and never panics in \<open>mark_dirty\<close> or the recorder, and it keeps the contract the supervisor
  relies on; so, in a release build, every cycle from every reachable state with a tick left
  returns and keeps the supervisor's invariant: readable, tracked memory, intact chains,
  disjoint mappings. A panic of the executor would be one of the cycle.
\<close>

theorem any_guest_supervised:
  fixes src :: "'s host_source" and G :: "'g \<Rightarrow> 'g guest_action"
  assumes "queue_sound api held" and "sup_reachable Release H api (hosted_executor Release src G dg) (s, x)"
    and "unat (current_tick_of (sup_scheduler s)) + 1 < 2 ^ 64"
  shows "executor_contract Release (hosted_executor Release src G dg) \<and> sup_inv Release H api held s \<and>
    (\<exists>r s' x'. run_one_cycle Release api od H (hosted_executor Release src G dg) s x = Inr (r, s', x') \<and>
      sup_inv Release H api held s')"
proof -
  have inv: "sup_inv Release H api held s" using sup_reachable_inv [OF hosted_contract assms(1,2)] by simp
  with run_one_cycle_inv [OF inv hosted_contract assms(1,3)] hosted_contract show ?thesis by blast
qed

text \<open>A guest that reads the clock, stores what it read and asks for a random byte, in turn.\<close>

datatype example_guest = Awake | Seen u64 | Stored | Served u64

fun example_guest_action :: "example_guest \<Rightarrow> example_guest guest_action" where
  "example_guest_action Awake =
     Host Ask_Clock (\<lambda>v. case v of Inr (RecordedClock n) \<Rightarrow> Seen n | _ \<Rightarrow> Awake)"
| "example_guest_action (Seen n) = Store 0 1 (\<lambda>_. ucast n) Stored"
| "example_guest_action Stored =
     Host (Ask_Random [0]) (\<lambda>v. case v of Inr (RecordedRandom [w]) \<Rightarrow> Served (ucast w) | _ \<Rightarrow> Awake)"
| "example_guest_action (Served n) = Compute Awake"

definition example_guest_digest :: "example_guest \<Rightarrow> mmap_guarded_memory \<Rightarrow> digest" where
  "example_guest_digest g m = replicate 32 (case g of Seen n \<Rightarrow> ucast n | Served n \<Rightarrow> ucast n | _ \<Rightarrow> 0)"

theorem any_guest_supervised_witness:
  "\<exists>s r s' x'. dom (cells s) = {1, 2} \<and>
     run_one_cycle Release example_queue reverse_order example_hash
       (hosted_executor Release example_host example_guest_action example_guest_digest) s (\<lambda>_. Awake, 0, 1000) = Inr (r, s', x') \<and>
     sup_inv Release example_hash example_queue snd s'"
proof -
  let ?X = "hosted_executor Release example_host example_guest_action example_guest_digest"
  obtain s c d where s: "\<forall>x. sup_reachable Release example_hash example_queue ?X (s, x)" "cells s = [1 \<mapsto> c, 2 \<mapsto> d]"
      "current_tick_of (sup_scheduler s) = 0"
    by (rule example_tenants [of 4 Release example_hash ?X]) simp_all
  have "dom (cells s) = {1, 2}" using s(2) by auto
  moreover have "unat (current_tick_of (sup_scheduler s)) + 1 < 2 ^ 64" using s(3) by simp
  ultimately show ?thesis
    using any_guest_supervised [OF example_queue_sound spec [OF s(1), of "(\<lambda>_. Awake, 0, 1000)"], of reverse_order]
    by blast
qed

end
