(* ===== verification/Supervised_Replay.thy ===== *)
theory Supervised_Replay
  imports Determinism Guest_Execution
begin

section \<open>Replay of whole supervisor runs\<close>

text \<open>
  The design goal of the system: given the recorded events, another host produces the same
  heap and register state at every checkpoint. The recorder (Event_Log), the guest's use
  of it (Guest_Execution) and the supervisor's cycles (Supervisor, Determinism) are put
  together: a run in record mode is followed by a run from the same initial state whose recorders
  hold the exported logs, on another host.
\<close>

subsection \<open>One host call\<close>

text \<open>The key the next call at tick \<open>t\<close> uses.\<close>

definition next_key :: "event_recorder \<Rightarrow> Tick \<Rightarrow> event_key" where
  "next_key r t = EventKey t (if t = current_tick r then current_ordinal r else 0)"

text \<open>
  A recorder inside a quantum at tick \<open>t\<close> of at most \<open>N\<close> actions, of which \<open>n\<close> are left: its log
  holds keys before the next one only.
\<close>

definition recording :: "nat \<Rightarrow> Tick \<Rightarrow> nat \<Rightarrow> event_recorder \<Rightarrow> bool" where
  "recording N t n r \<longleftrightarrow>
     mode r = Record \<and> hm_inv (log r) \<and> current_tick r \<le> t \<and> unat (current_ordinal r) \<le> N \<and>
     unat (call_ordinal (next_key r t)) + n \<le> N \<and> (\<forall>k v. hm_get (log r) k = Some v \<longrightarrow> k < next_key r t)"

text \<open>A replaying recorder at the same position.\<close>

definition follows :: "event_recorder \<Rightarrow> event_recorder \<Rightarrow> bool" where
  "follows r rr \<longleftrightarrow> mode rr = Replay \<and> current_tick rr = current_tick r \<and> current_ordinal rr = current_ordinal r"

lemma call_tick_request_at [simp]: "call_tick (request_at t q) = t"
  by (cases q) simp_all

lemma key_at_request [simp]: "key_at (current_tick r) (current_ordinal r) (request_at t q) = next_key r t"
  by (simp add: key_at_def next_key_def)

lemma key_tick_next_key [simp]: "key_tick (next_key r t) = t"
  by (simp add: next_key_def)

lemma recording_mono: "recording N t n r \<Longrightarrow> m \<le> n \<Longrightarrow> recording N t m r"
  by (auto simp: recording_def)

lemma host_call_records:
  assumes "recording N t (Suc n) r" and "random_fills src" and "N + 1 < 2 ^ 64"
  obtains v r' h' where "host_call (recorder_ops b) src r (request_at t q) h = Inr (Inr v, r', h')"
    and "answers (request_at t q) v" and "recording N t n r'"
    and "hm_get (log r') = (hm_get (log r))(next_key r t \<mapsto> v)" and "hm_get (log r) (next_key r t) = None"
    and "current_tick r' = t" and "current_ordinal r' = call_ordinal (next_key r t) + 1"
proof -
  have r: "mode r = Record" "hm_inv (log r)" "unat (current_ordinal r) \<le> N"
      "unat (call_ordinal (next_key r t)) + Suc n \<le> N" "\<And>k v. hm_get (log r) k = Some v \<Longrightarrow> k < next_key r t"
    using assms(1) by (auto simp: recording_def)
  then have room: "unat (current_ordinal r) + 1 < 2 ^ 64" "unat (call_ordinal (next_key r t)) + 1 < 2 ^ 64"
    using assms(3) by simp_all
  obtain v r' h' where v: "host_call (recorder_ops b) src r (request_at t q) h = Inr (Inr v, r', h')"
      "answers (request_at t q) v" "mode r' \<noteq> Replay" "hm_get (log r') = (hm_get (log r))(next_key r t \<mapsto> v)"
      "current_tick r' = t" "current_ordinal r' = call_ordinal (next_key r t) + 1"
    using recorder.record_call [of r src b "request_at t q" h] r(1) assms(2) room(1) by auto
  have inv: "hm_inv (log r') \<and> mode r' = mode r" by (rule host_call_inv [OF v(1) r(2)])
  have ord: "unat (call_ordinal (next_key r t) + 1) = unat (call_ordinal (next_key r t)) + 1"
    by (rule unat_Suc_small) (use room(2) in simp)
  have key: "next_key r' t = EventKey t (call_ordinal (next_key r t) + 1)" using v(5,6) by (simp add: next_key_def)
  have lt: "next_key r t < next_key r' t" by (simp add: key less_event_key_def word_less_nat_alt ord)
  have "k < next_key r' t" if "hm_get (log r') k = Some w" for k w
    using that v(4) lt by (cases "k = next_key r t") (auto intro: less_trans [OF r(5) lt])
  then have rec: "recording N t n r'" using inv r(1,4) v(5,6) ord key by (simp add: recording_def)
  have "hm_get (log r) (next_key r t) = None" using r(5) by (cases "hm_get (log r) (next_key r t)") auto
  then show thesis using that v(1,2,4-6) rec by blast
qed

lemma host_call_replays:
  assumes "follows r rr" and "unat (current_ordinal r) + 1 < 2 ^ 64" and "hm_get (log rr) (next_key r t) = Some v"
    and "answers (request_at t q) v"
  obtains rr' where "host_call (recorder_ops b) src rr (request_at t q) h = Inr (Inr v, rr', h)"
    and "mode rr' = Replay" and "hm_get (log rr') = hm_get (log rr)" and "current_tick rr' = t"
    and "current_ordinal rr' = call_ordinal (next_key r t) + 1"
proof -
  have "next_key rr t = next_key r t" using assms(1) by (simp add: follows_def next_key_def)
  then show thesis
    using that recorder.replay_call [of rr b src "request_at t q" h] assms by (auto simp: follows_def replay_answer_def)
qed

subsection \<open>One quantum\<close>

text \<open>Only host calls read or change the recorder.\<close>

lemma guest_step_recorder:
  assumes "\<nexists>q k. a = Host q k" and "guest_step b src t a c h = Inr (res, c', h')"
  shows "recorder c' = recorder c"
proof (cases a)
  case (Load p len k)
  then obtain r where "guest_load (memory c) p len = Inr r" using assms(2) by (auto simp: guest_step_def)
  then show ?thesis using assms(2) Load by (cases r) (auto simp: guest_step_def)
next
  case (Store p len bytes g)
  then obtain r where "guest_store b (memory c) p len bytes = Inr r" using assms(2) by (auto simp: guest_step_def)
  then show ?thesis using assms(2) Store by (cases r) (auto simp: guest_step_def)
qed (use assms in \<open>auto simp: guest_step_def split: sum.splits prod.splits\<close>)

lemma guest_step_other_recorder:
  assumes "\<nexists>q k. a = Host q k"
  shows "guest_step b src' t a (c\<lparr>recorder := rr\<rparr>) u =
    and_then (guest_step b src t a c h) (\<lambda>(res, c', h'). Inr (res, c'\<lparr>recorder := rr\<rparr>, u))"
proof (cases a)
  case (Load p len k)
  then show ?thesis
    by (cases "guest_load (memory c) p len") (auto simp: guest_step_def split: sum.split)
next
  case (Store p len bytes g)
  then show ?thesis
    by (cases "guest_store b (memory c) p len bytes") (auto simp: guest_step_def split: sum.split)
qed (use assms in \<open>auto simp: guest_step_def split: sum.split prod.split\<close>)

lemma guest_step_records:
  assumes "recording N t (Suc n) (recorder c)" and "random_fills src" and "N + 1 < 2 ^ 64"
    and "guest_step b src t a c h = Inr (res, c', h')"
  shows "recording N t n (recorder c')" and "hm_get (log (recorder c)) \<subseteq>\<^sub>m hm_get (log (recorder c'))"
proof -
  have "recording N t n (recorder c') \<and> hm_get (log (recorder c)) \<subseteq>\<^sub>m hm_get (log (recorder c'))"
  proof (cases "\<exists>q k. a = Host q k")
    case True
    then obtain q k where a: "a = Host q k" by blast
    obtain v r' h1 where v: "host_call (recorder_ops b) src (recorder c) (request_at t q) h = Inr (Inr v, r', h1)"
        "recording N t n r'" "hm_get (log r') = (hm_get (log (recorder c)))(next_key (recorder c) t \<mapsto> v)"
        "hm_get (log (recorder c)) (next_key (recorder c) t) = None"
      by (rule host_call_records [OF assms(1-3), of b q h])
    have "recorder c' = r'" using assms(4) v(1) by (auto simp: guest_step_def a)
    then show ?thesis using v(2-4) by (auto simp: map_le_def)
  next
    case False
    then have "recorder c' = recorder c" by (rule guest_step_recorder [OF _ assms(4)])
    then show ?thesis using recording_mono [OF assms(1), of n] by simp
  qed
  then show "recording N t n (recorder c')" "hm_get (log (recorder c)) \<subseteq>\<^sub>m hm_get (log (recorder c'))" by blast+
qed

lemma guest_step_replays:
  assumes "recording N t (Suc n) (recorder c)" and "random_fills src" and "N + 1 < 2 ^ 64"
    and "guest_step b src t a c h = Inr (res, c', h')"
    and "follows (recorder c) rr" and "hm_get (log (recorder c')) \<subseteq>\<^sub>m hm_get (log rr)"
  obtains rr' where "guest_step b src' t a (c\<lparr>recorder := rr\<rparr>) u = Inr (res, c'\<lparr>recorder := rr'\<rparr>, u)"
    and "follows (recorder c') rr'" and "hm_get (log rr') = hm_get (log rr)"
proof (cases "\<exists>q k. a = Host q k")
  case True
  then obtain q k where a: "a = Host q k" by blast
  obtain v r' h1 where v: "host_call (recorder_ops b) src (recorder c) (request_at t q) h = Inr (Inr v, r', h1)"
      "answers (request_at t q) v" "hm_get (log r') = (hm_get (log (recorder c)))(next_key (recorder c) t \<mapsto> v)"
      "current_tick r' = t" "current_ordinal r' = call_ordinal (next_key (recorder c) t) + 1"
    by (rule host_call_records [OF assms(1-3), of b q h])
  have c': "res = Inr (k (Inr v))" "c' = c\<lparr>recorder := r'\<rparr>" using assms(4) v(1) by (simp_all add: guest_step_def a)
  have "hm_get (log rr) (next_key (recorder c) t) = Some v"
    using assms(6) v(3) by (auto simp: c' map_le_def)
  moreover have "unat (current_ordinal (recorder c)) + 1 < 2 ^ 64" using assms(1,3) by (simp add: recording_def)
  ultimately obtain rr' where "host_call (recorder_ops b) src' rr (request_at t q) u = Inr (Inr v, rr', u)"
      "mode rr' = Replay" "hm_get (log rr') = hm_get (log rr)" "current_tick rr' = t"
      "current_ordinal rr' = call_ordinal (next_key (recorder c) t) + 1"
    using host_call_replays [OF assms(5) _ _ v(2), where b = b and src = src' and h = u] by blast
  then show thesis using that [of rr'] v(4,5) by (simp add: guest_step_def a c' follows_def)
next
  case False
  then have "guest_step b src' t a (c\<lparr>recorder := rr\<rparr>) u = Inr (res, c'\<lparr>recorder := rr\<rparr>, u) \<and> recorder c' = recorder c"
    using guest_step_other_recorder [OF False, of b src' t rr c u src h] assms(4) guest_step_recorder [OF False assms(4)] by simp
  then show thesis using that [of rr] assms(5) by simp
qed


lemma quantum_loop_records:
  assumes "recording N t n (recorder c)" and "random_fills src" and "N + 1 < 2 ^ 64"
    and "quantum_loop b src G t n g c h = Inr (res, g', c', h')"
  shows "recording N t 0 (recorder c') \<and> hm_get (log (recorder c)) \<subseteq>\<^sub>m hm_get (log (recorder c'))"
  using assms(1,4)
proof (induction n arbitrary: g c h res)
  case (Suc n)
  obtain r c1 h1 where step: "guest_step b src t (G g) c h = Inr (r, c1, h1)" using Suc.prems(2) by auto
  note one = guest_step_records [OF Suc.prems(1) assms(2,3) step]
  show ?case
  proof (cases r)
    case (Inl f)
    then show ?thesis using Suc.prems(2) step one recording_mono by auto
  next
    case (Inr g1)
    then obtain res1 where "quantum_loop b src G t n g1 c1 h1 = Inr (res1, g', c', h')"
      using Suc.prems(2) step by auto
    from Suc.IH [OF one(1) this] one(2) show ?thesis using map_le_trans by blast
  qed
qed simp

lemma quantum_loop_replays:
  assumes "recording N t n (recorder c)" and "random_fills src" and "N + 1 < 2 ^ 64"
    and "quantum_loop b src G t n g c h = Inr (res, g', c', h')"
    and "follows (recorder c) rr" and "hm_get (log (recorder c')) \<subseteq>\<^sub>m hm_get (log rr)"
  shows "\<exists>rr'. quantum_loop b src' G t n g (c\<lparr>recorder := rr\<rparr>) u = Inr (res, g', c'\<lparr>recorder := rr'\<rparr>, u) \<and>
    follows (recorder c') rr' \<and> hm_get (log rr') = hm_get (log rr)"
  using assms(1,4-6)
proof (induction n arbitrary: g c h res rr)
  case (Suc n)
  obtain r c1 h1 where step: "guest_step b src t (G g) c h = Inr (r, c1, h1)" using Suc.prems(2) by auto
  note one = guest_step_records [OF Suc.prems(1) assms(2,3) step]
  show ?case
  proof (cases r)
    case (Inl f)
    then have c1: "c1 = c'" "res = Inl f" "g' = g" using Suc.prems(2) step by simp_all
    obtain rr' where "guest_step b src' t (G g) (c\<lparr>recorder := rr\<rparr>) u = Inr (r, c1\<lparr>recorder := rr'\<rparr>, u)"
        "follows (recorder c1) rr'" "hm_get (log rr') = hm_get (log rr)"
      by (rule guest_step_replays [OF Suc.prems(1) assms(2,3) step Suc.prems(3), of src' u]) (use Suc.prems(4) c1 in simp_all)
    then show ?thesis using Inl c1 by (intro exI [of _ rr']) simp
  next
    case (Inr g1)
    then obtain res1 where loop: "quantum_loop b src G t n g1 c1 h1 = Inr (res1, g', c', h')" "res = map_sum id Suc res1"
      using Suc.prems(2) step by auto
    have "hm_get (log (recorder c1)) \<subseteq>\<^sub>m hm_get (log (recorder c'))"
      using quantum_loop_records [OF one(1) assms(2,3) loop(1)] by blast
    then have le: "hm_get (log (recorder c1)) \<subseteq>\<^sub>m hm_get (log rr)" using Suc.prems(4) by (rule map_le_trans)
    obtain rr1 where rr1: "guest_step b src' t (G g) (c\<lparr>recorder := rr\<rparr>) u = Inr (r, c1\<lparr>recorder := rr1\<rparr>, u)"
        "follows (recorder c1) rr1" "hm_get (log rr1) = hm_get (log rr)"
      by (rule guest_step_replays [OF Suc.prems(1) assms(2,3) step Suc.prems(3) le, of src' u])
    obtain rr' where "quantum_loop b src' G t n g1 (c1\<lparr>recorder := rr1\<rparr>) u = Inr (res1, g', c'\<lparr>recorder := rr'\<rparr>, u)"
        "follows (recorder c') rr'" "hm_get (log rr') = hm_get (log rr)"
      using Suc.IH [OF one(1) loop(1) rr1(2)] Suc.prems(4) rr1(3) by auto
    then show ?thesis using Inr rr1(1) loop(2) by (intro exI [of _ rr']) simp
  qed
qed (auto simp: follows_def)

text \<open>A recorder between quanta, after all ticks up to \<open>t\<close>.\<close>

definition recorded_to :: "nat \<Rightarrow> Tick \<Rightarrow> event_recorder \<Rightarrow> bool" where
  "recorded_to N t r \<longleftrightarrow>
     mode r = Record \<and> hm_inv (log r) \<and> current_tick r \<le> t \<and> unat (current_ordinal r) \<le> N \<and>
     (\<forall>k v. hm_get (log r) k = Some v \<longrightarrow> key_tick k \<le> t)"

lemma recorded_to_fresh: "recorded_to N t (new_EventRecorder Record)"
  by (simp add: recorded_to_def hm_inv_def hm_get_def)

lemma recorded_to_mono: "recorded_to N t r \<Longrightarrow> t \<le> t' \<Longrightarrow> recorded_to N t' r"
  unfolding recorded_to_def by (meson order_trans)

lemma recorded_to_start:
  assumes "recorded_to N t r" and "t < t'"
  shows "recording N t' N r"
proof -
  have "current_tick r < t'" using assms by (auto simp: recorded_to_def)
  then have key: "next_key r t' = EventKey t' 0" by (auto simp: next_key_def)
  have "k < EventKey t' 0" if "hm_get (log r) k = Some v" for k v
    using that assms by (auto simp: recorded_to_def less_event_key_def intro: le_less_trans)
  then show ?thesis using assms(1) \<open>current_tick r < t'\<close> by (simp add: recorded_to_def recording_def key)
qed

lemma recording_end: "recording N t n r \<Longrightarrow> recorded_to N t r"
  unfolding recording_def recorded_to_def by (fastforce simp: less_event_key_def next_key_def)


subsection \<open>One cycle\<close>

text \<open>A supervisor with other recorders in its cells.\<close>

definition set_recorders :: "(CellId \<Rightarrow> event_recorder) \<Rightarrow> 'q supervisor \<Rightarrow> 'q supervisor" where
  "set_recorders f s = s\<lparr>cells := (\<lambda>i. map_option (\<lambda>c. c\<lparr>recorder := f i\<rparr>) (cells s i))\<rparr>"

lemma set_recorders_simps [simp]:
  "sup_scheduler (set_recorders f s) = sup_scheduler s" "replication (set_recorders f s) = replication s"
  "max_instructions_per_quantum (set_recorders f s) = max_instructions_per_quantum s"
  "cells (set_recorders f s) i = map_option (\<lambda>c. c\<lparr>recorder := f i\<rparr>) (cells s i)"
  "set_recorders f (s\<lparr>sup_scheduler := sch\<rparr>) = (set_recorders f s)\<lparr>sup_scheduler := sch\<rparr>"
  "set_recorders f (s\<lparr>replication := rep\<rparr>) = (set_recorders f s)\<lparr>replication := rep\<rparr>"
  by (simp_all add: set_recorders_def)

lemma set_recorders_update [simp]:
  "set_recorders (f(i := r)) (s\<lparr>cells := (cells s)(i \<mapsto> c)\<rparr>) =
     (set_recorders f s)\<lparr>cells := (cells (set_recorders f s))(i \<mapsto> c\<lparr>recorder := r\<rparr>)\<rparr>"
  by (simp add: set_recorders_def fun_eq_iff)

lemma recorder_frame [simp]:
  "memory (c\<lparr>recorder := r\<rparr>) = memory c" "clear_cell_dirty_pages (c\<lparr>recorder := r\<rparr>) = (clear_cell_dirty_pages c)\<lparr>recorder := r\<rparr>"
  "quantum_cell (c\<lparr>recorder := r\<rparr>) = (quantum_cell c)\<lparr>recorder := r\<rparr>" "checkpoint_due (c\<lparr>recorder := r\<rparr>) t = checkpoint_due c t"
  "recorder (clear_cell_dirty_pages c) = recorder c" "recorder (quantum_cell c) = recorder c"
  by (simp_all add: clear_cell_dirty_pages_def quantum_cell_def checkpoint_due_def)

text \<open>Checkpoint and flush neither read nor change a recorder.\<close>

lemma flush_set_recorders:
  assumes "checkpoint_and_flush b api od H reg i t s c = Inr (r, s')"
  shows "checkpoint_and_flush b api od H reg i t (set_recorders f s) (c\<lparr>recorder := rr\<rparr>) =
      Inr (r, set_recorders (f(i := rr)) s')"
    and "\<exists>d. cells s' = (cells s)(i \<mapsto> d) \<and> recorder d = recorder c"
    and "max_instructions_per_quantum s' = max_instructions_per_quantum s"
proof -
  obtain e chain where cp: "checkpoint od H (checkpoints c) t (page_bytes b (memory c)) (dirty_pages (memory c)) reg = Inr (e, chain)"
    using assms by (auto simp: checkpoint_and_flush_def Let_def)
  let ?c1 = "c\<lparr>checkpoints := chain, last_checkpoint_tick := t\<rparr>"
  have upd: "set_recorders (f(i := rr)) (s\<lparr>cells := (cells s)(i \<mapsto> d), replication := rep\<rparr>) =
      (set_recorders f s)\<lparr>cells := (cells (set_recorders f s))(i \<mapsto> d\<lparr>recorder := rr\<rparr>), replication := rep\<rparr>" for d rep
    by (simp add: set_recorders_def fun_eq_iff)
  have c1: "c\<lparr>recorder := rr, checkpoints := chain, last_checkpoint_tick := t\<rparr> = ?c1\<lparr>recorder := rr\<rparr>" by simp
  have one: "\<exists>d. (cells s)(i \<mapsto> c0) = (cells s)(i \<mapsto> d) \<and> recorder d = recorder c" if "recorder c0 = recorder c" for c0
    using that by blast
  have "checkpoint_and_flush b api od H reg i t (set_recorders f s) (c\<lparr>recorder := rr\<rparr>) =
      Inr (r, set_recorders (f(i := rr)) s') \<and>
    (\<exists>d. cells s' = (cells s)(i \<mapsto> d) \<and> recorder d = recorder c) \<and>
    max_instructions_per_quantum s' = max_instructions_per_quantum s"
  proof (cases "replication s")
    case None
    then have "r = Inr ()" "s' = s\<lparr>cells := (cells s)(i \<mapsto> clear_cell_dirty_pages ?c1)\<rparr>"
      using assms by (simp_all add: checkpoint_and_flush_def cp Let_def)
    then show ?thesis
      using None one by (simp add: checkpoint_and_flush_def cp Let_def c1)
  next
    case (Some rg)
    then obtain ds where ds: "raw_deltas (page_bytes b (memory c)) (iter_dirty (dirty_pages (memory c))) = Inr ds"
      using assms by (auto simp: checkpoint_and_flush_def cp Let_def)
    obtain res rg' where p: "push_ring api rg \<lparr>batch_tick = t, deltas = ds\<rparr> = (res, rg')" by fastforce
    show ?thesis
    proof (cases res)
      case (Inl e)
      then have "r = Inl (ReplicationBackpressure i e)" "s' = s\<lparr>cells := (cells s)(i \<mapsto> ?c1), replication := Some rg'\<rparr>"
        using assms Some ds p by (simp_all add: checkpoint_and_flush_def cp Let_def)
      then show ?thesis using Inl Some ds p one by (simp add: checkpoint_and_flush_def cp Let_def upd c1)
    next
      case (Inr e)
      then have "r = Inr ()" "s' = s\<lparr>cells := (cells s)(i \<mapsto> clear_cell_dirty_pages ?c1), replication := Some rg'\<rparr>"
        using assms Some ds p by (simp_all add: checkpoint_and_flush_def cp Let_def)
      then show ?thesis using Inr Some ds p one by (simp add: checkpoint_and_flush_def cp Let_def upd c1)
    qed
  qed
  then show "checkpoint_and_flush b api od H reg i t (set_recorders f s) (c\<lparr>recorder := rr\<rparr>) =
      Inr (r, set_recorders (f(i := rr)) s')"
    "\<exists>d. cells s' = (cells s)(i \<mapsto> d) \<and> recorder d = recorder c"
    "max_instructions_per_quantum s' = max_instructions_per_quantum s"
    by blast+
qed

text \<open>
  A cycle of one executor on \<open>s\<close> and a cycle of another on \<open>s\<close> with other recorders agree when
  the two quanta do.
\<close>

lemma cycle_set_recorders:
  fixes s :: "'q supervisor"
  assumes ord: "order (sup_scheduler s) = i # is" and room: "unat (current_tick_of (sup_scheduler s)) + 1 < 2 ^ 64"
    and c: "cells s i = Some c" and inv: "cell_inv b H c'"
    and q: "run_quantum X x (quantum_cell c) (max_instructions_per_quantum s) = Inr (res, x', c')"
    and q2: "run_quantum Y y ((quantum_cell c)\<lparr>recorder := f i\<rparr>) (max_instructions_per_quantum s) = Inr (res, y', c'\<lparr>recorder := rr\<rparr>)"
    and dg: "execution_digest Y y' (c'\<lparr>recorder := rr\<rparr>) = execution_digest X x' c'"
    and run: "run_one_cycle b api od H X s x = Inr (r, s', x'')"
  shows "x'' = x' \<and> run_one_cycle b api od' H Y (set_recorders f s) y = Inr (r, set_recorders (f(i := rr)) s', y') \<and>
    (\<exists>d. cells s' = (cells s)(i \<mapsto> d) \<and> recorder d = recorder c') \<and>
    max_instructions_per_quantum s' = max_instructions_per_quantum s"
proof -
  let ?t = "current_tick_of (sup_scheduler s) + 1" and ?S = "set_recorders f s"
  obtain sch where sch: "order sch = is @ [i]" "current_tick_of sch = ?t"
    and eq: "run_one_cycle b api od H X s x =
      (let s1 = s\<lparr>sup_scheduler := sch\<rparr> in
       if isl res \<or> \<not> checkpoint_due c ?t
       then Inr (Inr (Some (i, ?t)), s1\<lparr>cells := (cells s)(i \<mapsto> c')\<rparr>, x')
       else and_then (checkpoint_and_flush b api od H (execution_digest X x' c') i ?t s1 c') (\<lambda>(r, s2).
              case r of Inl e \<Rightarrow> Inr (Inl e, s2, x') | Inr _ \<Rightarrow> Inr (Inr (Some (i, ?t)), s2, x')))"
    by (rule run_one_cycle_eq [OF ord room c q refl])
  have S: "order (sup_scheduler ?S) = i # is" "unat (current_tick_of (sup_scheduler ?S)) + 1 < 2 ^ 64"
      "cells ?S i = Some (c\<lparr>recorder := f i\<rparr>)"
      "run_quantum Y y (quantum_cell (c\<lparr>recorder := f i\<rparr>)) (max_instructions_per_quantum ?S) = Inr (res, y', c'\<lparr>recorder := rr\<rparr>)"
    using ord room c q2 by simp_all
  obtain sch2 where sch2: "order sch2 = is @ [i]" "current_tick_of sch2 = ?t"
    and eq2: "run_one_cycle b api od' H Y ?S y =
      (let s1 = ?S\<lparr>sup_scheduler := sch2\<rparr> in
       if isl res \<or> \<not> checkpoint_due (c\<lparr>recorder := f i\<rparr>) ?t
       then Inr (Inr (Some (i, ?t)), s1\<lparr>cells := (cells ?S)(i \<mapsto> c'\<lparr>recorder := rr\<rparr>)\<rparr>, y')
       else and_then (checkpoint_and_flush b api od' H (execution_digest Y y' (c'\<lparr>recorder := rr\<rparr>)) i ?t s1 (c'\<lparr>recorder := rr\<rparr>)) (\<lambda>(r, s2).
              case r of Inl e \<Rightarrow> Inr (Inl e, s2, y') | Inr _ \<Rightarrow> Inr (Inr (Some (i, ?t)), s2, y')))"
    by (rule run_one_cycle_eq [OF S, of ?t]) simp_all
  have sch_eq: "sch2 = sch" using sch sch2 by (intro scheduler_eqI) simp_all
  let ?s1 = "s\<lparr>sup_scheduler := sch\<rparr>"
  show ?thesis
  proof (cases "isl res \<or> \<not> checkpoint_due c ?t")
    case True
    then have "r = Inr (Some (i, ?t))" "s' = ?s1\<lparr>cells := (cells ?s1)(i \<mapsto> c')\<rparr>" "x'' = x'"
      using run eq by (simp_all add: Let_def)
    then show ?thesis using True eq2 sch_eq by (simp add: Let_def del: recorder_frame(1)) (simp add: set_recorders_def fun_eq_iff)
  next
    case False
    obtain r1 s2 where f0: "checkpoint_and_flush b api od H (execution_digest X x' c') i ?t ?s1 c' = Inr (r1, s2)"
      using run eq False by auto
    have f: "s2 = s'" "x'' = x'" "r = (case r1 of Inl e \<Rightarrow> Inl e | Inr _ \<Rightarrow> Inr (Some (i, ?t)))"
      using run unfolding eq Let_def by (cases r1; use f0 False in auto)+
    have "checkpoint_and_flush b api od' H (execution_digest X x' c') i ?t ?s1 c' = Inr (r1, s')"
      using f0 f(1) checkpoint_and_flush_det [OF inv inv, of api od "execution_digest X x' c'" i ?t ?s1 od'] by simp
    note fl = flush_set_recorders [OF this]
    show ?thesis
      using False eq2 sch_eq f(2,3) fl(1) [of f rr] fl(2,3) by (auto simp: Let_def dg split: sum.splits)
  qed
qed


text \<open>In particular, with the recorders it has: the cell stored has the recorder the quantum left.\<close>

lemma cycle_recorder:
  assumes "order (sup_scheduler s) = i # is" and "unat (current_tick_of (sup_scheduler s)) + 1 < 2 ^ 64"
    and c: "cells s i = Some c" and "cell_inv b H c'"
    and q: "run_quantum X x (quantum_cell c) (max_instructions_per_quantum s) = Inr (res, x', c')"
    and run: "run_one_cycle b api od H X s x = Inr (r, s', x'')"
  obtains d where "cells s' = (cells s)(i \<mapsto> d)" and "recorder d = recorder c'" and "x'' = x'"
    and "max_instructions_per_quantum s' = max_instructions_per_quantum s"
proof -
  define f where "f = (\<lambda>i :: CellId. recorder c)"
  have "(quantum_cell c)\<lparr>recorder := f i\<rparr> = quantum_cell c" by (simp add: f_def quantum_cell_def)
  then have q0: "run_quantum X x ((quantum_cell c)\<lparr>recorder := f i\<rparr>) (max_instructions_per_quantum s) =
      Inr (res, x', c'\<lparr>recorder := recorder c'\<rparr>)"
    using q by simp
  have dg: "execution_digest X x' (c'\<lparr>recorder := recorder c'\<rparr>) = execution_digest X x' c'" by simp
  show thesis
    using that cycle_set_recorders [where f = f and i = i, OF assms(1-4) q q0 dg run, of od] by blast
qed

text \<open>
  All cells have recorded up to tick \<open>t\<close>; their logs have grown from \<open>s\<close> to \<open>s'\<close>; the recorders \<open>f\<close>
  are at the positions of the cells' recorders, and hold at least what the cells' logs hold.
\<close>

definition all_recorded :: "nat \<Rightarrow> Tick \<Rightarrow> 'q supervisor \<Rightarrow> bool" where
  "all_recorded N t s \<longleftrightarrow> (\<forall>i c. cells s i = Some c \<longrightarrow> recorded_to N t (recorder c))"

definition logs_grow :: "'q supervisor \<Rightarrow> 'q supervisor \<Rightarrow> bool" where
  "logs_grow s s' \<longleftrightarrow> dom (cells s') = dom (cells s) \<and>
     (\<forall>i c c'. cells s i = Some c \<longrightarrow> cells s' i = Some c' \<longrightarrow> hm_get (log (recorder c)) \<subseteq>\<^sub>m hm_get (log (recorder c')))"

definition tracks :: "(CellId \<Rightarrow> event_recorder) \<Rightarrow> 'q supervisor \<Rightarrow> bool" where
  "tracks f s \<longleftrightarrow> (\<forall>i c. cells s i = Some c \<longrightarrow> follows (recorder c) (f i))"

definition supplied :: "(CellId \<Rightarrow> event_recorder) \<Rightarrow> 'q supervisor \<Rightarrow> bool" where
  "supplied f s \<longleftrightarrow> (\<forall>i c. cells s i = Some c \<longrightarrow> hm_get (log (recorder c)) \<subseteq>\<^sub>m hm_get (log (f i)))"

lemma logs_grow_refl: "logs_grow s s"
  by (simp add: logs_grow_def)

lemma logs_grow_cell:
  assumes "logs_grow s s'" and "cells s i = Some c"
  obtains c' where "cells s' i = Some c'" and "hm_get (log (recorder c)) \<subseteq>\<^sub>m hm_get (log (recorder c'))"
proof -
  have "i \<in> dom (cells s')" using assms by (auto simp: logs_grow_def)
  then obtain c' where "cells s' i = Some c'" by blast
  with that assms show thesis unfolding logs_grow_def by blast
qed

lemma logs_grow_trans:
  assumes "logs_grow s1 s2" and "logs_grow s2 s3"
  shows "logs_grow s1 s3"
proof -
  have "hm_get (log (recorder c)) \<subseteq>\<^sub>m hm_get (log (recorder c''))" if "cells s1 i = Some c" "cells s3 i = Some c''" for i c c''
  proof -
    obtain c' where "cells s2 i = Some c'" "hm_get (log (recorder c)) \<subseteq>\<^sub>m hm_get (log (recorder c'))"
      by (rule logs_grow_cell [OF assms(1) \<open>cells s1 i = Some c\<close>])
    then show ?thesis using assms(2) that(2) map_le_trans unfolding logs_grow_def by blast
  qed
  then show ?thesis using assms unfolding logs_grow_def by simp
qed

lemma supplied_before:
  assumes "logs_grow s s'" and "supplied f s'"
  shows "supplied f s"
  unfolding supplied_def
proof (intro allI impI)
  fix i c assume c: "cells s i = Some c"
  obtain c' where "cells s' i = Some c'" "hm_get (log (recorder c)) \<subseteq>\<^sub>m hm_get (log (recorder c'))"
    by (rule logs_grow_cell [OF assms(1) c])
  then show "hm_get (log (recorder c)) \<subseteq>\<^sub>m hm_get (log (f i))"
    using assms(2) map_le_trans unfolding supplied_def by blast
qed

lemma hosted_quantum_eq:
  assumes "quantum_loop b src G (t + 1) (unat n) (gs (config_id (config c))) c h = Inr (res, g, c', h')"
  shows "run_quantum (hosted_executor b src G dg) (gs, t, h) c n =
    Inr (map_sum id of_nat res, (gs(config_id (config c) := g), t + 1, h'), c')"
  using assms by (simp add: hosted_executor_def Let_def)

text \<open>The quantum of the dispatched cell \<open>c\<close>.\<close>

lemma hosted_quantum:
  assumes contract: "executor_contract b (hosted_executor b src G dg)" and cinv: "cell_inv b H c"
    and fills: "random_fills src" and N: "N = unat n" "N + 1 < 2 ^ 64" and T: "unat T + 1 < 2 ^ 64"
    and rec: "recorded_to N T (recorder c)"
  obtains res g c' h' where "quantum_loop b src G (T + 1) (unat n) (gs (config_id (config c))) (quantum_cell c) h = Inr (res, g, c', h')"
    and "run_quantum (hosted_executor b src G dg) (gs, T, h) (quantum_cell c) n =
      Inr (map_sum id of_nat res, (gs(config_id (config c) := g), T + 1, h'), c')"
    and "cell_inv b H c'" and "recording N (T + 1) (unat n) (recorder (quantum_cell c))"
    and "recorded_to N (T + 1) (recorder c')" and "hm_get (log (recorder c)) \<subseteq>\<^sub>m hm_get (log (recorder c'))"
proof -
  let ?qc = "quantum_cell c"
  obtain res g c' h' where q: "quantum_loop b src G (T + 1) (unat n) (gs (config_id (config c))) ?qc h = Inr (res, g, c', h')"
    by (rule executor_returns [OF contract, of H ?qc "(gs, T, h)" n]) (use cinv in \<open>auto simp: hosted_executor_def Let_def\<close>)
  have q': "run_quantum (hosted_executor b src G dg) (gs, T, h) ?qc n =
      Inr (map_sum id of_nat res, (gs(config_id (config c) := g), T + 1, h'), c')"
    using hosted_quantum_eq [of b src G T n gs ?qc] q by simp
  have c': "cell_inv b H c'" using executor_keeps_cell_inv(1) [OF contract q'] cinv by simp
  have "T < T + 1" using unat_Suc_small [of T] T by (simp add: word_less_nat_alt)
  then have rq: "recording N (T + 1) (unat n) (recorder ?qc)" using recorded_to_start [OF rec] N(1) by simp
  show thesis
    by (rule that [OF q q' c' rq]) (use quantum_loop_records [OF rq fills N(2) q] recording_end in auto)
qed

lemma hosted_cycle_records:
  fixes s :: "'q supervisor"
  assumes contract: "executor_contract b (hosted_executor b src G dg)" and inv: "sup_inv b H api held s"
    and fills: "random_fills src" and N: "N = unat (max_instructions_per_quantum s)" "N + 1 < 2 ^ 64"
    and room: "unat (current_tick_of (sup_scheduler s)) + 1 < 2 ^ 64" and T: "unat T + 1 < 2 ^ 64"
    and rec: "all_recorded N T s"
    and run: "run_one_cycle b api od H (hosted_executor b src G dg) s (gs, T, h) = Inr (r, s', (gs', T', h'))"
  shows "unat T' \<le> unat T + 1" and "all_recorded N T' s'" and "N = unat (max_instructions_per_quantum s')" and "logs_grow s s'"
proof -
  have "unat T' \<le> unat T + 1 \<and> all_recorded N T' s' \<and> N = unat (max_instructions_per_quantum s') \<and> logs_grow s s'"
  proof (cases "order (sup_scheduler s)")
    case Nil
    then show ?thesis using run rec N(1) by (auto simp: run_one_cycle_idle logs_grow_refl)
  next
    case (Cons i "is")
    let ?X = "hosted_executor b src G dg" and ?n = "max_instructions_per_quantum s"
    obtain c where c: "cells s i = Some c" by (rule dispatched_cell [OF inv Cons])
    let ?qc = "quantum_cell c" and ?j = "config_id (config c)"
    have cc: "cell_inv b H c" "recorded_to N T (recorder c)"
      using inv rec c unfolding sup_inv_def all_recorded_def by blast+
    obtain res g c' h1 where q: "run_quantum ?X (gs, T, h) ?qc ?n = Inr (map_sum id of_nat res, (gs(?j := g), T + 1, h1), c')"
        "cell_inv b H c'" "recorded_to N (T + 1) (recorder c')" "hm_get (log (recorder c)) \<subseteq>\<^sub>m hm_get (log (recorder c'))"
      by (rule hosted_quantum [OF contract cc(1) fills N T cc(2)])
    obtain d where d: "cells s' = (cells s)(i \<mapsto> d)" "recorder d = recorder c'" "(gs', T', h') = (gs(?j := g), T + 1, h1)"
        "max_instructions_per_quantum s' = ?n"
      by (rule cycle_recorder [OF Cons room c q(2,1) run])
    have T': "T' = T + 1" "unat (T + 1) = unat T + 1" using d(3) unat_Suc_small [of T] T by simp_all
    then have le: "T \<le> T + 1" by (simp add: word_le_nat_alt)
    have "all_recorded N T' s'"
      using rec q(3) d unfolding all_recorded_def T'(1) by (auto intro: recorded_to_mono [OF _ le])
    moreover have "logs_grow s s'" using c d q(4) by (auto simp: logs_grow_def)
    ultimately show ?thesis using T' d(4) N(1) by simp
  qed
  then show "unat T' \<le> unat T + 1" "all_recorded N T' s'" "N = unat (max_instructions_per_quantum s')" "logs_grow s s'"
    by blast+
qed

lemma hosted_cycle_replays:
  fixes s :: "'q supervisor" and src :: "'s host_source" and src' :: "'u host_source"
  assumes contract: "executor_contract b (hosted_executor b src G dg)" and inv: "sup_inv b H api held s"
    and fills: "random_fills src" and N: "N = unat (max_instructions_per_quantum s)" "N + 1 < 2 ^ 64"
    and room: "unat (current_tick_of (sup_scheduler s)) + 1 < 2 ^ 64" and T: "unat T + 1 < 2 ^ 64"
    and rec: "all_recorded N T s"
    and run: "run_one_cycle b api od H (hosted_executor b src G dg) s (gs, T, h) = Inr (r, s', (gs', T', h'))"
    and f: "tracks f s" "supplied f s'"
  obtains f' where "run_one_cycle b api od' H (hosted_executor b src' G dg) (set_recorders f s) (gs, T, u) =
      Inr (r, set_recorders f' s', (gs', T', u))" and "tracks f' s'" and "\<forall>i. hm_get (log (f' i)) = hm_get (log (f i))"
proof (cases "order (sup_scheduler s)")
  case Nil
  then show thesis using run f that [of f] by (auto simp: run_one_cycle_idle)
next
  case (Cons i "is")
  let ?X = "hosted_executor b src G dg" and ?Y = "hosted_executor b src' G dg" and ?n = "max_instructions_per_quantum s"
  obtain c where c: "cells s i = Some c" by (rule dispatched_cell [OF inv Cons])
  let ?qc = "quantum_cell c" and ?j = "config_id (config c)"
  have cc: "cell_inv b H c" "recorded_to N T (recorder c)"
    using inv rec c unfolding sup_inv_def all_recorded_def by blast+
  obtain res g c' h1 where q: "quantum_loop b src G (T + 1) (unat ?n) (gs ?j) ?qc h = Inr (res, g, c', h1)"
      "run_quantum ?X (gs, T, h) ?qc ?n = Inr (map_sum id of_nat res, (gs(?j := g), T + 1, h1), c')"
      "cell_inv b H c'" "recording N (T + 1) (unat ?n) (recorder ?qc)"
    by (rule hosted_quantum [OF contract cc(1) fills N T cc(2)])
  obtain d where d: "cells s' = (cells s)(i \<mapsto> d)" "recorder d = recorder c'"
    by (rule cycle_recorder [OF Cons room c q(3,2) run])
  have fi: "follows (recorder ?qc) (f i)" using f(1) c by (simp add: tracks_def)
  have le: "hm_get (log (recorder c')) \<subseteq>\<^sub>m hm_get (log (f i))" using f(2) d by (metis supplied_def fun_upd_same)
  obtain rr where rr: "quantum_loop b src' G (T + 1) (unat ?n) (gs ?j) (?qc\<lparr>recorder := f i\<rparr>) u = Inr (res, g, c'\<lparr>recorder := rr\<rparr>, u)"
      "follows (recorder c') rr" "hm_get (log rr) = hm_get (log (f i))"
    using quantum_loop_replays [OF q(4) fills N(2) q(1) fi le, of src' u] by blast
  have q2: "run_quantum ?Y (gs, T, u) (?qc\<lparr>recorder := f i\<rparr>) ?n =
      Inr (map_sum id of_nat res, (gs(?j := g), T + 1, u), c'\<lparr>recorder := rr\<rparr>)"
    using hosted_quantum_eq [of b src' G T ?n gs "?qc\<lparr>recorder := f i\<rparr>"] rr(1) by simp
  have dg: "execution_digest ?Y (gs(?j := g), T + 1, u) (c'\<lparr>recorder := rr\<rparr>) = execution_digest ?X (gs(?j := g), T + 1, h1) c'"
    by (simp add: hosted_executor_def)
  have "run_one_cycle b api od' H ?Y (set_recorders f s) (gs, T, u) = Inr (r, set_recorders (f(i := rr)) s', (gs', T', u))"
    using cycle_set_recorders [where f = f and i = i, OF Cons room c q(3,2) q2 dg run, of od'] by simp
  moreover have "tracks (f(i := rr)) s'" using f(1) d rr(2) by (auto simp: tracks_def)
  ultimately show thesis using that [of "f(i := rr)"] rr(3) by simp
qed

subsection \<open>Runs\<close>

lemma run_cycles_total:
  assumes "executor_contract b X" and "queue_sound api held" and "sup_reachable b H api X (s, x)"
    and "unat (current_tick_of (sup_scheduler s)) + length ods < 2 ^ 64"
  shows "\<exists>rs s' x'. run_cycles b api H X s x ods = Inr (rs, s', x')"
  using assms(3,4)
proof (induction ods arbitrary: s x)
  case (Cons od ods)
  have inv: "sup_inv b H api held s" using sup_reachable_inv [OF assms(1,2) Cons.prems(1)] by simp
  have room: "unat (current_tick_of (sup_scheduler s)) + Suc (length ods) < 2 ^ 64"
      "unat (current_tick_of (sup_scheduler s)) + 1 < 2 ^ 64"
    using Cons.prems(2) by simp_all
  obtain r s1 x1 where one: "run_one_cycle b api od H X s x = Inr (r, s1, x1)"
    using run_one_cycle_inv [OF inv assms(1,2) room(2)] by blast
  from Cons.IH [OF cycle_reachable [OF assms(1,2) Cons.prems(1) room(1) one]] one show ?case by auto
qed simp

lemma hosted_run:
  fixes s :: "'q supervisor" and src :: "'s host_source" and src' :: "'u host_source"
  assumes contract: "executor_contract b (hosted_executor b src G dg)" and sound: "queue_sound api held"
    and fills: "random_fills src" and N: "N + 1 < 2 ^ 64" and len: "length ods = length ods'"
    and "sup_reachable b H api (hosted_executor b src G dg) (s, (gs, T, h))"
    and "unat (current_tick_of (sup_scheduler s)) + length ods < 2 ^ 64" and "unat T + length ods < 2 ^ 64"
    and "N = unat (max_instructions_per_quantum s)" and "all_recorded N T s"
    and "run_cycles b api H (hosted_executor b src G dg) s (gs, T, h) ods = Inr (rs, s', (gs', T', h'))"
  shows "all_recorded N T' s' \<and> logs_grow s s' \<and>
    (\<forall>f (u :: 'u). tracks f s \<longrightarrow> supplied f s' \<longrightarrow>
      (\<exists>f'. run_cycles b api H (hosted_executor b src' G dg) (set_recorders f s) (gs, T, u) ods' =
        Inr (rs, set_recorders f' s', (gs', T', u))))"
  using len assms(6-)
proof (induction ods ods' arbitrary: s gs T h rs rule: list_induct2)
  case Nil
  then show ?case by (auto simp: logs_grow_refl)
next
  case (Cons od ods od' ods')
  let ?X = "hosted_executor b src G dg" and ?Y = "hosted_executor b src' G dg"
  obtain r rs1 s1 x1 where one: "run_one_cycle b api od H ?X s (gs, T, h) = Inr (r, s1, x1)"
      "run_cycles b api H ?X s1 x1 ods = Inr (rs1, s', (gs', T', h'))" "rs = r # rs1"
    by (rule run_cycles_Cons [OF Cons.prems(6)])
  have inv: "sup_inv b H api held s" using sup_reachable_inv [OF contract sound Cons.prems(1)] by simp
  have room: "unat (current_tick_of (sup_scheduler s)) + Suc (length ods) < 2 ^ 64"
      "unat (current_tick_of (sup_scheduler s)) + 1 < 2 ^ 64" "unat T + 1 < 2 ^ 64"
    using Cons.prems(2,3) by simp_all
  obtain gs1 T1 h1 where x1: "x1 = (gs1, T1, h1)" using prod_cases3 by blast
  note run1 = one(1) [unfolded x1]
  note recs = hosted_cycle_records [OF contract inv fills Cons.prems(4) N room(2,3) Cons.prems(5) run1]
  note reach = cycle_reachable [OF contract sound Cons.prems(1) room(1) one(1)]
  have T1: "unat T1 + length ods < 2 ^ 64" using recs(1) Cons.prems(3) by simp
  note IH = Cons.IH [OF reach(1) [unfolded x1] reach(2) T1 recs(3,2) one(2) [unfolded x1]]
  show ?case
  proof (intro conjI allI impI)
    show "all_recorded N T' s'" using IH by blast
    show "logs_grow s s'" using logs_grow_trans [OF recs(4)] IH by blast
    fix f and u :: 'u assume f: "tracks f s" "supplied f s'"
    have sup: "supplied f s1" using supplied_before [OF _ f(2)] IH by blast
    obtain f1 where f1: "run_one_cycle b api od' H ?Y (set_recorders f s) (gs, T, u) = Inr (r, set_recorders f1 s1, (gs1, T1, u))"
        "tracks f1 s1" "\<forall>i. hm_get (log (f1 i)) = hm_get (log (f i))"
      by (rule hosted_cycle_replays [OF contract inv fills Cons.prems(4) N room(2,3) Cons.prems(5) run1 f(1) sup])
    have "supplied f1 s'" using f(2) f1(3) by (simp add: supplied_def)
    then obtain f' where "run_cycles b api H ?Y (set_recorders f1 s1) (gs1, T1, u) ods' = Inr (rs1, set_recorders f' s', (gs', T', u))"
      using IH f1(2) by blast
    then show "\<exists>f'. run_cycles b api H ?Y (set_recorders f s) (gs, T, u) (od' # ods') =
        Inr (rs, set_recorders f' s', (gs', T', u))"
      using f1(1) one(3) by (intro exI [of _ f']) simp
  qed
qed

subsection \<open>Properties\<close>

text \<open>
  The initial state \<open>s\<close> with, in every cell, the replaying recorder made from the log that cell has
  in \<open>s'\<close>; and a state without its recorders.
\<close>

definition seed_replay ::
  "(CellId \<Rightarrow> (event_key \<times> recorded_value) iter_order) \<Rightarrow> 'q supervisor \<Rightarrow> 'q supervisor \<Rightarrow> 'q supervisor" where
  "seed_replay ord s' s =
     set_recorders (\<lambda>i. case cells s' i of
         Some c \<Rightarrow> from_replay_log (export_log (ord i) (recorder c))
       | None \<Rightarrow> new_EventRecorder Replay) s"

definition forget_recorders :: "'q supervisor \<Rightarrow> 'q supervisor" where
  "forget_recorders s = set_recorders (\<lambda>_. new_EventRecorder Record) s"

lemma forget_set_recorders [simp]: "forget_recorders (set_recorders f s) = forget_recorders s"
  by (simp add: forget_recorders_def set_recorders_def option.map_comp comp_def)

lemma supervisor_replay_run:
  fixes s :: "'q supervisor" and src :: "'s host_source" and src' :: "'u host_source"
  assumes "executor_contract b (hosted_executor b src G dg)" and "queue_sound api held" and "random_fills src"
    and "sup_reachable b H api (hosted_executor b src G dg) (s, (gs, T, h))"
    and "\<forall>i c. cells s i = Some c \<longrightarrow> recorder c = new_EventRecorder Record"
    and "unat (max_instructions_per_quantum s) + 1 < 2 ^ 64"
    and "unat (current_tick_of (sup_scheduler s)) + length ods < 2 ^ 64" and "unat T + length ods < 2 ^ 64"
    and "length ods = length ods'"
  shows "\<exists>rs s' gs' T' h' z. run_cycles b api H (hosted_executor b src G dg) s (gs, T, h) ods = Inr (rs, s', (gs', T', h')) \<and>
    run_cycles b api H (hosted_executor b src' G dg) (seed_replay ord s' s) (gs, T, u) ods' = Inr (rs, z, (gs', T', u)) \<and>
    length rs = length ods \<and> forget_recorders z = forget_recorders s'"
proof -
  let ?N = "unat (max_instructions_per_quantum s)"
  obtain rs s' x' where run0: "run_cycles b api H (hosted_executor b src G dg) s (gs, T, h) ods = Inr (rs, s', x')"
    using run_cycles_total [OF assms(1,2,4,7)] by blast
  obtain gs' T' h' where "x' = (gs', T', h')" using prod_cases3 by blast
  with run0 have run: "run_cycles b api H (hosted_executor b src G dg) s (gs, T, h) ods = Inr (rs, s', (gs', T', h'))" by simp
  let ?f = "\<lambda>i. case cells s' i of Some c \<Rightarrow> from_replay_log (export_log (ord i) (recorder c)) | None \<Rightarrow> new_EventRecorder Replay"
  have "all_recorded ?N T s" using assms(5) recorded_to_fresh unfolding all_recorded_def by metis
  from hosted_run [OF assms(1-3,6,9,4,7,8) refl this run, of src']
  have rec: "all_recorded ?N T' s'" and rep: "\<And>f u. tracks f s \<Longrightarrow> supplied f s' \<Longrightarrow>
      \<exists>f'. run_cycles b api H (hosted_executor b src' G dg) (set_recorders f s) (gs, T, u) ods' = Inr (rs, set_recorders f' s', (gs', T', u))"
    by blast+
  have "tracks ?f s" using assms(5) by (auto simp: tracks_def follows_def split: option.split)
  moreover have "supplied ?f s'" using rec by (auto simp: supplied_def all_recorded_def recorded_to_def from_export)
  ultimately obtain f' where "run_cycles b api H (hosted_executor b src' G dg) (set_recorders ?f s) (gs, T, u) ods' =
      Inr (rs, set_recorders f' s', (gs', T', u))"
    using rep by blast
  then show ?thesis using run length_run_cycles [OF run] by (auto simp: seed_replay_def)
qed

text \<open>
  Property C2. Replayable determinism of the whole system. In a release build, take any
  reachable state whose cells have fresh recording recorders, any guests and any host, and
  run any number of cycles: the run completes. Export every cell's log in any order, start
  again from the same state with those logs in replaying recorders, on any other host: the
  cycles give the same results at the same ticks, the saved execution states end the same,
  the supervisors (memories, dirty sets, chains with every root and register digest,
  descriptor tables, ring contents) end the same except for the recorders, and the
  second host is never asked for a clock value or a random byte.
\<close>

theorem supervisor_replay:
  fixes s :: "'q supervisor" and src :: "'s host_source" and src' :: "'u host_source"
  assumes "queue_sound api held" and "random_fills src"
    and "sup_reachable Release H api (hosted_executor Release src G dg) (s, (gs, T, h))"
    and "\<forall>i c. cells s i = Some c \<longrightarrow> recorder c = new_EventRecorder Record"
    and "unat (max_instructions_per_quantum s) + 1 < 2 ^ 64"
    and "unat (current_tick_of (sup_scheduler s)) + length ods < 2 ^ 64" and "unat T + length ods < 2 ^ 64"
    and "length ods = length ods'"
  shows "\<exists>rs s' gs' T' h' z. run_cycles Release api H (hosted_executor Release src G dg) s (gs, T, h) ods = Inr (rs, s', (gs', T', h')) \<and>
    run_cycles Release api H (hosted_executor Release src' G dg) (seed_replay ord s' s) (gs, T, u) ods' = Inr (rs, z, (gs', T', u)) \<and>
    length rs = length ods \<and> forget_recorders z = forget_recorders s'"
  by (rule supervisor_replay_run [OF hosted_contract assms])

text \<open>Two tenants that read the clock and the random source; the other host would answer differently.\<close>

theorem supervisor_replay_witness:
  "\<exists>(s :: (usize \<times> tick_batch list) supervisor) rs s' gs' T' h' z. dom (cells s) = {1, 2} \<and> length rs = 3 \<and>
     run_cycles Release example_queue example_hash (hosted_executor Release example_host example_guest_action example_guest_digest)
       s (\<lambda>_. Awake, 0, 1000) [insertion_order, insertion_order, reverse_order] = Inr (rs, s', (gs', T', h')) \<and>
     run_cycles Release example_queue example_hash (hosted_executor Release divergent_host example_guest_action example_guest_digest)
       (seed_replay (\<lambda>_. reverse_order) s' s) (\<lambda>_. Awake, 0, 0) [reverse_order, reverse_order, insertion_order] = Inr (rs, z, (gs', T', 0)) \<and>
     forget_recorders z = forget_recorders s'"
proof -
  let ?X = "hosted_executor Release example_host example_guest_action example_guest_digest"
  let ?Y = "hosted_executor Release divergent_host example_guest_action example_guest_digest"
  let ?o = "[insertion_order, insertion_order, reverse_order]" and ?p = "[reverse_order, reverse_order, insertion_order]"
  obtain s c d where s: "\<forall>x. sup_reachable Release example_hash example_queue ?X (s, x)" "cells s = [1 \<mapsto> c, 2 \<mapsto> d]"
      "current_tick_of (sup_scheduler s) = 0" "recorder c = new_EventRecorder Record" "recorder d = new_EventRecorder Record"
      "max_instructions_per_quantum s = 1000"
    by (rule example_tenants [of 4 Release example_hash ?X]) simp_all
  have fresh: "\<forall>i c. cells s i = Some c \<longrightarrow> recorder c = new_EventRecorder Record" using s(2,4,5) by auto
  have "dom (cells s) = {1, 2}" using s(2) by auto
  moreover from supervisor_replay [OF example_queue_sound example_host_fills spec [OF s(1)] fresh,
      of ?o 0 ?p "\<lambda>_. Awake" 1000 divergent_host "\<lambda>_. reverse_order" 0] s(3,6)
  have "\<exists>rs s' gs' T' h' z. run_cycles Release example_queue example_hash ?X s (\<lambda>_. Awake, 0, 1000) ?o = Inr (rs, s', (gs', T', h')) \<and>
    run_cycles Release example_queue example_hash ?Y (seed_replay (\<lambda>_. reverse_order) s' s) (\<lambda>_. Awake, 0, 0) ?p = Inr (rs, z, (gs', T', 0)) \<and>
    length rs = 3 \<and> forget_recorders z = forget_recorders s'"
    by (simp del: run_cycles.simps add: numeral_3_eq_3)
  ultimately show ?thesis by blast
qed

end
