(* ===== verification/Integrity.thy ===== *)
theory Integrity
  imports Cell_History
begin

section \<open>The head of a chain binds the execution\<close>

text \<open>
  What the chain is for: whoever knows the chain hash of the last entry knows the whole
  history. The tamper evidence of the chain (Checkpoint_Chain), the binding of the Merkle
  tree (Merkle) and the history of cells in reachable systems (Cell_History) are put
  together for two arbitrary deployments of the same hash function.
\<close>

subsection \<open>The messages a cell has hashed\<close>

text \<open>The page a checkpoint takes for index \<open>n\<close>: beyond the quota it is the zero page.\<close>

definition image_page :: "mmap_guarded_memory \<Rightarrow> nat \<Rightarrow> u8 list" where
  "image_page m n = (if n < quota_pages (quota_bytes m) then page_content m (of_nat n) else zero_page)"

definition hashed_msgs :: "hash_fn \<Rightarrow> cell \<Rightarrow> u8 list set" where
  "hashed_msgs H c =
     insert genesis (chain_msgs H (H genesis) (map claim_of (entries (checkpoints c)))) \<union>
     node_msgs H (\<lambda>n. H (image_page (memory c) n)) TREE_DEPTH 0 \<union> range (image_page (memory c))"

lemma memory_root_image: "memory_root H m = node_hash H (\<lambda>n. H (image_page m n)) TREE_DEPTH 0"
  by (simp add: memory_root_def image_page_def)

lemma length_memory_root: "\<forall>x. length (H x) = 32 \<Longrightarrow> length (memory_root H m) = 32"
  by (simp add: memory_root_image length_node_hash)

text \<open>Every recorded root is a digest.\<close>

definition roots_are_digests :: "cell \<Rightarrow> bool" where
  "roots_are_digests c \<longleftrightarrow> (\<forall>e\<in>set (entries (checkpoints c)). length (smt_root e) = 32)"

lemma roots_are_digests_reachable:
  assumes "executor_contract b X" and "queue_sound api held" and "sup_reachable b H api X (s, x)" and "cells s i = Some c"
    and "\<forall>x. length (H x) = 32"
  shows "roots_are_digests c"
proof (rule sup_reachable_cellwise [OF assms(1-4), where P = "\<lambda>_. roots_are_digests"])
  fix os cfg md tr c assume "mmap_sound os" "new_Cell b os H cfg md = (tr, Inr (Inr c))"
  then show "roots_are_digests c" using new_Cell_ok by (fastforce simp: roots_are_digests_def)
qed (auto simp: roots_are_digests_def quantum_rel_def checkpoint_rel_def length_memory_root [OF assms(5)])

lemma linked_claims_inject:
  "linked H h es \<Longrightarrow> linked H h es' \<Longrightarrow> map claim_of es = map claim_of es' \<Longrightarrow> es = es'"
proof (induction es arbitrary: h es')
  case (Cons e es)
  then obtain e' fs where es': "es' = e' # fs" "claim_of e = claim_of e'" by (cases es') auto
  then have "e = e'" using Cons.prems(1,2) by (cases e; cases e') (simp add: claim_of_def)
  moreover have "linked H (chain_hash e) es" "linked H (chain_hash e') fs" "map claim_of es = map claim_of fs"
    using Cons.prems es' by auto
  ultimately show ?case using Cons.IH [of "chain_hash e" fs] es' by simp
qed simp

text \<open>Equal roots mean equal images.\<close>

lemma memory_root_inject:
  assumes "\<forall>x. length (H x) = 32" and "memory_root H m = memory_root H m'"
    and "inj_on H (node_msgs H (\<lambda>n. H (image_page m n)) TREE_DEPTH 0 \<union> node_msgs H (\<lambda>n. H (image_page m' n)) TREE_DEPTH 0)"
    and "inj_on H (range (image_page m) \<union> range (image_page m'))"
  shows "image_page m = image_page m'"
proof (rule ext)
  fix n
  show "image_page m n = image_page m' n"
  proof (cases "n < 2 ^ TREE_DEPTH")
    case True
    have "H (image_page m n) = H (image_page m' n)"
      by (rule node_binding [of H 32 "\<lambda>n. H (image_page m n)" "\<lambda>n. H (image_page m' n)" TREE_DEPTH 0])
        (use assms(1-3) True in \<open>simp_all add: memory_root_image\<close>)
    then show ?thesis by (rule inj_onD [OF assms(4)]) simp_all
  next
    case False
    then show ?thesis
      using quota_pages_bounds(2) [of "quota_bytes m"] quota_pages_bounds(2) [of "quota_bytes m'"]
      by (simp add: image_page_def TREE_DEPTH_def)
  qed
qed

lemma heads_bind_entries:
  assumes "chain_inv H c" and "chain_inv H d" and len: "\<forall>x. length (H x) = 32"
    and "\<forall>e\<in>set (entries c) \<union> set (entries d). length (smt_root e) = 32 \<and> length (register_digest e) = 32"
    and "inj_on H (insert genesis (chain_msgs H (H genesis) (map claim_of (entries c)) \<union>
           chain_msgs H (H genesis) (map claim_of (entries d))))"
    and "latest c = Some e" and "latest d = Some e'" and "chain_hash e = chain_hash e'"
  shows "entries c = entries d"
proof -
  have linked: "linked H (H genesis) (entries c)" "linked H (H genesis) (entries d)"
    using assms(1,2) by (simp_all add: chain_inv_def)
  have "chain_fold H (H genesis) (map claim_of (entries c)) = chain_fold H (H genesis) (map claim_of (entries d))"
    using linked_fold [OF linked(1)] linked_fold [OF linked(2)] assms(6-8) by (auto simp: latest_def split: if_splits)
  then have "map claim_of (entries c) = map claim_of (entries d)"
    by (intro chain_fold_inject [OF len _ assms(5)]) (use assms(4) in \<open>auto simp: claim_of_def\<close>)
  then show ?thesis by (rule linked_claims_inject [OF linked])
qed

subsection \<open>Properties\<close>

text \<open>
  Property C15. One digest fixes the whole execution record. Take any cell in any reachable
  state of any deployment, and any cell of any other (another build, executor, queue,
  schedule). If the chain hashes of their latest checkpoints are equal and the hash
  function has no collision among the messages the two cells hash, then the two chains are
  equal entry for entry (ticks, roots, register digests), and while neither has written since its last
  checkpoint, the two memories are equal page for page.
\<close>

theorem chain_head_binds_execution:
  assumes "executor_contract b X" and "queue_sound api held" and "sup_reachable b H api X (s, x)" and "cells s i = Some c"
    and "executor_contract b' X'" and "queue_sound api' held'" and "sup_reachable b' H api' X' (s', x')" and "cells s' j = Some d"
    and "\<forall>x. length (H x) = 32"
    and "\<forall>e\<in>set (entries (checkpoints c)) \<union> set (entries (checkpoints d)). length (register_digest e) = 32"
    and "inj_on H (hashed_msgs H c \<union> hashed_msgs H d)"
    and "latest (checkpoints c) = Some e" and "latest (checkpoints d) = Some e'" and "chain_hash e = chain_hash e'"
  shows "entries (checkpoints c) = entries (checkpoints d) \<and>
    (pages (dirty (memory c)) = {} \<and> pages (dirty (memory d)) = {} \<longrightarrow> image_page (memory c) = image_page (memory d))"
proof -
  have "sup_inv b H api held s" "sup_inv b' H api' held' s'"
    using sup_reachable_inv [OF assms(1-3)] sup_reachable_inv [OF assms(5-7)] by simp_all
  then have chain: "chain_inv H (checkpoints c)" "chain_inv H (checkpoints d)"
    using assms(4,8) unfolding sup_inv_def cell_inv_def by blast+
  have digests: "\<forall>e\<in>set (entries (checkpoints c)) \<union> set (entries (checkpoints d)). length (smt_root e) = 32 \<and> length (register_digest e) = 32"
    using roots_are_digests_reachable [OF assms(1-4,9)] roots_are_digests_reachable [OF assms(5-9)] assms(10)
    by (auto simp: roots_are_digests_def)
  have "inj_on H (insert genesis (chain_msgs H (H genesis) (map claim_of (entries (checkpoints c))) \<union>
      chain_msgs H (H genesis) (map claim_of (entries (checkpoints d)))))"
    by (rule inj_on_subset [OF assms(11)]) (auto simp: hashed_msgs_def)
  note eq = heads_bind_entries [OF chain assms(9) digests this assms(12-14)]
  have "image_page (memory c) = image_page (memory d)"
    if clean: "pages (dirty (memory c)) = {}" "pages (dirty (memory d)) = {}"
  proof (rule memory_root_inject [OF assms(9)])
    have "entries (checkpoints c) \<noteq> []" using assms(12) by (auto simp: latest_def split: if_splits)
    then show "memory_root H (memory c) = memory_root H (memory d)"
      using root_current_reachable [OF assms(1-4)] root_current_reachable [OF assms(5-8)] clean eq
      by (simp add: root_current_def)
  qed (auto intro: inj_on_subset [OF assms(11)] simp: hashed_msgs_def)
  then show ?thesis using eq by blast
qed


text \<open>
  A hash that separates the kinds of messages by length: pages are marked by their byte 7, links
  by the mark of their root. Two tenants that store 5 and 6 at that address get
  different heads.
\<close>

definition tagged_hash :: hash_fn where
  "tagged_hash x =
     (if length x = 64 then example_digest (x ! 0 + 1) (x ! 1 OR x ! 33)
      else if length x = 104 then example_digest 200 (x ! 33)
      else if length x = PAGE_SIZE then example_digest 0 (x ! 7)
      else example_digest 201 0)"

lemma length_tagged_hash [simp]: "length (tagged_hash x) = 32"
  by (simp add: tagged_hash_def example_digest_def)

abbreviation marked_page :: "u8 \<Rightarrow> u8 list" where
  "marked_page v \<equiv> zero_page[7 := v]"

lemma tagged_simps [simp]:
  "tagged_hash (example_digest d a @ example_digest d b) = example_digest (d + 1) (a OR b)"
  "tagged_hash (marked_page v) = example_digest 0 v" "tagged_hash genesis = example_digest 201 0"
  "tagged_hash (link_msg (example_digest 201 0) t (example_digest 32 v) (replicate 32 w)) = example_digest 200 v"
  by (simp_all add: tagged_hash_def example_digest_def nth_append zero_page_def PAGE_SIZE_def genesis_def link_msg_def)

lemma zero_page_marked: "zero_page = marked_page 0"
proof -
  have "zero_page ! 7 = 0" by (simp add: zero_page_def PAGE_SIZE_def)
  then show ?thesis by (metis list_update_id)
qed

lemma tagged_nodes:
  assumes "\<And>n. f n = example_digest 0 (if n = 0 then a else 0)"
  shows "node_hash tagged_hash f d i = example_digest (of_nat d) (if i = 0 then a else 0)"
    and "d \<le> 32 \<Longrightarrow> node_msgs tagged_hash f d i \<subseteq> example_msgs"
proof -
  show eq: "node_hash tagged_hash f d i = example_digest (of_nat d) (if i = 0 then a else 0)" for d i
    by (induction d arbitrary: i) (simp_all add: assms add.commute)
  show "d \<le> 32 \<Longrightarrow> node_msgs tagged_hash f d i \<subseteq> example_msgs"
    by (induction d arbitrary: i) (auto simp: eq example_msgs_def)
qed

abbreviation marked_link :: "u64 \<Rightarrow> u8 \<Rightarrow> u8 list" where
  "marked_link t v \<equiv> link_msg (example_digest 201 0) t (example_digest 32 v) (replicate 32 (v + 1))"

definition tagged_msgs :: "u64 \<Rightarrow> u8 list set" where
  "tagged_msgs t = insert genesis (range (marked_link t) \<union> example_msgs \<union> range marked_page)"

lemma example_digest_inject [simp]: "example_digest a v = example_digest b w \<longleftrightarrow> a = b \<and> v = w"
  by (simp add: example_digest_def)

lemma node_heights: "d < 32 \<Longrightarrow> unat ((of_nat d :: u8) + 1) = d + 1"
  by (simp add: unat_plus_small unat_of_nat take_bit_nat_eq_self)

lemma tagged_msgs_inj: "inj_on tagged_hash (tagged_msgs t)"
proof -
  have nodes: "inj_on tagged_hash example_msgs"
  proof (rule inj_onI)
    fix x y assume "x \<in> example_msgs" "y \<in> example_msgs" "tagged_hash x = tagged_hash y"
    then have "example_hash x = example_hash y" by (auto simp: example_msgs_def)
    then show "x = y" using inj_onD [OF example_msgs_inj] \<open>x \<in> example_msgs\<close> \<open>y \<in> example_msgs\<close> by blast
  qed
  have height: "\<exists>d v. d < 32 \<and> tagged_hash x = example_digest (of_nat d + 1) v" if "x \<in> example_msgs" for x
    using that by (auto simp: example_msgs_def)
  have kinds: "(of_nat d + 1 :: u8) \<noteq> 0" "(of_nat d + 1 :: u8) \<noteq> 200" "(of_nat d + 1 :: u8) \<noteq> 201" if "d < 32" for d
    using node_heights [OF that] that by (auto dest: arg_cong [where f = unat])
  have other: "tagged_hash x \<noteq> example_digest k v" if "x \<in> example_msgs" "k \<in> {0, 200, 201}" for x k v
    using height [OF that(1)] kinds that(2) by auto
  show ?thesis
    unfolding tagged_msgs_def
  proof (rule inj_onI)
    fix x y assume "x \<in> insert genesis (range (marked_link t) \<union> example_msgs \<union> range marked_page)"
      and "y \<in> insert genesis (range (marked_link t) \<union> example_msgs \<union> range marked_page)" and "tagged_hash x = tagged_hash y"
    then show "x = y" using other inj_onD [OF nodes] by (elim insertE UnE rangeE) (auto dest: sym)
  qed
qed

text \<open>The system after one cycle in which the tenant stored \<open>v\<close>.\<close>

lemma tagged_history:
  obtains s c e where "sup_reachable Debug tagged_hash example_queue (example_executor Debug) (s, v + 1)" and "cells s 1 = Some c"
    and "entries (checkpoints c) = [e]" and "pages (dirty (memory c)) = {}" and "length (register_digest e) = 32"
    and "hashed_msgs tagged_hash c \<subseteq> tagged_msgs 1" and "image_page (memory c) 0 = marked_page (of_nat v)"
proof -
  let ?X = "example_executor Debug"
  obtain s0 c0 r0 where s0: "sup_reachable Debug tagged_hash example_queue ?X (s0, v)" "order (sup_scheduler s0) = [1]"
      "current_tick_of (sup_scheduler s0) = 0" "cells s0 1 = Some c0" "size_bytes (memory c0) = 4096"
      "config c0 = example_config 1" "pages (dirty (memory c0)) = {}" "replication s0 = Some r0"
      "length (snd (ring_queue r0)) < unat (fst (ring_queue r0))" "entries (checkpoints c0) = []"
      "\<forall>p. unat p < quota_pages (quota_bytes (memory c0)) \<longrightarrow> page_content (memory c0) p = zero_page"
    by (rule example_system [of 4 Debug tagged_hash ?X v]) simp_all
  obtain s c e where s: "sup_reachable Debug tagged_hash example_queue ?X (s, v + 1)" "cells s = (cells s0)(1 \<mapsto> c)"
      "size_bytes (memory c) = 4096" "pages (dirty (memory c)) = {}"
      "entries (checkpoints c) = entries (checkpoints c0) @ [e]" "entry_tick e = 1" "register_digest e = replicate 32 (of_nat (v + 1))"
      "quota_bytes (memory c) = quota_bytes (memory c0)" "page_content (memory c) 0 = (page_content (memory c0) 0)[7 := of_nat v]"
      "\<forall>p. p \<noteq> 0 \<longrightarrow> page_content (memory c) p = page_content (memory c0) p"
    by (rule example_cycle [OF s0(1,2) _ s0(4-9), of 1]) (simp_all add: s0(3))
  have c: "cells s 1 = Some c" "entries (checkpoints c) = [e]" using s(2,5) s0(10) by simp_all
  have inv: "mem_inv (memory c)"
    using sup_reachable_inv [OF example_executor_contract example_queue_sound s(1)] c(1) by (auto simp: sup_inv_def cell_inv_def)
  have q: "0 < quota_pages (quota_bytes (memory c0))"
  proof -
    have "4096 \<le> unat (quota_bytes (memory c0))" using inv s(3,8) by (simp add: mem_inv_def word_le_nat_alt)
    then show ?thesis using quota_pages_bounds(1) [of "quota_bytes (memory c0)"] by (cases "quota_pages (quota_bytes (memory c0))") auto
  qed
  have img: "image_page (memory c) n = marked_page (if n = 0 then of_nat v else 0)" for n
  proof (cases "n = 0 \<or> quota_pages (quota_bytes (memory c0)) \<le> n")
    case True
    then show ?thesis using q s(8,9) s0(11) by (auto simp: image_page_def zero_page_marked [symmetric])
  next
    case False
    then have n: "unat (of_nat n :: u64) = n" using quota_pages_bounds(2) [of "quota_bytes (memory c0)"]
      by (simp add: unat_of_nat take_bit_nat_eq_self)
    then have "(of_nat n :: u64) \<noteq> 0" using False by (metis unat_0)
    then show ?thesis using False n s(8,10) s0(11) by (simp add: image_page_def zero_page_marked [symmetric])
  qed
  then have leaf: "tagged_hash (image_page (memory c) n) = example_digest 0 (if n = 0 then of_nat v else 0)" for n by simp
  note nodes = tagged_nodes [where f = "\<lambda>n. tagged_hash (image_page (memory c) n)", OF leaf]
  have "smt_root e = example_digest 32 (of_nat v)"
    using root_current_reachable [OF example_executor_contract example_queue_sound s(1) c(1)] s(4) c(2) nodes(1) [of TREE_DEPTH 0]
    by (simp add: root_current_def memory_root_image TREE_DEPTH_def)
  then have claim: "claim_of e = (1, example_digest 32 (of_nat v), replicate 32 (of_nat v + 1))"
    using s(6,7) by (simp add: claim_of_def add.commute)
  have "hashed_msgs tagged_hash c \<subseteq> tagged_msgs 1"
    using nodes(2) [of TREE_DEPTH 0] by (auto simp: hashed_msgs_def tagged_msgs_def c(2) claim img TREE_DEPTH_def)
  moreover have "length (register_digest e) = 32" by (simp add: s(7))
  ultimately show thesis using that s(1,4) c img [of 0] by simp
qed

theorem chain_head_binds_execution_witness:
  "\<exists>s c e s' d e'. sup_reachable Debug tagged_hash example_queue (example_executor Debug) (s, 6) \<and> cells s 1 = Some c \<and>
     sup_reachable Debug tagged_hash example_queue (example_executor Debug) (s', 7) \<and> cells s' 1 = Some d \<and>
     latest (checkpoints c) = Some e \<and> latest (checkpoints d) = Some e' \<and> chain_hash e \<noteq> chain_hash e'"
proof -
  obtain s c e where s: "sup_reachable Debug tagged_hash example_queue (example_executor Debug) (s, 5 + 1)" "cells s 1 = Some c"
      "entries (checkpoints c) = [e]" "pages (dirty (memory c)) = {}" "length (register_digest e) = 32"
      "hashed_msgs tagged_hash c \<subseteq> tagged_msgs 1" "image_page (memory c) 0 = marked_page (of_nat 5)"
    by (rule tagged_history)
  obtain s' d e' where s': "sup_reachable Debug tagged_hash example_queue (example_executor Debug) (s', 6 + 1)" "cells s' 1 = Some d"
      "entries (checkpoints d) = [e']" "pages (dirty (memory d)) = {}" "length (register_digest e') = 32"
      "hashed_msgs tagged_hash d \<subseteq> tagged_msgs 1" "image_page (memory d) 0 = marked_page (of_nat 6)"
    by (rule tagged_history)
  have latest: "latest (checkpoints c) = Some e" "latest (checkpoints d) = Some e'" using s(3) s'(3) by (simp_all add: latest_def)
  have inj: "inj_on tagged_hash (hashed_msgs tagged_hash c \<union> hashed_msgs tagged_hash d)"
    by (rule inj_on_subset [OF tagged_msgs_inj [of 1]]) (use s(6) s'(6) in blast)
  have "chain_hash e \<noteq> chain_hash e'"
  proof
    assume "chain_hash e = chain_hash e'"
    then have "image_page (memory c) = image_page (memory d)"
      using chain_head_binds_execution [OF example_executor_contract example_queue_sound s(1,2)
          example_executor_contract example_queue_sound s'(1,2) _ _ inj latest] s(3-5) s'(3-5)
      by simp
    then have "marked_page (of_nat 5) ! 7 = marked_page (of_nat 6) ! 7" using s(7) s'(7) by simp
    then show False by (simp add: zero_page_def PAGE_SIZE_def)
  qed
  then show ?thesis using s(1,2) s'(1,2) latest by (intro exI [of _ s] exI [of _ c] exI [of _ e] exI [of _ s'] exI [of _ d] exI [of _ e']) simp
qed

end
