(* ===== verification/Progress.thy ===== *)
theory Progress
  imports Determinism
begin

section \<open>Every tenant keeps being checkpointed\<close>

text \<open>
  Progress of whole runs. The scheduler serves the cells in rotation, a dispatch takes a due
  checkpoint, and a refused batch does not undo it; so after one full rotation no cell is
  further behind its last checkpoint than its interval and the rest of the rotation. The measure is
  the position of a cell in the rotation, counted from the end.
\<close>

subsection \<open>How far a cell is behind\<close>

definition lag :: "'q supervisor \<Rightarrow> cell \<Rightarrow> nat" where
  "lag s c = unat (current_tick_of (sup_scheduler s)) - unat (last_checkpoint_tick c)"

text \<open>The last \<open>k\<close> cells of the rotation, those dispatched most recently, are not far behind.\<close>

definition served :: "nat \<Rightarrow> 'q supervisor \<Rightarrow> bool" where
  "served k s \<longleftrightarrow>
     (\<forall>j < min k (length (order (sup_scheduler s))). \<forall>c. cells s (rev (order (sup_scheduler s)) ! j) = Some c \<longrightarrow>
        lag s c < max 1 (unat (checkpoint_interval_ticks (config c))) + j)"

text \<open>The next cycle's quantum, if a cell is dispatched, does not fault; and no quantum of a run does.\<close>

definition quantum_succeeds :: "'x quantum_executor \<Rightarrow> 'q supervisor \<Rightarrow> 'x \<Rightarrow> bool" where
  "quantum_succeeds X s x \<longleftrightarrow>
     (case order (sup_scheduler s) of
        [] \<Rightarrow> True
      | i # _ \<Rightarrow>
          (case cells s i of
             None \<Rightarrow> True
           | Some c \<Rightarrow>
               (case run_quantum X x (quantum_cell c) (max_instructions_per_quantum s) of
                  Inr (Inr _, _, _) \<Rightarrow> True
                | _ \<Rightarrow> False)))"

fun no_faults ::
  "build \<Rightarrow> 'q array_queue_api \<Rightarrow> hash_fn \<Rightarrow> 'x quantum_executor \<Rightarrow> 'q supervisor \<Rightarrow> 'x
     \<Rightarrow> (u64 \<times> digest) iter_order list \<Rightarrow> bool" where
  "no_faults b api H X s x [] \<longleftrightarrow> True"
| "no_faults b api H X s x (od # ods) \<longleftrightarrow>
     quantum_succeeds X s x \<and>
     (case run_one_cycle b api od H X s x of
        Inl _ \<Rightarrow> True
      | Inr (r, s', x') \<Rightarrow> no_faults b api H X s' x' ods)"

lemma cycle_dom:
  assumes "executor_contract b X" and "queue_sound api held" and "sup_inv b H api held s"
    and "unat (current_tick_of (sup_scheduler s)) + 1 < 2 ^ 64" and "run_one_cycle b api od H X s x = Inr (r, s', x')"
  shows "dom (cells s') = dom (cells s)"
proof (cases "order (sup_scheduler s)")
  case Nil
  then show ?thesis using assms(5) by (simp add: run_one_cycle_idle)
next
  case (Cons i "is")
  obtain c where c: "cells s i = Some c" by (rule dispatched_cell [OF assms(3) Cons])
  obtain res y c' where q: "run_quantum X x (quantum_cell c) (max_instructions_per_quantum s) = Inr (res, y, c')"
    by (rule dispatched_quantum [OF assms(3,1) c])
  obtain d where "cells s' = (cells s)(i \<mapsto> d)"
    using cycle_effect [OF assms(3,1,2) Cons assms(4) c q refl, of od] assms(5) by auto
  then show ?thesis using c by auto
qed

lemma cycle_served:
  assumes contract: "executor_contract b X" and sound: "queue_sound api held" and reach: "sup_reachable b H api X (s, x)"
    and room: "unat (current_tick_of (sup_scheduler s)) + 1 < 2 ^ 64" and ok: "quantum_succeeds X s x" and served: "served k s"
    and run: "run_one_cycle b api od H X s x = Inr (r, s', x')"
  shows "served (Suc k) s'"
proof (cases "order (sup_scheduler s)")
  case Nil
  then show ?thesis using run by (simp add: run_one_cycle_idle served_def)
next
  case (Cons i "is")
  have inv: "sup_inv b H api held s" using sup_reachable_inv [OF contract sound reach] by simp
  obtain c where c: "cells s i = Some c" by (rule dispatched_cell [OF inv Cons])
  obtain res y c' where q0: "run_quantum X x (quantum_cell c) (max_instructions_per_quantum s) = Inr (res, y, c')"
    by (rule dispatched_quantum [OF inv contract c])
  then obtain n where q: "run_quantum X x (quantum_cell c) (max_instructions_per_quantum s) = Inr (Inr n, y, c')"
    using ok by (cases res) (simp_all add: quantum_succeeds_def Cons c)
  obtain d where d: "cells s' = (cells s)(i \<mapsto> d)" "order (sup_scheduler s') = is @ [i]"
      "current_tick_of (sup_scheduler s') = current_tick_of (sup_scheduler s) + 1"
    using cycle_effect [OF inv contract sound Cons room c q refl, of od] run by auto
  have fresh: "lag s' d < max 1 (unat (checkpoint_interval_ticks (config d)))"
    using checkpoint_lag_bounded [OF contract sound reach room Cons c q, of od] run d(1) by (auto simp: lag_def)
  have notin: "i \<notin> set is" using inv Cons by (simp add: sup_inv_def)
  have tick: "lag s' e \<le> lag s e + 1" for e using room by (simp add: lag_def d(3) unat_Suc_small)
  have "lag s' e < max 1 (unat (checkpoint_interval_ticks (config e))) + j"
    if j: "j < min (Suc k) (Suc (length is))" and e: "cells s' (rev (is @ [i]) ! j) = Some e" for j e
  proof (cases j)
    case 0
    then show ?thesis using fresh e d(1) by simp
  next
    case (Suc m)
    then have m: "m < length is" "m < min k (length (order (sup_scheduler s)))" using j Cons by simp_all
    have "rev is ! m \<in> set is" using m(1) by (metis length_rev nth_mem set_rev)
    then have ne: "rev is ! m \<noteq> i" using notin by blast
    then have "cells s (rev (order (sup_scheduler s)) ! m) = Some e"
      using e Suc d(1) m(1) Cons by (simp add: nth_append)
    then have "lag s e < max 1 (unat (checkpoint_interval_ticks (config e))) + m"
      using served m(2) unfolding served_def by blast
    then show ?thesis using tick [of e] Suc by simp
  qed
  then show ?thesis using Cons d(1,2) c by (auto simp: served_def)
qed

lemma run_served:
  assumes "executor_contract b X" and "queue_sound api held"
    and "sup_reachable b H api X (s, x)" and "unat (current_tick_of (sup_scheduler s)) + length ods < 2 ^ 64" and "served k s"
  shows "\<exists>rs s' x'. run_cycles b api H X s x ods = Inr (rs, s', x') \<and> sup_reachable b H api X (s', x') \<and>
    dom (cells s') = dom (cells s) \<and> (no_faults b api H X s x ods \<longrightarrow> served (k + length ods) s')"
  using assms(3-)
proof (induction ods arbitrary: s x k)
  case (Cons od ods)
  have inv: "sup_inv b H api held s" using sup_reachable_inv [OF assms(1,2) Cons.prems(1)] by simp
  have room: "unat (current_tick_of (sup_scheduler s)) + Suc (length ods) < 2 ^ 64"
      "unat (current_tick_of (sup_scheduler s)) + 1 < 2 ^ 64"
    using Cons.prems(2) by simp_all
  obtain r s1 x1 where one: "run_one_cycle b api od H X s x = Inr (r, s1, x1)"
    using run_one_cycle_inv [OF inv assms(1,2) room(2)] by blast
  note dom1 = cycle_dom [OF assms(1,2) inv room(2) one]
  define k1 where "k1 = (if quantum_succeeds X s x then Suc k else 0)"
  have "served k1 s1"
    using cycle_served [OF assms(1,2) Cons.prems(1) room(2) _ Cons.prems(3) one] by (simp add: k1_def served_def)
  from Cons.IH [OF cycle_reachable [OF assms(1,2) Cons.prems(1) room(1) one] this] one dom1
  show ?case by (auto simp: k1_def)
qed auto

subsection \<open>Properties\<close>

text \<open>
  Property C17. Every tenant keeps being checkpointed. From every reachable state with that many
  ticks left, any run completes with the same tenants, whether or not quanta fault, the standby
  falls behind or the ring refuses batches; and when the run is at least one full rotation long and
  none of its quanta faults, then at its end every cell was last checkpointed less than its
  interval plus the rest of the rotation ago.
\<close>

theorem checkpoint_progress:
  assumes "executor_contract b X" and "queue_sound api held" and "sup_reachable b H api X (s, x)"
    and "unat (current_tick_of (sup_scheduler s)) + length ods < 2 ^ 64"
  shows "\<exists>rs s' x'. run_cycles b api H X s x ods = Inr (rs, s', x') \<and> dom (cells s') = dom (cells s) \<and>
    (card (dom (cells s)) \<le> length ods \<longrightarrow> no_faults b api H X s x ods \<longrightarrow>
     (\<forall>i c. cells s' i = Some c \<longrightarrow>
       unat (current_tick_of (sup_scheduler s')) - unat (last_checkpoint_tick c)
         < max 1 (unat (checkpoint_interval_ticks (config c))) + (card (dom (cells s)) - 1)))"
proof -
  obtain rs s' x' where run: "run_cycles b api H X s x ods = Inr (rs, s', x')" "sup_reachable b H api X (s', x')"
      "dom (cells s') = dom (cells s)" "no_faults b api H X s x ods \<longrightarrow> served (length ods) s'"
    using run_served [OF assms(1-4), of 0] by (auto simp: served_def)
  have inv: "sup_inv b H api held s'" using sup_reachable_inv [OF assms(1,2) run(2)] by simp
  let ?is = "order (sup_scheduler s')"
  have rot: "distinct ?is" "set ?is = dom (cells s)" using inv run(3) by (simp_all add: sup_inv_def)
  have len: "length ?is = card (dom (cells s))" using distinct_card [OF rot(1)] rot(2) by simp
  have "lag s' c < max 1 (unat (checkpoint_interval_ticks (config c))) + (card (dom (cells s)) - 1)"
    if c: "cells s' i = Some c" and enough: "card (dom (cells s)) \<le> length ods" and ok: "no_faults b api H X s x ods" for i c
  proof -
    have "i \<in> set (rev ?is)" using c rot(2) run(3) by auto
    then obtain j where j: "j < length ?is" "rev ?is ! j = i" unfolding in_set_conv_nth by auto
    then have "lag s' c < max 1 (unat (checkpoint_interval_ticks (config c))) + j"
      using run(4) ok c len enough by (simp add: served_def)
    then show ?thesis using j(1) len by simp
  qed
  then show ?thesis using run(1,3) by (auto simp: lag_def)
qed

text \<open>A guest that carries on after a failed store: two tenants of it, with a ring of one batch.\<close>

definition tolerant_executor :: "nat quantum_executor" where
  "tolerant_executor =
     \<lparr>run_quantum = (\<lambda>x c n. and_then (run_quantum (example_executor Debug) x c n)
        (\<lambda>(res, y). Inr (Inr (case res of Inl _ \<Rightarrow> 0 | Inr k \<Rightarrow> k), y))),
      execution_digest = execution_digest (example_executor Debug)\<rparr>"

lemma tolerant_executor_contract: "executor_contract Debug tolerant_executor"
  using example_executor_contract [of Debug]
  unfolding executor_contract_def tolerant_executor_def by (auto split: prod.splits) blast+

lemma tolerant_no_faults:
  assumes "sup_reachable Debug example_hash example_queue tolerant_executor (s, x)"
    and "unat (current_tick_of (sup_scheduler s)) + length ods < 2 ^ 64"
  shows "no_faults Debug example_queue example_hash tolerant_executor s x ods"
  using assms
proof (induction ods arbitrary: s x)
  case (Cons od ods)
  note reach = cycle_reachable [OF tolerant_executor_contract example_queue_sound Cons.prems(1)]
  have inv: "sup_inv Debug example_hash example_queue snd s"
    using sup_reachable_inv [OF tolerant_executor_contract example_queue_sound Cons.prems(1)] by simp
  have room: "unat (current_tick_of (sup_scheduler s)) + Suc (length ods) < 2 ^ 64" using Cons.prems(2) by simp
  have "quantum_succeeds tolerant_executor s x"
  proof (cases "order (sup_scheduler s)")
    case (Cons i "is")
    obtain c where c: "cells s i = Some c" by (rule dispatched_cell [OF inv Cons])
    obtain res y c' where "run_quantum tolerant_executor x (quantum_cell c) (max_instructions_per_quantum s) = Inr (res, y, c')"
      by (rule dispatched_quantum [OF inv tolerant_executor_contract c])
    moreover from this have "\<not> isl res" by (auto simp: tolerant_executor_def)
    ultimately show ?thesis by (cases res) (simp_all add: quantum_succeeds_def Cons c)
  qed (simp add: quantum_succeeds_def)
  then show ?case using Cons.IH reach [OF room] by (auto split: sum.split)
qed simp

theorem checkpoint_progress_witness:
  "\<exists>s rs s' x'. dom (cells s) = {1, 2} \<and>
     run_cycles Debug example_queue example_hash tolerant_executor s 0 [reverse_order, reverse_order, reverse_order] = Inr (rs, s', x') \<and>
     dom (cells s') = {1, 2} \<and>
     (\<forall>i c. cells s' i = Some c \<longrightarrow>
        unat (current_tick_of (sup_scheduler s')) - unat (last_checkpoint_tick c)
          < max 1 (unat (checkpoint_interval_ticks (config c))) + (card {1 :: CellId, 2} - 1))"
proof -
  obtain s c d where s: "\<forall>x. sup_reachable Debug example_hash example_queue tolerant_executor (s, x)"
      "current_tick_of (sup_scheduler s) = 0" "cells s = [1 \<mapsto> c, 2 \<mapsto> d]"
    by (rule example_tenants [of 1 Debug example_hash tolerant_executor]) simp_all
  have dom: "dom (cells s) = {1, 2}" using s(3) by auto
  let ?o = "[reverse_order, reverse_order, reverse_order]"
  have room: "unat (current_tick_of (sup_scheduler s)) + length ?o < 2 ^ 64" by (simp add: s(2))
  note ok = tolerant_no_faults [OF spec [OF s(1), of 0] room]
  show ?thesis
    using checkpoint_progress [OF tolerant_executor_contract example_queue_sound spec [OF s(1), of 0] room] ok
    by (intro exI [of _ s]) (simp del: no_faults.simps run_cycles.simps add: dom)
qed

end
