(* ===== verification/Guest_Profiles.thy ===== *)
theory Guest_Profiles
  imports Supervised_Replay
begin

section \<open>Quanta of a debug and of a release build\<close>

text \<open>
  The executor of Guest_Execution built in either profile. What a debug build returns a
  release build returns too; and a debug build returns, as long as the recorder's
  ordinal counter of the tick does not overflow, which the budget of a quantum excludes. So the
  quanta of the two builds are the same, dirty marking and host calls included.
\<close>

subsection \<open>What a debug build returns, a release build returns\<close>

lemma plus_build_release: "plus_build Debug x y = Inr z \<Longrightarrow> plus_build Release x y = Inr z"
  by (simp add: plus_build_def split: if_splits)

lemma fold_run_release:
  assumes "\<And>s x s'. f s x = Inr s' \<Longrightarrow> g s x = Inr s'" and "fold_run f s xs = Inr s'"
  shows "fold_run g s xs = Inr s'"
  using assms(2)
proof (induction xs arbitrary: s)
  case (Cons x xs)
  then show ?case using assms(1) by (auto 0 3)
qed simp

lemma mark_dirty_release:
  assumes "mark_dirty Debug m p = Inr m'"
  shows "mark_dirty Release m p = Inr m'"
proof -
  have "mark Release d p = Inr d'" if "mark Debug d p = Inr d'" for d d'
    using that by (auto simp: mark_def Let_def dest: plus_build_release split: if_splits)
  then show ?thesis using assms by (auto simp: mark_dirty_def)
qed

lemma guest_store_release:
  assumes "guest_store Debug m p len bytes = Inr r"
  shows "guest_store Release m p len bytes = Inr r"
proof (cases "translate m p len")
  case (Inr a)
  then obtain m1 m2 where "host_write m a (unat len) bytes = Inr m1"
      "fold_run (mark_dirty Debug) m1 (touched_pages p len) = Inr m2" "r = Inr m2"
    using assms by (auto simp: guest_store_def)
  then show ?thesis using fold_run_release [OF mark_dirty_release] Inr by (simp add: guest_store_def)
qed (use assms in \<open>simp add: guest_store_def\<close>)

lemma next_ordinal_release: "next_ordinal Debug r t = Inr y \<Longrightarrow> next_ordinal Release r t = Inr y"
  by (auto simp: next_ordinal_def Let_def dest: plus_build_release)

lemma host_call_release_build:
  assumes "host_call (recorder_ops Debug) src r q h = Inr y"
  shows "host_call (recorder_ops Release) src r q h = Inr y"
  using assms by (cases q) (auto simp: wall_clock_now_def random_bytes_def dest!: next_ordinal_release)

lemma guest_step_release:
  assumes "guest_step Debug src t a c h = Inr y"
  shows "guest_step Release src t a c h = Inr y"
  using assms
  by (cases a) (auto simp: guest_step_def dest!: guest_store_release host_call_release_build)

lemma quantum_loop_release:
  assumes "quantum_loop Debug src G t n g c h = Inr y"
  shows "quantum_loop Release src G t n g c h = Inr y"
  using assms
proof (induction n arbitrary: g c h y)
  case (Suc n)
  obtain r c1 h1 where step: "guest_step Debug src t (G g) c h = Inr (r, c1, h1)" using Suc.prems by auto
  show ?case
  proof (cases r)
    case (Inl f)
    then show ?thesis using Suc.prems step guest_step_release [OF step] by simp
  next
    case (Inr g1)
    then obtain res g2 c2 h2 where "quantum_loop Debug src G t n g1 c1 h1 = Inr (res, g2, c2, h2)"
        "y = (map_sum id Suc res, g2, c2, h2)"
      using Suc.prems step by auto
    then show ?thesis using Suc.IH guest_step_release [OF step] Inr by simp
  qed
qed simp

lemma hosted_release:
  assumes "run_quantum (hosted_executor Debug src G dg) x c n = Inr q"
  shows "run_quantum (hosted_executor Release src G dg) x c n = Inr q"
proof -
  obtain gs t h where x: "x = (gs, t, h)" using prod_cases3 by blast
  show ?thesis using assms by (auto simp: hosted_executor_def x Let_def dest!: quantum_loop_release)
qed

subsection \<open>A debug build returns\<close>

text \<open>The host calls the recorder has served at tick \<open>t\<close>.\<close>

definition calls_made :: "Tick \<Rightarrow> event_recorder \<Rightarrow> nat" where
  "calls_made t r = unat (call_ordinal (next_key r t))"

lemma next_ordinal_counts:
  assumes "calls_made t r + 1 < 2 ^ 64"
  shows "next_ordinal b r t = Inr (call_ordinal (next_key r t),
    r\<lparr>current_tick := t, current_ordinal := call_ordinal (next_key r t) + 1\<rparr>)"
proof -
  have "plus_build b (call_ordinal (next_key r t)) 1 = Inr (call_ordinal (next_key r t) + 1)"
    using assms by (intro plus_build_Inr) (simp add: calls_made_def)
  then show ?thesis by (auto simp: next_ordinal_def next_key_def Let_def)
qed

lemma host_call_returns:
  assumes "calls_made t r + 1 < 2 ^ 64"
  obtains v r' h' where "host_call (recorder_ops b) src r (request_at t q) h = Inr (v, r', h')"
    and "calls_made t r' = calls_made t r + 1"
proof -
  let ?n = "call_ordinal (next_key r t) + 1"
  have n: "unat ?n = calls_made t r + 1"
    using assms unat_Suc_small [of "call_ordinal (next_key r t)"] by (simp add: calls_made_def)
  have "\<exists>v r' h'. host_call (recorder_ops b) src r (request_at t q) h = Inr (v, r', h') \<and>
      current_tick r' = t \<and> current_ordinal r' = ?n"
    using next_ordinal_counts [OF assms, of b]
    by (cases q) (auto simp: wall_clock_now_def random_bytes_def Let_def
        split: recorder_mode.split option.split recorded_value.split prod.split)
  then show thesis using that n by (auto simp: calls_made_def next_key_def)
qed

lemma guest_step_debug:
  assumes "mem_inv (memory c)" and "calls_made t (recorder c) + 1 < 2 ^ 64"
  obtains res c' h' where "guest_step b src t a c h = Inr (res, c', h')"
    and "calls_made t (recorder c') \<le> calls_made t (recorder c) + 1"
proof (cases "\<exists>q k. a = Host q k")
  case True
  then obtain q k where a: "a = Host q k" by blast
  obtain v r' h' where "host_call (recorder_ops b) src (recorder c) (request_at t q) h = Inr (v, r', h')"
      "calls_made t r' = calls_made t (recorder c) + 1"
    by (rule host_call_returns [OF assms(2)])
  then show thesis using that by (simp add: guest_step_def a)
next
  case False
  have "\<exists>res c' h'. guest_step b src t a c h = Inr (res, c', h')"
  proof (cases a)
    case (Store p len bytes g)
    obtain r where "guest_store b (memory c) p len bytes = Inr r" by (rule guest_store_returns [OF assms(1)])
    then show ?thesis using Store by (cases r) (simp_all add: guest_step_def)
  qed (use False in \<open>auto simp: guest_step_def guest_load_eq [OF assms(1)] split: sum.split prod.split\<close>)
  then obtain res c' h' where step: "guest_step b src t a c h = Inr (res, c', h')" by blast
  then show thesis using that guest_step_recorder [OF False step] by simp
qed

lemma quantum_loop_debug:
  assumes "guest_ready b' c" and "calls_made t (recorder c) + n < 2 ^ 64"
  shows "\<exists>q. quantum_loop b src G t n g c h = Inr q"
  using assms
proof (induction n arbitrary: g c h)
  case (Suc n)
  obtain r c1 h1 where step: "guest_step b src t (G g) c h = Inr (r, c1, h1)"
      "calls_made t (recorder c1) \<le> calls_made t (recorder c) + 1"
    by (rule guest_step_debug [of c t b src "G g" h]) (use Suc.prems in \<open>auto simp: guest_ready_def\<close>)
  have "guest_ready b' c1" by (rule cell_kept_ready [OF Suc.prems(1) guest_step_kept [OF Suc.prems(1) step(1)]])
  then have "\<exists>q. quantum_loop b src G t n g1 c1 h1 = Inr q" for g1
    using Suc.IH step(2) Suc.prems(2) by simp
  then show ?case using step(1) by (cases r) (auto, metis prod_cases4)
qed simp

text \<open>A quantum leaves the recorder at the tick it was at, or at the quantum's tick.\<close>

lemma host_call_tick:
  assumes "host_call (recorder_ops b) src r (request_at t q) h = Inr (v, r', h')"
  shows "current_tick r' = t"
proof -
  obtain n r1 where n: "next_ordinal b r t = Inr (n, r1)"
    using assms by (cases q) (auto simp: wall_clock_now_def random_bytes_def)
  then have "current_tick r1 = t" by (auto simp: next_ordinal_def Let_def split: if_splits)
  then show ?thesis using assms n
    by (cases q; cases "mode r1") (auto simp: wall_clock_now_def random_bytes_def Let_def
        split: option.splits recorded_value.splits prod.splits if_splits)
qed

lemma quantum_loop_tick:
  assumes "quantum_loop b src G t n g c h = Inr (res, g', c', h')"
  shows "current_tick (recorder c') = current_tick (recorder c) \<or> current_tick (recorder c') = t"
  using assms
proof (induction n arbitrary: g c h res)
  case (Suc n)
  obtain r c1 h1 where step: "guest_step b src t (G g) c h = Inr (r, c1, h1)" using Suc.prems by auto
  have one: "current_tick (recorder c1) = current_tick (recorder c) \<or> current_tick (recorder c1) = t"
  proof (cases "\<exists>q k. G g = Host q k")
    case True
    then obtain q k where a: "G g = Host q k" by blast
    then obtain v r' where v: "host_call (recorder_ops b) src (recorder c) (request_at t q) h = Inr (v, r', h1)" "c1 = c\<lparr>recorder := r'\<rparr>"
      using step by (auto simp: guest_step_def)
    show ?thesis using host_call_tick [OF v(1)] v(2) by simp
  qed (use guest_step_recorder [OF _ step] in simp)
  show ?case
  proof (cases r)
    case (Inr g1)
    then obtain res1 where "quantum_loop b src G t n g1 c1 h1 = Inr (res1, g', c', h')" using Suc.prems step by auto
    then show ?thesis using Suc.IH one by metis
  qed (use Suc.prems step one in simp)
qed simp

subsection \<open>Both builds\<close>

text \<open>The quantum of a cell whose recorder is behind: the same in both profiles, without a panic.\<close>

lemma hosted_quantum_profiles:
  assumes "guest_ready Debug c" and "current_tick (recorder c) \<le> T" and "unat T + 1 < 2 ^ 64"
  obtains q where "run_quantum (hosted_executor Debug src G dg) (gs, T, h) c n = Inr q"
    and "run_quantum (hosted_executor Release src G dg) (gs, T, h) c n = Inr q"
proof -
  have "T < T + 1" using unat_Suc_small [of T] assms(3) by (simp add: word_less_nat_alt)
  then have "current_tick (recorder c) \<noteq> T + 1" using assms(2) by auto
  then have "calls_made (T + 1) (recorder c) + unat n < 2 ^ 64"
    using u64_less [of n] by (simp add: calls_made_def next_key_def)
  from quantum_loop_debug [OF assms(1) this]
  obtain res g c' h' where "quantum_loop Debug src G (T + 1) (unat n) (gs (config_id (config c))) c h = Inr (res, g, c', h')"
    by (metis prod_cases4)
  from hosted_quantum_eq [where dg = dg and gs = gs, OF this] that hosted_release show thesis by blast
qed

lemma hosted_quantum_tick:
  assumes "run_quantum (hosted_executor b src G dg) (gs, T, h) c n = Inr (res, x', c')"
  shows "\<exists>gs' h'. x' = (gs', T + 1, h')"
    and "current_tick (recorder c') = current_tick (recorder c) \<or> current_tick (recorder c') = T + 1"
  using assms quantum_loop_tick by (fastforce simp: hosted_executor_def Let_def)+

end
