(* ===== verification/Build_Panics.thy ===== *)
theory Build_Panics
  imports Guest_Profiles
begin

section \<open>Exactly where a debug build panics\<close>

text \<open>
  The two build profiles run the same cycle, except that a debug build checks arithmetic and
  \<open>debug_assert!\<close>. The theory determines, for every reachable state of a release build, which
  cycles panic in a debug build and with what, and that all others compute the same.
\<close>

subsection \<open>The panics of a cycle\<close>

text \<open>A dirty page that is not committed in full: the last one, when the size is no multiple of a page.\<close>

definition partial_dirty :: "mmap_guarded_memory \<Rightarrow> bool" where
  "partial_dirty m \<longleftrightarrow> list_ex (\<lambda>p. unat (size_bytes m) < (unat p + 1) * PAGE_SIZE) (iter_dirty (dirty m))"

definition debug_panic :: "'x quantum_executor \<Rightarrow> 'q supervisor \<Rightarrow> 'x \<Rightarrow> panic option" where
  "debug_panic X s x =
     (case order (sup_scheduler s) of
        [] \<Rightarrow> None
      | i # _ \<Rightarrow>
          if unat (current_tick_of (sup_scheduler s)) + 1 = 2 ^ 64 then Some ArithmeticOverflow
          else case cells s i of
            None \<Rightarrow> None
          | Some c \<Rightarrow>
              (case run_quantum X x (quantum_cell c) (max_instructions_per_quantum s) of
                 Inl e \<Rightarrow> Some e
               | Inr (res, x', c') \<Rightarrow>
                   if \<not> isl res \<and> checkpoint_due c (current_tick_of (sup_scheduler s) + 1) \<and> partial_dirty (memory c')
                   then Some DebugAssertion else None))"

subsection \<open>Reading the dirty pages\<close>

lemma fold_run_fails:
  assumes "\<forall>s. \<forall>x\<in>set xs. f s x = Inl e \<or> (\<exists>s'. f s x = Inr s')" and "x \<in> set xs" and "\<forall>s. f s x = Inl e"
  shows "fold_run f s xs = Inl e"
  using assms
proof (induction xs arbitrary: s)
  case (Cons y ys)
  show ?case
  proof (cases "f s y")
    case (Inl e')
    moreover have "f s y = Inl e \<or> (\<exists>s'. f s y = Inr s')" using Cons.prems(1) by simp
    ultimately show ?thesis by auto
  next
    case (Inr s')
    then have "x \<in> set ys" using Cons.prems(2,3) by auto
    then show ?thesis using Inr Cons.IH [of s'] Cons.prems(1,3) by simp
  qed
qed simp

lemma partial_dirty_iff:
  assumes "mem_inv m"
  shows "partial_dirty m \<longleftrightarrow> (\<exists>p\<in>pages (dirty m). unat (size_bytes m) < (unat p + 1) * PAGE_SIZE)"
  using assms by (simp add: partial_dirty_def list_ex_iff mem_inv_def set_iter_dirty)

text \<open>Readable in a debug build is readable in a release build, with every dirty page committed in full.\<close>

lemma cell_inv_debug:
  assumes "cell_inv Release H c" and "\<not> partial_dirty (memory c)"
  shows "cell_inv Debug H c"
proof -
  have "mem_inv (memory c)" using assms(1) by (simp add: cell_inv_def)
  then show ?thesis using assms by (auto simp: cell_inv_def dirty_readable_def partial_dirty_iff)
qed

lemma flush_panics:
  assumes "cell_inv Release H c" and "partial_dirty (memory c)"
  shows "checkpoint_and_flush Debug api od H reg i t s c = Inl DebugAssertion"
proof -
  have inv: "mem_inv (memory c)" using assms(1) by (simp add: cell_inv_def)
  have set: "set (iter_dirty (dirty (memory c))) = pages (dirty (memory c))"
    using inv by (simp add: mem_inv_def set_iter_dirty)
  obtain p where p: "p \<in> pages (dirty (memory c))" "unat (size_bytes (memory c)) < (unat p + 1) * PAGE_SIZE"
    using assms(2) partial_dirty_iff [OF inv] by blast
  have page: "page_bytes Debug (memory c) q =
      (if unat (size_bytes (memory c)) < (unat q + 1) * PAGE_SIZE then Inl DebugAssertion else Inr (page_content (memory c) q))"
    if "q \<in> pages (dirty (memory c))" for q
    using that assms(1) page_bytes_eq [OF inv, of q Debug] by (auto simp: cell_inv_def dirty_readable_def)
  have "fold_run (\<lambda>tr p. and_then (page_bytes Debug (memory c) p) (\<lambda>bs. Inr (update_leaf H tr p bs)))
      (tree (checkpoints c)) (iter_dirty (dirty (memory c))) = Inl DebugAssertion"
    by (rule fold_run_fails [where x = p]) (use p in \<open>auto simp: set page\<close>)
  then show ?thesis by (simp add: checkpoint_and_flush_def checkpoint_def dirty_pages_def Let_def)
qed

subsection \<open>A cycle of a debug build\<close>

lemma cycle_overflow:
  assumes "order (sup_scheduler s) = i # is" and "unat (current_tick_of (sup_scheduler s)) + 1 = 2 ^ 64"
  shows "run_one_cycle Debug api od H X s x = Inl ArithmeticOverflow"
  using assms(1) advance_exhausted [of "clock (sup_scheduler s)"] assms(2)
  by (simp add: run_one_cycle_def next_dispatch_def current_tick_of_def)

text \<open>
  A release build goes on instead: the counter wraps to 0, and no cell with a positive interval is
  checkpointed again until the counter has passed its last checkpoint a second time.
\<close>

lemma release_tick_wraps:
  assumes "order (sup_scheduler s) = i # is" and "current_tick_of (sup_scheduler s) = - 1" and "cells s i = Some c"
    and "checkpoint_interval_ticks (config c) \<noteq> 0"
    and "run_quantum X x (quantum_cell c) (max_instructions_per_quantum s) = Inr (res, x', c')"
  shows "\<exists>sch. order sch = is @ [i] \<and> current_tick_of sch = 0 \<and>
    run_one_cycle Release api od H X s x =
      Inr (Inr (Some (i, 0)), s\<lparr>sup_scheduler := sch, cells := (cells s)(i \<mapsto> c')\<rparr>, x')"
proof -
  obtain delivered p where d: "drain_for_dispatch (pending_io c) = (delivered, p)" by fastforce
  have q: "run_quantum X x (c\<lparr>pending_io := p\<rparr>) (max_instructions_per_quantum s) = Inr (res, x', c')"
    using assms(5) d by (simp add: quantum_cell_def)
  have due: "\<not> checkpoint_due c 0" using assms(4) by (simp add: checkpoint_due_iff unat_eq_0)
  let ?sch = "(sup_scheduler s)\<lparr>order := is @ [i], clock := (clock (sup_scheduler s))\<lparr>clock_tick := 0\<rparr>\<rparr>"
  have "next_dispatch Release (sup_scheduler s) (cells s) =
      Inr (Some \<lparr>outcome_cell = i, outcome_tick = 0, outcome_due = False\<rparr>, ?sch)"
    using assms(1-3) due
    by (simp add: next_dispatch_def advance_def plus_build_def current_tick_of_def snapshot_def Let_def)
  then have "run_one_cycle Release api od H X s x =
      Inr (Inr (Some (i, 0)), s\<lparr>sup_scheduler := ?sch, cells := (cells s)(i \<mapsto> c')\<rparr>, x')"
    using assms(3) d q by (cases res) (simp_all add: run_one_cycle_def Let_def)
  moreover have "order ?sch = is @ [i]" "current_tick_of ?sch = 0" by (simp_all add: current_tick_of_def snapshot_def)
  ultimately show ?thesis by blast
qed

lemma run_one_cycle_flush_panics:
  assumes "order (sup_scheduler s) = i # is" and "unat (current_tick_of (sup_scheduler s)) + 1 < 2 ^ 64" and "cells s i = Some c"
    and "run_quantum X x (quantum_cell c) (max_instructions_per_quantum s) = Inr (res, x', c')"
    and "t = current_tick_of (sup_scheduler s) + 1" and "\<not> isl res" and "checkpoint_due c t"
    and "\<And>u. checkpoint_and_flush b api od H (execution_digest X x' c') i t u c' = Inl e"
  shows "run_one_cycle b api od H X s x = Inl e"
  by (rule run_one_cycle_eq [OF assms(1-5), of b api od H]) (use assms(6-) in \<open>simp add: Let_def\<close>)

lemma run_one_cycle_debug:
  assumes inv: "sup_inv Release H api held s" and contract: "executor_contract Release X"
  shows "run_one_cycle Debug api od H X s x =
    (case debug_panic X s x of Some e \<Rightarrow> Inl e | None \<Rightarrow> run_one_cycle Release api od' H X s x)"
proof (cases "order (sup_scheduler s)")
  case Nil
  then show ?thesis by (simp add: run_one_cycle_idle debug_panic_def)
next
  case (Cons i "is")
  obtain c where c: "cells s i = Some c" by (rule dispatched_cell [OF inv Cons])
  show ?thesis
  proof (cases "unat (current_tick_of (sup_scheduler s)) + 1 = 2 ^ 64")
    case True
    then show ?thesis by (simp add: cycle_overflow [OF Cons True] debug_panic_def Cons)
  next
    case False
    then have room: "unat (current_tick_of (sup_scheduler s)) + 1 < 2 ^ 64"
      using u64_less [of "current_tick_of (sup_scheduler s)"] by simp
    obtain res x' c' where q: "run_quantum X x (quantum_cell c) (max_instructions_per_quantum s) = Inr (res, x', c')"
      by (rule dispatched_quantum [OF inv contract c])
    have "cell_inv Release H c" using inv c unfolding sup_inv_def by blast
    then have c': "cell_inv Release H c'" using executor_keeps_cell_inv(1) [OF contract q] by simp
    let ?t = "current_tick_of (sup_scheduler s) + 1"
    have panic: "debug_panic X s x = (if \<not> isl res \<and> checkpoint_due c ?t \<and> partial_dirty (memory c') then Some DebugAssertion else None)"
      using False by (simp add: debug_panic_def Cons c q)
    show ?thesis
    proof (cases "\<not> isl res \<and> checkpoint_due c ?t \<and> partial_dirty (memory c')")
      case True
      then have "run_one_cycle Debug api od H X s x = Inl DebugAssertion"
        by (intro run_one_cycle_flush_panics [OF Cons room c q refl] flush_panics [OF c']) simp_all
      then show ?thesis using True by (simp add: panic)
    next
      case False
      have "run_one_cycle Debug api od H X s x = run_one_cycle Release api od' H X s x"
        by (rule run_one_cycle_cong [OF Cons room c q q refl], rule checkpoint_and_flush_det [OF cell_inv_debug [OF c'] c'])
          (use False in blast)
      then show ?thesis using False by (auto simp: panic)
    qed
  qed
qed

subsection \<open>What a debug build reaches\<close>

text \<open>Spawning is the same in both profiles, so a release build reaches every state a debug build reaches.\<close>

lemma spawn_cell_profile: "spawn_cell Debug os H s cfg md = spawn_cell Release os H s cfg md"
proof -
  have small: "unat (rounded_len q div of_nat PAGE_SIZE :: usize) + 63 < 2 ^ 64" for q
    using quota_pages_bounds(2) [of q] by (simp add: rounded_len_div)
  have "new_DirtyPageSet Debug (rounded_len q div of_nat PAGE_SIZE) = new_DirtyPageSet Release (rounded_len q div of_nat PAGE_SIZE)" for q
    using small [of q] by (simp add: new_DirtyPageSet_def plus_build_def not_le)
  then have "n \<le> q \<Longrightarrow> new_MmapGuardedMemory Debug os n q = new_MmapGuardedMemory Release os n q" for n q
    by (simp only: new_MmapGuardedMemory_eq)
  moreover have "\<not> n \<le> q \<Longrightarrow> new_MmapGuardedMemory Debug os n q = new_MmapGuardedMemory Release os n q" for n q
    by (simp add: new_MmapGuardedMemory_def not_le)
  ultimately have "new_MmapGuardedMemory Debug os n q = new_MmapGuardedMemory Release os n q" for n q
    by (cases "n \<le> q") blast+
  then have "new_Cell Debug os H cfg md = new_Cell Release os H cfg md" by (simp only: new_Cell_def)
  then show ?thesis by (simp only: spawn_cell_def)
qed

text \<open>
  The executor may be built in the same profile: \<open>X\<close> below is one that returns only what \<open>Y\<close>
  returns, as the executor of a debug build and the one of a release build do.
\<close>

lemma cycle_quantum:
  assumes "order (sup_scheduler s) = i # is" and "unat (current_tick_of (sup_scheduler s)) + 1 < 2 ^ 64" and "cells s i = Some c"
    and "run_one_cycle b api od H X s x = Inr out"
  obtains res x' c' where "run_quantum X x (quantum_cell c) (max_instructions_per_quantum s) = Inr (res, x', c')"
proof -
  obtain delivered p where d: "drain_for_dispatch (pending_io c) = (delivered, p)" by fastforce
  obtain q where "run_quantum X x (c\<lparr>pending_io := p\<rparr>) (max_instructions_per_quantum s) = Inr q"
    using next_dispatch_eq [OF assms(1,2), of b "cells s"] assms(3,4) d by (auto simp: run_one_cycle_def Let_def)
  then show thesis using that d by (cases q) (simp add: quantum_cell_def)
qed

lemma cycle_release:
  assumes inv: "sup_inv Release H api held s" and room: "unat (current_tick_of (sup_scheduler s)) + 1 < 2 ^ 64"
    and refine: "\<And>x c n q. run_quantum X x c n = Inr q \<Longrightarrow> run_quantum Y x c n = Inr q"
    and dg: "execution_digest X = execution_digest Y" and run: "run_one_cycle b api od H X s x = Inr out"
  shows "run_one_cycle b api od H Y s x = Inr out"
proof (cases "order (sup_scheduler s)")
  case Nil
  then show ?thesis using run by (simp add: run_one_cycle_idle)
next
  case (Cons i "is")
  obtain c where c: "cells s i = Some c" by (rule dispatched_cell [OF inv Cons])
  obtain res x' c' where q: "run_quantum X x (quantum_cell c) (max_instructions_per_quantum s) = Inr (res, x', c')"
    by (rule cycle_quantum [OF Cons room c run])
  show ?thesis using run_one_cycle_cong [OF Cons room c q refine [OF q] refl, of b api od H b od] dg run by simp
qed

lemma debug_reachable_of:
  assumes contract: "executor_contract Release Y" and sound: "queue_sound api held" and reach: "sup_reachable b H api X sx"
    and refine: "\<And>x c n q. run_quantum X x c n = Inr q \<Longrightarrow> run_quantum Y x c n = Inr q"
    and dg: "execution_digest X = execution_digest Y"
  shows "sup_reachable Release H api Y sx"
proof -
  obtain n x0 where "(sup_step b H api X)\<^sup>*\<^sup>* (new_Supervisor n, x0) sx"
    using reach by (auto simp: sup_reachable_def)
  then have "(sup_step Release H api Y)\<^sup>*\<^sup>* (new_Supervisor n, x0) sx"
  proof (induction rule: rtranclp_induct)
    case (step y z)
    have inv: "sup_inv Release H api held (fst y)"
      by (rule sup_reachable_inv [OF contract sound]) (use step.IH in \<open>auto simp: sup_reachable_def\<close>)
    have spawn_eq: "spawn_cell b = spawn_cell Release" by (cases b) (simp_all add: spawn_cell_profile fun_eq_iff)
    from step.hyps(2) have "sup_step Release H api Y y z"
    proof cases
      case (cycle od s x res s' x')
      have s: "sup_inv Release H api held s" using inv cycle(1) by simp
      have Y: "run_one_cycle b api od H Y s x = Inr (res, s', x')"
        by (rule cycle_release [OF s cycle(4) refine dg cycle(3)])
      have "run_one_cycle Release api od H Y s x = Inr (res, s', x')"
        using Y run_one_cycle_debug [OF s contract, of od x od] by (cases b) (auto split: option.splits)
      from sup_step.cycle [OF this cycle(4)] show ?thesis using cycle(1,2) by simp
    qed (auto simp: spawn_eq intro: sup_step.intros)
    with step.IH show ?case by simp
  qed simp
  then show ?thesis by (auto simp: sup_reachable_def)
qed

lemma debug_reachable:
  assumes "executor_contract Release X" and "queue_sound api held" and "sup_reachable b H api X sx"
  shows "sup_reachable Release H api X sx"
  by (rule debug_reachable_of [OF assms _ refl])

lemma hosted_reachable:
  assumes "queue_sound api held" and "sup_reachable b H api (hosted_executor b src G dg) sx"
  shows "sup_reachable Release H api (hosted_executor Release src G dg) sx"
proof (rule debug_reachable_of [OF hosted_contract assms])
  show "run_quantum (hosted_executor Release src G dg) x c n = Inr q"
    if "run_quantum (hosted_executor b src G dg) x c n = Inr q" for x c n q
    using that by (cases b) (simp_all add: hosted_release)
  show "execution_digest (hosted_executor b src G dg) = execution_digest (hosted_executor Release src G dg)"
    by (simp add: hosted_executor_def)
qed

subsection \<open>Page-aligned tenants\<close>

text \<open>
  The cells whose committed size is a whole number of pages, all dirty ones among them. A guest
  behind the memory's interface keeps that, since growth is by pages and stores stay inside.
\<close>

definition all_ready :: "'q supervisor \<Rightarrow> bool" where
  "all_ready s \<longleftrightarrow> (\<forall>i c. cells s i = Some c \<longrightarrow> guest_ready Debug c)"

lemma ready_not_partial: "guest_ready Debug c \<Longrightarrow> \<not> partial_dirty (memory c)"
  by (auto simp: guest_ready_def partial_dirty_iff dirty_readable_def)

lemma ready_flushed:
  assumes "guest_ready Debug c" and "flushed c d" and "mem_inv (memory d)"
  shows "guest_ready Debug d"
  using assms flushed_memory(2) [OF assms(2)] by (simp add: guest_ready_def dirty_readable_def flushed_def)

lemma cycle_all_ready:
  assumes contract: "executor_contract Release X" and sound: "queue_sound api held" and inv: "sup_inv Release H api held s"
    and room: "unat (current_tick_of (sup_scheduler s)) + 1 < 2 ^ 64" and ready: "all_ready s"
    and keeps: "\<forall>x c n res x' c'. run_quantum X x c n = Inr (res, x', c') \<longrightarrow> guest_ready Debug c \<longrightarrow> guest_ready Debug c'"
    and run: "run_one_cycle Release api od H X s x = Inr (r, s', x')"
  shows "debug_panic X s x = None" and "all_ready s'"
proof -
  have "debug_panic X s x = None \<and> all_ready s'"
  proof (cases "order (sup_scheduler s)")
    case Nil
    then show ?thesis using run ready by (simp add: run_one_cycle_idle debug_panic_def)
  next
    case (Cons i "is")
    obtain c where c: "cells s i = Some c" by (rule dispatched_cell [OF inv Cons])
    obtain res y c' where q: "run_quantum X x (quantum_cell c) (max_instructions_per_quantum s) = Inr (res, y, c')"
      by (rule dispatched_quantum [OF inv contract c])
    have "guest_ready Debug (quantum_cell c)" using ready c by (auto simp: all_ready_def guest_ready_def)
    then have c': "guest_ready Debug c'" using keeps q by blast
    obtain d where d: "cells s' = (cells s)(i \<mapsto> d)" "sup_inv Release H api held s'"
      and eff: "if isl res \<or> \<not> checkpoint_due c (current_tick_of (sup_scheduler s) + 1) then d = c'
        else checkpoint_effect H api held (execution_digest X y c') i (current_tick_of (sup_scheduler s) + 1) c' d
          (replication s) (replication s') r"
      using cycle_effect [OF inv contract sound Cons room c q refl, of od] run by (auto split: if_splits)
    have "cell_inv Release H d" using d unfolding sup_inv_def by (metis fun_upd_same)
    then have m: "mem_inv (memory d)" by (simp add: cell_inv_def)
    have "d = c' \<or> flushed c' d \<or> memory d = memory c'"
      using eff by (auto simp: checkpoint_effect_def split: if_splits option.splits)
    then have "guest_ready Debug d" using c' ready_flushed [OF c' _ m] by (auto simp: guest_ready_def)
    then have "all_ready s'" using ready d(1) by (simp add: all_ready_def)
    moreover have "debug_panic X s x = None"
      using ready_not_partial [OF c'] room by (simp add: debug_panic_def Cons c q)
    ultimately show ?thesis by simp
  qed
  then show "debug_panic X s x = None" "all_ready s'" by blast+
qed


lemma hosted_keeps_ready:
  "\<forall>x c n res x' c'. run_quantum (hosted_executor b src G dg) x c n = Inr (res, x', c') \<longrightarrow>
     guest_ready Debug c \<longrightarrow> guest_ready Debug c'"
  using hosted_quantum_kept cell_kept_ready by blast

subsection \<open>The executor's count of dispatches\<close>

text \<open>
  Every cycle that dispatches advances the scheduler's clock and the executor's own count by one.
  Where the two agree, no recorder is ahead of them.
\<close>

definition recorders_behind :: "'q supervisor \<Rightarrow> Tick \<Rightarrow> bool" where
  "recorders_behind s T \<longleftrightarrow> (\<forall>i c. cells s i = Some c \<longrightarrow> current_tick (recorder c) \<le> T)"

lemma hosted_cycle_tick:
  assumes inv: "sup_inv Release H api held s" and sound: "queue_sound api held"
    and room: "unat (current_tick_of (sup_scheduler s)) + 1 < 2 ^ 64"
    and run: "run_one_cycle Release api od H (hosted_executor Release src G dg) s (gs, T, h) = Inr (r, s', (gs', T', h'))"
  shows "T' - current_tick_of (sup_scheduler s') = T - current_tick_of (sup_scheduler s)"
    and "T = current_tick_of (sup_scheduler s) \<Longrightarrow> recorders_behind s T \<Longrightarrow> recorders_behind s' T'"
proof -
  let ?X = "hosted_executor Release src G dg" and ?t = "current_tick_of (sup_scheduler s)"
  have "T' - current_tick_of (sup_scheduler s') = T - ?t \<and> (T = ?t \<longrightarrow> recorders_behind s T \<longrightarrow> recorders_behind s' T')"
  proof (cases "order (sup_scheduler s)")
    case Nil
    then show ?thesis using run by (auto simp: run_one_cycle_idle)
  next
    case (Cons i "is")
    obtain c where c: "cells s i = Some c" by (rule dispatched_cell [OF inv Cons])
    obtain res y c' where q: "run_quantum ?X (gs, T, h) (quantum_cell c) (max_instructions_per_quantum s) = Inr (res, y, c')"
      by (rule dispatched_quantum [OF inv hosted_contract c])
    have "cell_inv Release H c" using inv c unfolding sup_inv_def by blast
    then have c': "cell_inv Release H c'" using executor_keeps_cell_inv(1) [OF hosted_contract q] by simp
    obtain d where d: "cells s' = (cells s)(i \<mapsto> d)" "recorder d = recorder c'" "(gs', T', h') = y"
      by (rule cycle_recorder [OF Cons room c c' q run])
    have T': "T' = T + 1" using d(3) hosted_quantum_tick(1) [OF q] by auto
    have "current_tick_of (sup_scheduler s') = ?t + 1"
      using cycle_effect [OF inv hosted_contract sound Cons room c q refl, of od] run by auto
    moreover have "recorders_behind s' (T + 1)" if "T = ?t" and b: "recorders_behind s T"
    proof -
      have "T \<le> T + 1" using room unat_Suc_small [of T] \<open>T = ?t\<close> by (simp add: word_le_nat_alt)
      moreover have "current_tick (recorder c) \<le> T" using b c by (simp add: recorders_behind_def)
      ultimately have "current_tick (recorder d) \<le> T + 1"
        using hosted_quantum_tick(2) [OF q] d(2) order_trans by fastforce
      then show ?thesis
        using b d(1) order_trans [OF _ \<open>T \<le> T + 1\<close>] by (simp add: recorders_behind_def)
    qed
    ultimately show ?thesis using T' by simp
  qed
  then show "T' - current_tick_of (sup_scheduler s') = T - ?t" "T = ?t \<Longrightarrow> recorders_behind s T \<Longrightarrow> recorders_behind s' T'"
    by blast+
qed

lemma spawn_recorders_behind:
  assumes "spawn_cell b os H s cfg md = (tr, Inr (res, s'))" and "recorders_behind s T"
  shows "recorders_behind s' T" and "current_tick_of (sup_scheduler s') = current_tick_of (sup_scheduler s)"
proof -
  have "recorders_behind s' T \<and> current_tick_of (sup_scheduler s') = current_tick_of (sup_scheduler s)"
  proof (cases "s' = s")
    case False
    obtain tr' r where r: "new_Cell b os H cfg md = (tr', r)" by fastforce
    obtain c where c: "new_Cell b os H cfg md = (tr, Inr (Inr c))"
        "s' = s\<lparr>cells := (cells s)(config_id cfg \<mapsto> c), sup_scheduler := register_cell (sup_scheduler s) (config_id cfg)\<rparr>"
      using assms(1) False r by (cases r) (auto simp: spawn_cell_def Let_def split: if_splits sum.splits)
    have "current_tick (recorder c) = 0" by (subst new_Cell_eq(2) [OF c(1)]) (simp add: new_EventRecorder_def)
    then show ?thesis using assms(2) c(2) by (simp add: recorders_behind_def register_cell_def current_tick_of_def)
  qed (use assms(2) in simp)
  then show "recorders_behind s' T" "current_tick_of (sup_scheduler s') = current_tick_of (sup_scheduler s)" by blast+
qed

definition in_step :: "Tick \<Rightarrow> 'q supervisor \<times> (CellId \<Rightarrow> 'g) \<times> Tick \<times> 's \<Rightarrow> bool" where
  "in_step T0 = (\<lambda>(s, gs, T, h). T - current_tick_of (sup_scheduler s) = T0 \<and> (T0 = 0 \<longrightarrow> recorders_behind s T))"

lemma in_step_step:
  assumes "sup_inv Release H api held (fst y)" and "queue_sound api held"
    and "sup_step Release H api (hosted_executor Release src G dg) y z" and "in_step T0 y"
  shows "in_step T0 z"
  using assms(3,4)
proof cases
  case (spawn os s cfg md tr res s' x)
  obtain gs T h where x: "x = (gs, T, h)" using prod_cases3 by blast
  show ?thesis
    using spawn(1,2) assms(4) spawn_recorders_behind [OF spawn(5), of T] spawn_recorders_behind(2) [OF spawn(5), of "- 1"]
    by (simp add: in_step_def x recorders_behind_def)
next
  case (cycle od s x res s' x')
  obtain gs T h gs' T' h' where x: "x = (gs, T, h)" "x' = (gs', T', h')" by (metis prod_cases3)
  have inv: "sup_inv Release H api held s" using assms(1) cycle(1) by simp
  show ?thesis
    using hosted_cycle_tick [OF inv assms(2) cycle(4) cycle(3) [unfolded x]] assms(4) cycle(1,2)
    by (auto simp: in_step_def x)
qed (use assms(4) in \<open>auto simp: in_step_def recorders_behind_def enable_replication_def\<close>)

lemma hosted_recorders_behind:
  assumes "queue_sound api held" and "sup_reachable Release H api (hosted_executor Release src G dg) (s, (gs, T, h))"
    and "T = current_tick_of (sup_scheduler s)"
  shows "recorders_behind s T"
proof -
  let ?X = "hosted_executor Release src G dg"
  obtain n x0 where steps: "(sup_step Release H api ?X)\<^sup>*\<^sup>* (new_Supervisor n, x0) (s, (gs, T, h))"
    using assms(2) by (auto simp: sup_reachable_def)
  obtain gs0 T0 h0 where x0: "x0 = (gs0, T0, h0)" using prod_cases3 by blast
  have init: "in_step T0 (new_Supervisor n, x0)"
    by (simp add: in_step_def x0 recorders_behind_def new_Supervisor_def new_Scheduler_def current_tick_of_def)
  from steps have "in_step T0 (s, (gs, T, h))"
  proof (induction rule: rtranclp_induct)
    case (step y z)
    have "sup_reachable Release H api ?X y" using step.hyps(1) unfolding sup_reachable_def by blast
    from sup_reachable_inv [OF hosted_contract assms(1) this] show ?case by (rule in_step_step [OF _ assms(1) step.hyps(2) step.IH])
  qed (rule init)
  then show ?thesis using assms(3) by (auto simp: in_step_def)
qed

text \<open>One cycle of either build, each with the executor of its own profile.\<close>

lemma hosted_cycle_profiles:
  assumes sound: "queue_sound api held" and reach: "sup_reachable Release H api (hosted_executor Release src G dg) (s, (gs, T, h))"
    and T: "T = current_tick_of (sup_scheduler s)" and ready: "all_ready s"
    and room: "unat (current_tick_of (sup_scheduler s)) + 1 < 2 ^ 64"
    and run: "run_one_cycle Release api od' H (hosted_executor Release src G dg) s (gs, T, h) = Inr (r, s', x')"
  shows "run_one_cycle Debug api od H (hosted_executor Debug src G dg) s (gs, T, h) = Inr (r, s', x')" and "all_ready s'"
proof -
  let ?X = "hosted_executor Debug src G dg" and ?Y = "hosted_executor Release src G dg"
  have inv: "sup_inv Release H api held s" using sup_reachable_inv [OF hosted_contract sound reach] by simp
  note kept = cycle_all_ready [OF hosted_contract sound inv room ready hosted_keeps_ready run]
  show "all_ready s'" by (rule kept)
  have Y: "run_one_cycle Debug api od H ?Y s (gs, T, h) = Inr (r, s', x')"
    using run_one_cycle_debug [OF inv hosted_contract, where od = od and od' = od' and x = "(gs, T, h)"] kept(1) run by simp
  show "run_one_cycle Debug api od H ?X s (gs, T, h) = Inr (r, s', x')"
  proof (cases "order (sup_scheduler s)")
    case Nil
    then show ?thesis using Y by (simp add: run_one_cycle_idle)
  next
    case (Cons i "is")
    obtain c where c: "cells s i = Some c" by (rule dispatched_cell [OF inv Cons])
    have "current_tick (recorder (quantum_cell c)) \<le> T"
      using hosted_recorders_behind [OF sound reach T] c by (simp add: recorders_behind_def)
    moreover have "guest_ready Debug (quantum_cell c)" using ready c by (auto simp: all_ready_def guest_ready_def)
    ultimately obtain q where q: "run_quantum ?X (gs, T, h) (quantum_cell c) (max_instructions_per_quantum s) = Inr q"
        "run_quantum ?Y (gs, T, h) (quantum_cell c) (max_instructions_per_quantum s) = Inr q"
      using hosted_quantum_profiles room T by metis
    obtain res x1 c1 where x1: "q = (res, x1, c1)" using prod_cases3 by blast
    have "execution_digest ?X = execution_digest ?Y" by (simp add: hosted_executor_def)
    then show ?thesis
      using run_one_cycle_cong [OF Cons room c q [unfolded x1] refl, of Debug api od H Debug od] Y by simp
  qed
qed

lemma hosted_runs_profiles:
  fixes src :: "'s host_source" and G :: "'g \<Rightarrow> 'g guest_action"
  assumes sound: "queue_sound api held"
    and "sup_reachable Release H api (hosted_executor Release src G dg) (s, (gs, T, h))" and "T = current_tick_of (sup_scheduler s)"
    and "all_ready s" and "unat (current_tick_of (sup_scheduler s)) + length ods < 2 ^ 64" and "length ods = length ods'"
  shows "\<exists>rs s' x'. run_cycles Debug api H (hosted_executor Debug src G dg) s (gs, T, h) ods = Inr (rs, s', x') \<and>
    run_cycles Release api H (hosted_executor Release src G dg) s (gs, T, h) ods' = Inr (rs, s', x') \<and> all_ready s'"
  using assms(6,2-5)
proof (induction ods ods' arbitrary: s gs T h rule: list_induct2)
  case (Cons od ods od' ods')
  let ?Y = "hosted_executor Release src G dg"
  have inv: "sup_inv Release H api held s" using sup_reachable_inv [OF hosted_contract sound Cons.prems(1)] by simp
  have room: "unat (current_tick_of (sup_scheduler s)) + Suc (length ods) < 2 ^ 64"
      "unat (current_tick_of (sup_scheduler s)) + 1 < 2 ^ 64"
    using Cons.prems(4) by simp_all
  obtain r s1 x1 where one: "run_one_cycle Release api od' H ?Y s (gs, T, h) = Inr (r, s1, x1)"
    using run_one_cycle_inv [OF inv hosted_contract sound room(2)] by blast
  obtain gs1 T1 h1 where x1: "x1 = (gs1, T1, h1)" using prod_cases3 by blast
  note debug = hosted_cycle_profiles [OF sound Cons.prems(1,2,3) room(2) one]
  note reach = cycle_reachable [OF hosted_contract sound Cons.prems(1) room(1) one]
  have "T1 = current_tick_of (sup_scheduler s1)"
    using hosted_cycle_tick(1) [OF inv sound room(2) one [unfolded x1]] Cons.prems(2) by simp
  from Cons.IH [OF reach(1) [unfolded x1] this debug(2) reach(2)] debug(1) one x1 show ?case by auto
qed simp

subsection \<open>Properties\<close>

text \<open>
  Property C9. What the build profile changes, exactly. From every reachable state, a cycle of a
  debug build is the cycle of a release build, with the same result and the same state whatever
  the iteration orders, except that it panics in two situations and no other: with an arithmetic
  overflow when the tick counter is exhausted, and with the \<open>debug_assert!\<close> of \<open>page_bytes\<close> when
  a checkpoint is due after a successful quantum and a dirty page is not committed in full.
\<close>

theorem debug_is_release_or_panic:
  assumes "executor_contract Release X" and "queue_sound api held" and "sup_reachable b H api X (s, x)"
  shows "run_one_cycle Debug api od H X s x =
    (case debug_panic X s x of Some e \<Rightarrow> Inl e | None \<Rightarrow> run_one_cycle Release api od' H X s x)"
proof -
  have "sup_inv Release H api held s"
    using sup_reachable_inv [OF assms(1,2) debug_reachable [OF assms]] by simp
  from run_one_cycle_debug [OF this assms(1)] show ?thesis .
qed

text \<open>A tenant of 100 bytes, no whole page, with a guest that stores one byte and stops there.\<close>

definition short_config :: cell_config where
  "short_config = \<lparr>config_id = 1, initial_memory_bytes = 100, config_quota_bytes = 65536, checkpoint_interval_ticks = 1\<rparr>"

definition storing_executor :: "((CellId \<Rightarrow> nat) \<times> Tick \<times> u64) quantum_executor" where
  "storing_executor = hosted_executor Release example_host (\<lambda>_. Store 0 1 (\<lambda>_. 7) 0) (\<lambda>_ _. replicate 32 0)"

lemma short_system:
  obtains s :: "(usize \<times> tick_batch list) supervisor" and c where "sup_reachable b H example_queue X (s, x)"
    and "order (sup_scheduler s) = [1]" and "current_tick_of (sup_scheduler s) = 0" and "cells s = [1 \<mapsto> c]"
    and "size_bytes (memory c) = 100" and "config c = short_config" and "last_checkpoint_tick c = 0"
    and "pages (dirty (memory c)) = {}" and "max_instructions_per_quantum s = 1"
proof -
  let ?s = "new_Supervisor 1 :: (usize \<times> tick_batch list) supervisor"
  have cfg: "config_id short_config = 1" "config_quota_bytes short_config = 65536" "initial_memory_bytes short_config = 100"
    by (simp_all add: short_config_def)
  obtain c tr where c: "\<forall>x. sup_step b H example_queue X (?s, x)
        (?s\<lparr>cells := (cells ?s)(1 \<mapsto> c), sup_scheduler := register_cell (sup_scheduler ?s) 1\<rparr>, x)"
      "size_bytes (memory c) = 100" "config c = short_config" "last_checkpoint_tick c = 0" "pages (dirty (memory c)) = {}"
    by (rule example_spawn_config [of ?s short_config 65536 b H example_queue X])
      (simp_all add: cfg live_mappings_def new_Supervisor_def)
  have "sup_reachable b H example_queue X (?s, x)" by (auto simp: sup_reachable_def)
  from sup_reachable_step [OF this spec [OF c(1)]] show thesis
    by (rule that) (use c(2-) in \<open>simp_all add: new_Supervisor_def register_cell_def new_Scheduler_def current_tick_of_def\<close>)
qed

lemma storing_quantum:
  assumes "mem_inv (memory c)" and "size_bytes (memory c) = 100"
  obtains x' c' where "run_quantum storing_executor x c 1 = Inr (Inr 1, x', c')" and "mem_inv (memory c')"
    and "size_bytes (memory c') = 100" and "0 \<in> pages (dirty (memory c'))"
proof -
  obtain gs t h where x: "x = (gs, t, h)" using prod_cases3 by blast
  have pg: "set (touched_pages 0 1) = {0}" by (simp add: touched_pages_def PAGE_SIZE_def)
  show thesis
  proof (cases rule: guest_store_cases [OF assms(1), of 0 1 Release "\<lambda>_. 7"])
    case 1
    then show ?thesis using assms(2) by simp
  next
    case (2 d)
    let ?m = "(write_region (memory c) 0 1 (\<lambda>_. 7))\<lparr>dirty := d\<rparr>"
    have "guest_step Release example_host u (Store 0 1 (\<lambda>_. 7) (0 :: nat)) c h = Inr (Inr 0, c\<lparr>memory := ?m\<rparr>, h)" for u
      using 2(2) by (simp add: guest_step_def)
    then have q: "run_quantum storing_executor x c 1 = Inr (Inr 1, (gs(config_id (config c) := 0), t + 1, h), c\<lparr>memory := ?m\<rparr>)"
      by (simp add: storing_executor_def hosted_executor_def x Let_def)
    have "size_bytes ?m = 100" "pages (dirty ?m) = pages (dirty (memory c)) \<union> {0}"
      using 2(4) pg assms(2) by (simp_all add: write_region_def)
    then show ?thesis using that [OF q] 2(3) by simp
  qed
qed

theorem debug_is_release_or_panic_witness:
  "\<exists>s x r s' x'. dom (cells s) = {1} \<and>
     run_one_cycle Debug example_queue reverse_order example_hash storing_executor s x = Inl DebugAssertion \<and>
     run_one_cycle Release example_queue reverse_order example_hash storing_executor s x = Inr (r, s', x')"
proof -
  let ?x = "(\<lambda>_. 0, 0, 0)"
  obtain s c where s: "sup_reachable Release example_hash example_queue storing_executor (s, ?x)"
      "order (sup_scheduler s) = [1]" "current_tick_of (sup_scheduler s) = 0" "cells s = [1 \<mapsto> c]"
      "size_bytes (memory c) = 100" "config c = short_config" "last_checkpoint_tick c = 0" "max_instructions_per_quantum s = 1"
    by (rule short_system [of Release example_hash storing_executor ?x]) simp
  have con: "executor_contract Release storing_executor" unfolding storing_executor_def by (rule hosted_contract)
  have inv: "sup_inv Release example_hash example_queue snd s"
    using sup_reachable_inv [OF con example_queue_sound s(1)] by simp
  then have m: "mem_inv (memory (quantum_cell c))" using s(4) by (auto simp: sup_inv_def cell_inv_def)
  have sz: "size_bytes (memory (quantum_cell c)) = 100" using s(5) by simp
  obtain x' c' where q: "run_quantum storing_executor ?x (quantum_cell c) 1 = Inr (Inr 1, x', c')" "mem_inv (memory c')"
      "size_bytes (memory c') = 100" "0 \<in> pages (dirty (memory c'))"
    by (rule storing_quantum [OF m sz])
  have "partial_dirty (memory c')" using q(3,4) partial_dirty_iff [OF q(2)] by (auto simp: PAGE_SIZE_def intro!: bexI [of _ 0])
  moreover have "checkpoint_due c 1" using s(6,7) by (simp add: checkpoint_due_iff short_config_def)
  ultimately have "debug_panic storing_executor s ?x = Some DebugAssertion"
    using s(2,3,4,8) q(1) by (simp add: debug_panic_def)
  then have "run_one_cycle Debug example_queue reverse_order example_hash storing_executor s ?x = Inl DebugAssertion"
    using debug_is_release_or_panic [OF con example_queue_sound s(1), of reverse_order reverse_order] by simp
  moreover obtain r s' x'' where "run_one_cycle Release example_queue reverse_order example_hash storing_executor s ?x = Inr (r, s', x'')"
    using run_one_cycle_inv [OF inv con example_queue_sound] s(3) by fastforce
  moreover have "dom (cells s) = {1}" using s(4) by simp
  ultimately show ?thesis by blast
qed

text \<open>
  Property C20. Page-aligned tenants never meet the difference between the builds. Take the whole
  debug build, supervisor and executor, and the whole release build: from every state reachable by
  either, with every cell's committed size a whole number of pages and its dirty pages
  inside, and an executor that has counted every dispatch, then whatever the guests compute, load, store,
  grow, close or ask of the host, no \<open>debug_assert!\<close>, overflow check or index of
  \<open>mark_dirty\<close>, the recorder, the checkpoint or the flush panics in the debug build: its
  run completes with the results, the supervisor and the execution state of the
  release build, for every iteration order, and the cells stay page-aligned.
\<close>

theorem aligned_guests_never_panic:
  fixes src :: "'s host_source" and G :: "'g \<Rightarrow> 'g guest_action"
  assumes "queue_sound api held" and "sup_reachable b H api (hosted_executor b src G dg) (s, (gs, T, h))" and "all_ready s"
    and "T = current_tick_of (sup_scheduler s)" and "unat T + length ods < 2 ^ 64" and "length ods = length ods'"
  shows "\<exists>rs s' x'. run_cycles Debug api H (hosted_executor Debug src G dg) s (gs, T, h) ods = Inr (rs, s', x') \<and>
    run_cycles Release api H (hosted_executor Release src G dg) s (gs, T, h) ods' = Inr (rs, s', x') \<and> all_ready s'"
  using hosted_runs_profiles [OF assms(1) hosted_reachable [OF assms(1,2)] assms(4,3) _ assms(6)] assms(4,5) by simp

theorem aligned_guests_never_panic_witness:
  "\<exists>s rs s' x'. dom (cells s) = {1, 2} \<and>
     run_cycles Debug example_queue example_hash
       (hosted_executor Debug example_host example_guest_action example_guest_digest) s (\<lambda>_. Awake, 0, 1000)
       [reverse_order, insertion_order] = Inr (rs, s', x') \<and>
     run_cycles Release example_queue example_hash
       (hosted_executor Release example_host example_guest_action example_guest_digest) s (\<lambda>_. Awake, 0, 1000)
       [insertion_order, reverse_order] = Inr (rs, s', x')"
proof -
  let ?X = "hosted_executor Debug example_host example_guest_action example_guest_digest"
  obtain s c d where s: "\<forall>x. sup_reachable Debug example_hash example_queue ?X (s, x)" "cells s = [1 \<mapsto> c, 2 \<mapsto> d]"
      "current_tick_of (sup_scheduler s) = 0" "size_bytes (memory c) = 4096" "pages (dirty (memory c)) = {}"
      "size_bytes (memory d) = 4096" "pages (dirty (memory d)) = {}"
    by (rule example_tenants [of 4 Debug example_hash ?X]) simp_all
  have "sup_inv Release example_hash example_queue snd s"
    using sup_reachable_inv [OF hosted_contract example_queue_sound hosted_reachable [OF example_queue_sound spec [OF s(1)]]] by simp
  then have "mem_inv (memory c)" "mem_inv (memory d)" using s(2) by (auto simp: sup_inv_def cell_inv_def split: if_splits)
  then have ready: "all_ready s" using s(2,4-7) by (auto simp: all_ready_def guest_ready_def dirty_readable_def PAGE_SIZE_def split: if_splits)
  have dom: "dom (cells s) = {1, 2}" using s(2) by auto
  show ?thesis
    using aligned_guests_never_panic [OF example_queue_sound spec [OF s(1), of "(\<lambda>_. Awake, 0, 1000)"] ready,
        of "[reverse_order, insertion_order]" "[insertion_order, reverse_order]"] s(3)
    by (intro exI [of _ s]) (auto simp: dom)
qed

end
