(* ===== verification/Failover.thy ===== *)
theory Failover
  imports Supervisor
begin

section \<open>Supervisor and standby together\<close>

text \<open>
  A primary that runs one tenant with replication enabled from the start, a network
  task that pops batches from its ring, and a standby that applies them as they arrive. The
  three advance in any interleaving: dispatch cycles (also faulting ones, and ones that
  meet a full ring), single pops, single applications. The invariant relates the
  tenant's memory to what the standby holds together with what is on the wire and still
  queued, and every image the standby passes through to an entry of the tenant's checkpoint
  chain; it spans \<open>run_one_cycle\<close>, \<open>DeltaRing\<close>, \<open>StandbyApplyLoop\<close> and \<open>DeltaEngine\<close>.
\<close>

subsection \<open>Steps\<close>

text \<open>The supervisor, the executor's state, the batches on the wire, the standby.\<close>

type_synonym ('q, 'x) deployment = "'q supervisor \<times> 'x \<times> tick_batch list \<times> standby_apply_loop"

inductive ha_step ::
  "build \<Rightarrow> build \<Rightarrow> hash_fn \<Rightarrow> 'q array_queue_api \<Rightarrow> 'x quantum_executor
     \<Rightarrow> ('q, 'x) deployment \<Rightarrow> ('q, 'x) deployment \<Rightarrow> bool"
  for b b' H api X where
  ha_cycle: "run_one_cycle b api od H X s x = Inr (res, s', x') \<Longrightarrow>
    unat (current_tick_of (sup_scheduler s)) + 1 < 2 ^ 64 \<Longrightarrow> ha_step b b' H api X (s, x, wire, sb) (s', x', wire, sb)"
| ha_pop: "replication s = Some r \<Longrightarrow> aq_pop api (ring_queue r) = Some (y, q) \<Longrightarrow>
    ha_step b b' H api X (s, x, wire, sb) (s\<lparr>replication := Some (r\<lparr>ring_queue := q\<rparr>)\<rparr>, x, wire @ [y], sb)"
| ha_apply: "apply_batch b' sb y = Inr (res, sb') \<Longrightarrow> ha_step b b' H api X (s, x, y # wire, sb) (s, x, wire, sb')"

text \<open>The deployment before its first cycle: one cell with zeroed memory, an empty ring, a new standby.\<close>

definition ha_start ::
  "build \<Rightarrow> hash_fn \<Rightarrow> 'q array_queue_api \<Rightarrow> ('q \<Rightarrow> tick_batch list) \<Rightarrow> 'x quantum_executor \<Rightarrow> CellId
     \<Rightarrow> ('q, 'x) deployment \<Rightarrow> bool" where
  "ha_start b H api held X i st \<longleftrightarrow>
     (case st of (s, x, wire, sb) \<Rightarrow>
        sup_reachable b H api X (s, x) \<and> order (sup_scheduler s) = [i] \<and> current_tick_of (sup_scheduler s) = 0 \<and>
        (\<exists>c r. cells s i = Some c \<and> replication s = Some r \<and> held (ring_queue r) = [] \<and>
           (\<forall>p. unat p < quota_pages (quota_bytes (memory c)) \<longrightarrow> page_content (memory c) p = zero_page)) \<and>
        wire = [] \<and> (\<exists>n. new_StandbyApplyLoop n = Inr sb))"

subsection \<open>Raw batches on the standby\<close>

fun overlay_deltas :: "(nat \<rightharpoonup> u8 list) \<Rightarrow> page_delta list \<Rightarrow> (nat \<rightharpoonup> u8 list)" where
  "overlay_deltas M [] = M"
| "overlay_deltas M (Raw p c # ds) = overlay_deltas (M(unat p \<mapsto> c)) ds"
| "overlay_deltas M (Xor p r # ds) = overlay_deltas M ds"

definition overlay_batches :: "(nat \<rightharpoonup> u8 list) \<Rightarrow> tick_batch list \<Rightarrow> (nat \<rightharpoonup> u8 list)" where
  "overlay_batches M bs = foldl (\<lambda>M x. overlay_deltas M (deltas x)) M bs"

definition raw_batch :: "tick_batch \<Rightarrow> bool" where
  "raw_batch x \<longleftrightarrow> (\<forall>d\<in>set (deltas x). \<exists>p c. d = Raw p c \<and> trackable p \<and> length c = PAGE_SIZE)"

lemma apply_raw_deltas:
  assumes "engine_inv e" and "\<forall>d\<in>set ds. \<exists>p c. d = Raw p c \<and> trackable p \<and> length c = PAGE_SIZE"
  shows "\<exists>e'. fold_run (\<lambda>e d. and_then (apply_delta b e d) (\<lambda>(_, e'). Inr e')) e ds = Inr e' \<and> engine_inv e' \<and>
     engine_map e' = overlay_deltas (engine_map e) ds"
  using assms
proof (induction ds arbitrary: e)
  case (Cons d ds)
  obtain p c where d: "d = Raw p c" "trackable p" "length c = PAGE_SIZE" using Cons.prems(2) by auto
  obtain e1 where "apply_delta b e d = Inr (c, e1)" "engine_inv e1" "engine_map e1 = (engine_map e)(unat p \<mapsto> c)"
    using apply_delta_ok [OF Cons.prems(1) d(2,3)] d(1) by blast
  then show ?case using Cons.IH [of e1] Cons.prems(2) d(1) by (auto simp: fun_upd_def)
qed simp

lemma apply_raw_batch:
  assumes "engine_inv (engine sb)" and "raw_batch x" and "last_applied_tick sb < batch_tick x"
  obtains sb' where "apply_batch b sb x = Inr (Inr (), sb')" and "engine_inv (engine sb')"
    and "engine_map (engine sb') = overlay_deltas (engine_map (engine sb)) (deltas x)"
    and "last_applied_tick sb' = batch_tick x"
proof -
  obtain e where e: "fold_run (\<lambda>e d. and_then (apply_delta b e d) (\<lambda>(_, e'). Inr e')) (engine sb) (deltas x) = Inr e"
      "engine_inv e" "engine_map e = overlay_deltas (engine_map (engine sb)) (deltas x)"
    using apply_raw_deltas [OF assms(1), of "deltas x" b] assms(2) by (auto simp: raw_batch_def)
  show thesis
    by (rule that [of "sb\<lparr>engine := e, standby_last_applied_tick := batch_tick x\<rparr>"])
      (use assms(3) e in \<open>auto simp: apply_batch_def last_applied_tick_def\<close>)
qed

lemma overlay_batches_simps [simp]:
  "overlay_batches M [] = M" "overlay_batches M (x # bs) = overlay_batches (overlay_deltas M (deltas x)) bs"
  "overlay_batches M (bs @ [x]) = overlay_deltas (overlay_batches M bs) (deltas x)"
  by (simp_all add: overlay_batches_def)

lemma standby_applies_raw:
  assumes "engine_inv (engine sb)" and "\<forall>x\<in>set bs. raw_batch x"
    and "sorted_wrt (<) (last_applied_tick sb # map batch_tick bs)"
  shows "\<exists>sb'. standby_run b sb bs = Inr (bs, sb') \<and> engine_inv (engine sb') \<and>
     engine_map (engine sb') = overlay_batches (engine_map (engine sb)) bs \<and>
     last_applied_tick sb' = last (last_applied_tick sb # map batch_tick bs)"
  using assms
proof (induction bs arbitrary: sb)
  case (Cons x bs)
  obtain sb1 where sb1: "apply_batch b sb x = Inr (Inr (), sb1)" "engine_inv (engine sb1)"
      "engine_map (engine sb1) = overlay_deltas (engine_map (engine sb)) (deltas x)" "last_applied_tick sb1 = batch_tick x"
    by (rule apply_raw_batch [OF Cons.prems(1), of x b]) (use Cons.prems(2,3) in auto)
  moreover obtain sb' where "standby_run b sb1 bs = Inr (bs, sb')" "engine_inv (engine sb')"
      "engine_map (engine sb') = overlay_batches (engine_map (engine sb1)) bs"
      "last_applied_tick sb' = last (last_applied_tick sb1 # map batch_tick bs)"
    using Cons.IH [of sb1] Cons.prems(2,3) sb1(2,4) by auto
  ultimately show ?case by auto
qed simp

lemma overlay_dom: "dom M \<subseteq> dom (overlay_batches M bs)"
proof -
  have "dom M \<subseteq> dom (overlay_deltas M ds)" for M ds
    by (induction M ds rule: overlay_deltas.induct) (auto simp del: fun_upd_apply)
  then show ?thesis by (induction bs arbitrary: M) (simp, metis overlay_batches_simps(2) order_trans)
qed

lemma overlay_raw_pages:
  "overlay_deltas M (map (\<lambda>p. Raw p (f p)) ps) (unat q) = (if q \<in> set ps then Some (f q) else M (unat q))"
  by (induction ps arbitrary: M) (auto dest: word_unat_eq_iff [THEN iffD2])

lemma overlay_raw_dom: "dom (overlay_deltas M (map (\<lambda>p. Raw p (f p)) ps)) = dom M \<union> unat ` set ps"
  by (induction ps arbitrary: M) auto

subsection \<open>The mirror invariant\<close>

text \<open>
  \<open>M\<close> mirrors a memory on its clean pages and knows no page beyond the quota; a page
  never sent is a zero page.
\<close>

definition mirrors :: "(nat \<rightharpoonup> u8 list) \<Rightarrow> mmap_guarded_memory \<Rightarrow> bool" where
  "mirrors M m \<longleftrightarrow>
     dom M \<subseteq> {..<quota_pages (quota_bytes m)} \<and>
     (\<forall>p. unat p < quota_pages (quota_bytes m) \<longrightarrow> p \<notin> pages (dirty m) \<longrightarrow>
        page_content m p = (case M (unat p) of Some c \<Rightarrow> c | None \<Rightarrow> zero_page))"

text \<open>The Merkle root of an image.\<close>

definition map_root :: "hash_fn \<Rightarrow> (nat \<rightharpoonup> u8 list) \<Rightarrow> digest" where
  "map_root H M = node_hash H (\<lambda>n. H (case M n of Some c \<Rightarrow> c | None \<Rightarrow> zero_page)) TREE_DEPTH 0"

lemma mirrors_map_root:
  assumes "mirrors M m" and "pages (dirty m) = {}"
  shows "map_root H M = memory_root H m"
proof -
  have "(case M n of Some c \<Rightarrow> c | None \<Rightarrow> zero_page) =
      (if n < quota_pages (quota_bytes m) then page_content m (of_nat n) else zero_page)" for n
  proof (cases "n < quota_pages (quota_bytes m)")
    case True
    then have "n < 2 ^ 64" using quota_pages_bounds(2) [of "quota_bytes m"] by simp
    then have "unat (of_nat n :: u64) = n" by (simp add: unat_of_nat)
    then have "page_content m (of_nat n) = (case M n of Some c \<Rightarrow> c | None \<Rightarrow> zero_page)"
      using assms True unfolding mirrors_def by (metis empty_iff)
    then show ?thesis using True by simp
  next
    case False
    then have "M n = None" using assms(1) by (auto simp: mirrors_def)
    then show ?thesis using False by simp
  qed
  then show ?thesis by (simp add: map_root_def memory_root_def)
qed

text \<open>
  An image of tick \<open>t\<close> is the one a chain entry of that tick records; before the first
  batch it is empty. \<open>images_ok\<close> follows the images a standby passes through.
\<close>

definition image_ok :: "hash_fn \<Rightarrow> cell \<Rightarrow> u64 \<Rightarrow> (nat \<rightharpoonup> u8 list) \<Rightarrow> bool" where
  "image_ok H c t M \<longleftrightarrow>
     (if t = 0 then M = Map.empty
      else \<exists>e\<in>set (entries (checkpoints c)). entry_tick e = t \<and> smt_root e = map_root H M)"

fun images_ok :: "hash_fn \<Rightarrow> cell \<Rightarrow> u64 \<Rightarrow> (nat \<rightharpoonup> u8 list) \<Rightarrow> tick_batch list \<Rightarrow> bool" where
  "images_ok H c t M [] \<longleftrightarrow> image_ok H c t M"
| "images_ok H c t M (x # bs) \<longleftrightarrow>
     image_ok H c t M \<and> images_ok H c (batch_tick x) (overlay_deltas M (deltas x)) bs"

lemma images_ok_mono:
  assumes "images_ok H c t M bs" and "set (entries (checkpoints c)) \<subseteq> set (entries (checkpoints d))"
  shows "images_ok H d t M bs"
  using assms by (induction bs arbitrary: t M) (auto simp: image_ok_def split: if_splits)

lemma images_ok_snoc:
  "images_ok H c t M (bs @ [x]) \<longleftrightarrow>
     images_ok H c t M bs \<and> image_ok H c (batch_tick x) (overlay_batches M (bs @ [x]))"
  by (induction bs arbitrary: t M) auto

text \<open>What is pending at tick \<open>u\<close>: batches a standby accepts, whose images lead to the memory.\<close>

definition pending_ok :: "hash_fn \<Rightarrow> cell \<Rightarrow> standby_apply_loop \<Rightarrow> u64 \<Rightarrow> tick_batch list \<Rightarrow> bool" where
  "pending_ok H c sb u bs \<longleftrightarrow>
     (\<forall>x\<in>set bs. raw_batch x) \<and> sorted_wrt (<) (last_applied_tick sb # map batch_tick bs) \<and>
     last (last_applied_tick sb # map batch_tick bs) \<le> u \<and>
     mirrors (overlay_batches (engine_map (engine sb)) bs) (memory c) \<and>
     images_ok H c (last_applied_tick sb) (engine_map (engine sb)) bs"

definition ha_inv ::
  "build \<Rightarrow> hash_fn \<Rightarrow> 'q array_queue_api \<Rightarrow> ('q \<Rightarrow> tick_batch list) \<Rightarrow> CellId \<Rightarrow> ('q, 'x) deployment \<Rightarrow> bool" where
  "ha_inv b H api held i st \<longleftrightarrow>
     (case st of (s, x, wire, sb) \<Rightarrow>
        sup_inv b H api held s \<and> order (sup_scheduler s) = [i] \<and> engine_inv (engine sb) \<and>
        (\<exists>c r. cells s i = Some c \<and> replication s = Some r \<and>
           pending_ok H c sb (current_tick_of (sup_scheduler s)) (wire @ held (ring_queue r))))"

lemma pending_ok_push:
  assumes "pending_ok H c sb u bs" and "u < t" and "set (entries (checkpoints c)) \<subseteq> set (entries (checkpoints d))"
    and "mirrors (overlay_batches (overlay_batches (engine_map (engine sb)) bs) xs) (memory d)"
    and "xs = [] \<or> (\<exists>y. xs = [y] \<and> raw_batch y \<and> batch_tick y = t \<and>
      image_ok H d t (overlay_deltas (overlay_batches (engine_map (engine sb)) bs) (deltas y)))"
  shows "pending_ok H d sb t (bs @ xs)"
proof -
  have img: "images_ok H d (last_applied_tick sb) (engine_map (engine sb)) bs"
    by (rule images_ok_mono [OF _ assms(3)]) (use assms(1) in \<open>simp add: pending_ok_def\<close>)
  have sorted: "sorted_wrt (<) (last_applied_tick sb # map batch_tick bs)" "last (last_applied_tick sb # map batch_tick bs) \<le> u"
    using assms(1) unfolding pending_ok_def by blast+
  from assms(5) show ?thesis
  proof
    assume "xs = []"
    then show ?thesis using assms(1,2,4) img unfolding pending_ok_def by auto
  next
    assume "\<exists>y. xs = [y] \<and> raw_batch y \<and> batch_tick y = t \<and>
      image_ok H d t (overlay_deltas (overlay_batches (engine_map (engine sb)) bs) (deltas y))"
    then show ?thesis
      using assms(1,4) img sorted_snoc [OF sorted assms(2)] by (auto simp: pending_ok_def images_ok_snoc)
  qed
qed

lemma pending_ok_apply:
  assumes "pending_ok H c sb u (y # bs)" and "engine_inv (engine sb)" and "apply_batch b sb y = Inr (res, sb')"
  shows "pending_ok H c sb' u bs" and "engine_inv (engine sb')" and "res = Inr ()"
proof -
  have "raw_batch y" "last_applied_tick sb < batch_tick y" using assms(1) by (auto simp: pending_ok_def)
  then obtain sb1 where "apply_batch b sb y = Inr (Inr (), sb1)" "engine_inv (engine sb1)"
      "engine_map (engine sb1) = overlay_deltas (engine_map (engine sb)) (deltas y)" "last_applied_tick sb1 = batch_tick y"
    by (rule apply_raw_batch [OF assms(2)])
  then show "pending_ok H c sb' u bs" "engine_inv (engine sb')" "res = Inr ()"
    using assms(1,3) by (auto simp: pending_ok_def split: if_splits)
qed

lemma ha_start_inv:
  assumes "executor_contract b X" and "queue_sound api held" and "ha_start b H api held X i st"
  shows "ha_inv b H api held i st"
proof -
  obtain s x wire sb where st: "st = (s, x, wire, sb)" by (cases st)
  obtain c r n where *: "sup_reachable b H api X (s, x)" "order (sup_scheduler s) = [i]"
      "current_tick_of (sup_scheduler s) = 0" "cells s i = Some c" "replication s = Some r" "held (ring_queue r) = []"
      "\<forall>p. unat p < quota_pages (quota_bytes (memory c)) \<longrightarrow> page_content (memory c) p = zero_page" "wire = []"
      "new_StandbyApplyLoop n = Inr sb"
    using assms(3) by (auto simp: ha_start_def st)
  have "engine_inv (engine sb)" "engine_map (engine sb) = Map.empty" "last_applied_tick sb = 0"
    using *(9) by (auto simp: new_StandbyApplyLoop_def new_DeltaEngine_def last_applied_tick_def engine_inv_def
        engine_map_def split: if_splits)
  then show ?thesis
    using * sup_reachable_inv [OF assms(1,2) *(1)] by (simp add: ha_inv_def pending_ok_def st mirrors_def image_ok_def)
qed

lemma executor_keeps_mirror:
  assumes "executor_contract b X" and "run_quantum X x (quantum_cell c) n = Inr (res, x', c')" and "cell_inv b H c"
    and "mirrors M (memory c)"
  shows "mirrors M (memory c')"
proof -
  have mem: "mem_inv (memory (quantum_cell c))" "dirty_readable b (memory (quantum_cell c))"
    using assms(3) by (simp_all add: cell_inv_def)
  have "quota_bytes (memory c') = quota_bytes (memory (quantum_cell c))"
      "pages (dirty (memory (quantum_cell c))) \<subseteq> pages (dirty (memory c'))"
      "\<forall>p. p \<notin> pages (dirty (memory c')) \<longrightarrow> page_content (memory c') p = page_content (memory (quantum_cell c)) p"
    using assms(1,2) mem unfolding executor_contract_def by blast+
  then show ?thesis using assms(4) unfolding mirrors_def quantum_cell_simps by (metis subsetD)
qed

lemma dirty_batch_raw:
  assumes "cell_inv b H c"
  shows "raw_batch (dirty_batch t (memory c))"
    and "mirrors M (memory c) \<Longrightarrow> flushed c d \<Longrightarrow> mirrors (overlay_deltas M (deltas (dirty_batch t (memory c)))) (memory d)"
proof -
  have set: "set (iter_dirty (dirty (memory c))) = pages (dirty (memory c))"
    using assms by (simp add: cell_inv_def mem_inv_def set_iter_dirty)
  have "trackable p" if "p \<in> pages (dirty (memory c))" for p
  proof -
    have "unat p < 2 ^ 20"
      using assms that quota_pages_bounds(2) [of "quota_bytes (memory c)"]
      by (auto simp: cell_inv_def dirty_readable_def)
    then show ?thesis by (simp add: trackable_def isize_max_def PAGE_SIZE_def)
  qed
  then show "raw_batch (dirty_batch t (memory c))" using set by (auto simp: raw_batch_def dirty_batch_def)
  assume m: "mirrors M (memory c)" and f: "flushed c d"
  note d = flushed_memory(1,3) [OF f]
  have "unat ` pages (dirty (memory c)) \<subseteq> {..<quota_pages (quota_bytes (memory c))}"
    using assms by (auto simp: cell_inv_def dirty_readable_def)
  then show "mirrors (overlay_deltas M (deltas (dirty_batch t (memory c)))) (memory d)"
    using m by (simp add: mirrors_def d dirty_batch_def overlay_raw_pages overlay_raw_dom set)
qed

text \<open>
  One cycle, seen from the pending batches \<open>bs\<close>: either they stay and the memory is still
  mirrored, or the dirty pages join them as one batch, whose image is the one just recorded.
\<close>

lemma cycle_pending:
  assumes contract: "executor_contract b X" and sound: "queue_sound api held" and inv: "sup_inv b H api held s"
    and ord: "order (sup_scheduler s) = [i]" and c: "cells s i = Some c" and r: "replication s = Some r"
    and room: "unat (current_tick_of (sup_scheduler s)) + 1 < 2 ^ 64"
    and run: "run_one_cycle b api od H X s x = Inr (res, s', x')" and t: "t = current_tick_of (sup_scheduler s) + 1"
    and mir: "mirrors M (memory c)"
  obtains d r' xs where "sup_inv b H api held s'" and "order (sup_scheduler s') = [i]" and "current_tick_of (sup_scheduler s') = t"
    and "cells s' i = Some d" and "replication s' = Some r'" and "held (ring_queue r') = held (ring_queue r) @ xs"
    and "set (entries (checkpoints c)) \<subseteq> set (entries (checkpoints d))"
    and "mirrors (overlay_batches M xs) (memory d)"
    and "xs = [] \<or> (\<exists>y. xs = [y] \<and> raw_batch y \<and> batch_tick y = t \<and> image_ok H d t (overlay_deltas M (deltas y)))"
proof -
  obtain q y c' where q: "run_quantum X x (quantum_cell c) (max_instructions_per_quantum s) = Inr (q, y, c')"
    by (rule dispatched_quantum [OF inv contract c])
  have cinv: "cell_inv b H c" using inv c unfolding sup_inv_def by blast
  have c': "cell_inv b H c'" "checkpoints c' = checkpoints c" using executor_keeps_cell_inv(1,3) [OF contract q] cinv by simp_all
  have m': "mirrors M (memory c')" by (rule executor_keeps_mirror [OF contract q cinv mir])
  obtain d where d: "sup_inv b H api held s'" "order (sup_scheduler s') = [i]" "current_tick_of (sup_scheduler s') = t"
      "cells s' = (cells s)(i \<mapsto> d)"
    and eff: "if isl q \<or> \<not> checkpoint_due c t then d = c' \<and> replication s' = replication s
      else checkpoint_effect H api held (execution_digest X y c') i t c' d (replication s) (replication s') res"
    using cycle_effect [OF inv contract sound ord room c q t, of od] run by (auto split: if_splits)
  note found = that [OF d(1-3), of d]
  show thesis
  proof (cases "isl q \<or> \<not> checkpoint_due c t")
    case True
    then show thesis using found [of r "[]"] eff d(4) r m' c'(2) by simp
  next
    case False
    then have eff: "checkpoint_effect H api held (execution_digest X y c') i t c' d (Some r) (replication s') res"
      using eff r by simp
    then obtain r' e where r': "replication s' = Some r'"
        and e: "entries (checkpoints d) = entries (checkpoints c') @ [e]" "entry_tick e = t" "smt_root e = memory_root H (memory c')"
      by (auto simp: checkpoint_effect_def split: option.splits)
    show thesis
    proof (cases "length (held (ring_queue r)) < unat (aq_capacity api (ring_queue r))")
      case True
      with eff r' have f: "flushed c' d" "held (ring_queue r') = held (ring_queue r) @ [dirty_batch t (memory c')]"
        by (auto simp: checkpoint_effect_def)
      let ?y = "dirty_batch t (memory c')"
      have mir': "mirrors (overlay_deltas M (deltas ?y)) (memory d)" by (rule dirty_batch_raw(2) [OF c'(1) m' f(1)])
      have "pages (dirty (memory d)) = {}" using f(1) by (simp add: flushed_def)
      then have "map_root H (overlay_deltas M (deltas ?y)) = smt_root e"
        using mirrors_map_root [OF mir'] flushed_memory(4) [OF f(1)] e(3) by simp
      moreover have "t \<noteq> 0" using room by (simp add: t unat_Suc_small flip: unat_eq_zero)
      ultimately have "image_ok H d t (overlay_deltas M (deltas ?y))" using e(1,2) by (auto simp: image_ok_def)
      then show thesis
        using found [of r' "[?y]"] d(4) r' f(2) e(1) c'(2) mir' dirty_batch_raw(1) [OF c'(1), of t] by (auto simp: dirty_batch_def)
    next
      case False
      with eff r' have "r' = r" "memory d = memory c'" by (auto simp: checkpoint_effect_def)
      then show thesis using found [of r "[]"] d(4) r' e(1) c'(2) m' by auto
    qed
  qed
qed

lemma ha_cycle_inv:
  assumes "executor_contract b X" and "queue_sound api held" and "ha_inv b H api held i (s, x, wire, sb)"
    and "run_one_cycle b api od H X s x = Inr (res, s', x')"
    and "unat (current_tick_of (sup_scheduler s)) + 1 < 2 ^ 64"
  shows "ha_inv b H api held i (s', x', wire, sb)"
proof -
  let ?t = "current_tick_of (sup_scheduler s) + 1"
  obtain c r where inv: "sup_inv b H api held s" "order (sup_scheduler s) = [i]" "engine_inv (engine sb)"
      "cells s i = Some c" "replication s = Some r"
      "pending_ok H c sb (current_tick_of (sup_scheduler s)) (wire @ held (ring_queue r))"
    using assms(3) unfolding ha_inv_def prod.case by blast
  let ?M = "overlay_batches (engine_map (engine sb)) (wire @ held (ring_queue r))"
  have mir: "mirrors ?M (memory c)" using inv(6) by (simp add: pending_ok_def)
  obtain d r' xs where d: "sup_inv b H api held s'" "order (sup_scheduler s') = [i]" "current_tick_of (sup_scheduler s') = ?t"
      "cells s' i = Some d" "replication s' = Some r'" "held (ring_queue r') = held (ring_queue r) @ xs"
      "set (entries (checkpoints c)) \<subseteq> set (entries (checkpoints d))" "mirrors (overlay_batches ?M xs) (memory d)"
      "xs = [] \<or> (\<exists>y. xs = [y] \<and> raw_batch y \<and> batch_tick y = ?t \<and> image_ok H d ?t (overlay_deltas ?M (deltas y)))"
    by (rule cycle_pending [OF assms(1,2) inv(1,2,4,5) assms(5,4) refl mir])
  have "current_tick_of (sup_scheduler s) < ?t" using assms(5) by (simp add: word_less_nat_alt unat_Suc_small)
  from pending_ok_push [OF inv(6) this d(7-9)] show ?thesis using d(1-6) inv(3) by (simp add: ha_inv_def)
qed

lemma ha_pop_inv:
  assumes "queue_sound api held" and "ha_inv b H api held i (s, x, wire, sb)" and "replication s = Some r"
    and "aq_pop api (ring_queue r) = Some (y, q)"
  shows "ha_inv b H api held i (s\<lparr>replication := Some (r\<lparr>ring_queue := q\<rparr>)\<rparr>, x, wire @ [y], sb)"
proof -
  note pop = ring_inv_pop [OF assms(1,4)]
  have inv: "sup_inv b H api held s" using assms(2) by (simp add: ha_inv_def)
  then have "ring_inv api held r" using assms(3) by (simp add: sup_inv_def)
  then have "sup_inv b H api held (s\<lparr>replication := Some (r\<lparr>ring_queue := q\<rparr>)\<rparr>)"
    by (intro sup_inv_replication [OF inv] pop(1))
  then show ?thesis using assms(2,3) pop(2) by (simp add: ha_inv_def)
qed

lemma ha_apply_inv:
  assumes "ha_inv b H api held i (s, x, y # wire, sb)" and "apply_batch b' sb y = Inr (res, sb')"
  shows "ha_inv b H api held i (s, x, wire, sb')"
  using assms(1) pending_ok_apply(1,2) [OF _ _ assms(2)] unfolding ha_inv_def by fastforce

lemma ha_reachable_inv:
  assumes "executor_contract b X" and "queue_sound api held" and "ha_start b H api held X i st0"
    and "(ha_step b b' H api X)\<^sup>*\<^sup>* st0 st"
  shows "ha_inv b H api held i st"
  using assms(4)
proof (induction rule: rtranclp_induct)
  case base
  show ?case by (rule ha_start_inv [OF assms(1-3)])
next
  case (step y z)
  from step.hyps(2) step.IH show ?case
    by cases (auto intro: ha_cycle_inv [OF assms(1,2)] ha_pop_inv [OF assms(2)] ha_apply_inv)
qed

text \<open>The standby catches up from whatever is on the wire and queued, and then mirrors the memory.\<close>

lemma standby_catches_up:
  assumes "executor_contract b X" and "queue_sound api held" and "ha_start b H api held X i st0"
    and "(ha_step b b' H api X)\<^sup>*\<^sup>* st0 (s, x, wire, sb)" and "cells s i = Some c"
  obtains r bs r' sb' where "replication s = Some r" and "drain_ring api r = Some (bs, r')"
    and "standby_run b'' sb (wire @ bs) = Inr (wire @ bs, sb')" and "mirrors (engine_map (engine sb')) (memory c)"
proof -
  obtain r where inv: "engine_inv (engine sb)" "replication s = Some r"
      "\<forall>x\<in>set (wire @ held (ring_queue r)). raw_batch x"
      "sorted_wrt (<) (last_applied_tick sb # map batch_tick (wire @ held (ring_queue r)))"
      "mirrors (overlay_batches (engine_map (engine sb)) (wire @ held (ring_queue r))) (memory c)"
    using ha_reachable_inv [OF assms(1-4)] assms(5) unfolding ha_inv_def pending_ok_def by auto
  obtain q where "drain_loop api (ring_queue r) [] = Some (held (ring_queue r), q)"
    using drain_loop_ok [OF assms(2), of "ring_queue r" "[]"] by auto
  then have drain: "drain_ring api r = Some (held (ring_queue r), r\<lparr>ring_queue := q\<rparr>)" by (simp add: drain_ring_def)
  obtain sb' where "standby_run b'' sb (wire @ held (ring_queue r)) = Inr (wire @ held (ring_queue r), sb')"
      "engine_map (engine sb') = overlay_batches (engine_map (engine sb)) (wire @ held (ring_queue r))"
    using standby_applies_raw [OF inv(1,3,4), of b''] by blast
  then show thesis using that [OF inv(2) drain] inv(5) by simp
qed

text \<open>A deployment after one cycle of the storing guest.\<close>

lemma example_failover:
  obtains s0 sb res s c e where "new_StandbyApplyLoop 16 = Inr sb"
    and "ha_start Debug example_hash example_queue snd (example_executor Debug) 1 (s0, 5, [], sb)"
    and "run_one_cycle Debug example_queue insertion_order example_hash (example_executor Debug) s0 5 = Inr (res, s, 6)"
    and "(ha_step Debug Release example_hash example_queue (example_executor Debug))\<^sup>*\<^sup>* (s0, 5, [], sb) (s, 6, [], sb)"
    and "cells s 1 = Some c" and "latest (checkpoints c) = Some e" and "pages (dirty (memory c)) = {}"
    and "\<exists>r y q. replication s = Some r \<and> aq_pop example_queue (ring_queue r) = Some (y, q) \<and> batch_tick y = 1"
proof -
  let ?X = "example_executor Debug"
  let ?ring = "\<lparr>ring_queue = (4, []), ring_last_pushed_tick = 0\<rparr> :: (usize \<times> tick_batch list) delta_ring"
  obtain s0 c0 where s0: "sup_reachable Debug example_hash example_queue ?X (s0, 5)" "order (sup_scheduler s0) = [1]"
      "current_tick_of (sup_scheduler s0) = 0" "cells s0 1 = Some c0" "size_bytes (memory c0) = 4096"
      "config c0 = example_config 1" "pages (dirty (memory c0)) = {}" "replication s0 = Some ?ring" "cells s0 = [1 \<mapsto> c0]"
      "\<forall>p. unat p < quota_pages (quota_bytes (memory c0)) \<longrightarrow> page_content (memory c0) p = zero_page"
    by (rule example_system [of 4 Debug example_hash ?X 5]) simp_all
  obtain sb where sb: "new_StandbyApplyLoop 16 = Inr sb"
    using new_DeltaEngine_ok [of 16] by (auto simp: new_StandbyApplyLoop_def isize_max_def PAGE_SIZE_def)
  have start: "ha_start Debug example_hash example_queue snd ?X 1 (s0, 5, [], sb)"
    using s0 sb by (auto simp: ha_start_def)
  obtain s d e r where s: "run_one_cycle Debug example_queue insertion_order example_hash ?X s0 5 = Inr (Inr (Some (1, 0 + 1)), s, 5 + 1)"
      "cells s = (cells s0)(1 \<mapsto> d)" "pages (dirty (memory d)) = {}" "entries (checkpoints d) = entries (checkpoints c0) @ [e]"
      "replication s = Some r" "snd (ring_queue r) =
        snd (ring_queue ?ring) @ [\<lparr>batch_tick = 0 + 1, deltas = [Raw 0 (page_content (memory d) 0)]\<rparr>]"
    by (rule example_cycle [OF s0(1,2) _ s0(4-8), of "0 + 1" insertion_order]) (simp_all add: s0(3))
  have d: "cells s 1 = Some d" "latest (checkpoints d) = Some e" using s(2,4) by (simp_all add: latest_def)
  have run: "run_one_cycle Debug example_queue insertion_order example_hash ?X s0 5 = Inr (Inr (Some (1, 1)), s, 6)"
    using s(1) by simp
  have "ha_step Debug Release example_hash example_queue ?X (s0, 5, [], sb) (s, 6, [], sb)"
    using run s0(3) by (intro ha_step.ha_cycle) simp_all
  then have "(ha_step Debug Release example_hash example_queue ?X)\<^sup>*\<^sup>* (s0, 5, [], sb) (s, 6, [], sb)" by simp
  moreover have "\<exists>y q. aq_pop example_queue (ring_queue r) = Some (y, q) \<and> batch_tick y = 1"
    using s(6) by (cases "ring_queue r") (simp add: example_queue_def)
  ultimately show thesis using that [OF sb start run _ d s(3)] s(5) by blast
qed

subsection \<open>Properties\<close>

text \<open>
  Property C3. Failover: at any moment of any run of a single-tenant primary, its network
  task and its standby, the standby can catch up (the ring drains, and no batch on the wire or
  in the ring is refused or panics), and then holds, for every page of the tenant not written since the last
  flush, exactly the primary's bytes; a page it never received is all zero there.
  Faulting quanta and full rings lose nothing: unflushed pages stay marked dirty.
\<close>

theorem failover_takeover:
  assumes "executor_contract b X" and "queue_sound api held" and "ha_start b H api held X i st0"
    and "(ha_step b b' H api X)\<^sup>*\<^sup>* st0 (s, x, wire, sb)" and "cells s i = Some c"
  shows "\<exists>r bs r' sb'. replication s = Some r \<and> drain_ring api r = Some (bs, r') \<and>
    standby_run b'' sb (wire @ bs) = Inr (wire @ bs, sb') \<and>
    (\<forall>p. unat p < quota_pages (quota_bytes (memory c)) \<longrightarrow> p \<notin> pages (dirty (memory c)) \<longrightarrow>
       page_content (memory c) p = (case engine_map (engine sb') (unat p) of Some bytes \<Rightarrow> bytes | None \<Rightarrow> zero_page))"
  by (rule standby_catches_up [OF assms, of b'']) (auto simp: mirrors_def)

text \<open>One cycle of the storing guest, then a takeover.\<close>

theorem failover_takeover_witness:
  "\<exists>s0 res s c sb r bs r' sb'. new_StandbyApplyLoop 16 = Inr sb \<and>
     run_one_cycle Debug example_queue insertion_order example_hash (example_executor Debug) s0 5 = Inr (res, s, 6) \<and>
     cells s 1 = Some c \<and> replication s = Some r \<and> drain_ring example_queue r = Some (bs, r') \<and>
     standby_run Release sb bs = Inr (bs, sb') \<and>
     (\<forall>p. unat p < quota_pages (quota_bytes (memory c)) \<longrightarrow> p \<notin> pages (dirty (memory c)) \<longrightarrow>
       page_content (memory c) p = (case engine_map (engine sb') (unat p) of Some bytes \<Rightarrow> bytes | None \<Rightarrow> zero_page))"
proof -
  let ?X = "example_executor Debug"
  obtain s0 sb res s c where ex: "new_StandbyApplyLoop 16 = Inr sb" "ha_start Debug example_hash example_queue snd ?X 1 (s0, 5, [], sb)"
      "run_one_cycle Debug example_queue insertion_order example_hash ?X s0 5 = Inr (res, s, 6)"
      "(ha_step Debug Release example_hash example_queue ?X)\<^sup>*\<^sup>* (s0, 5, [], sb) (s, 6, [], sb)" "cells s 1 = Some c"
    by (rule example_failover)
  from failover_takeover [OF example_executor_contract example_queue_sound ex(2,4,5), of Release] ex(1,3,5)
  show ?thesis by fastforce
qed

end
