(* ===== verification/Standby_Audit.thy ===== *)
theory Standby_Audit
  imports Failover Cell_History
begin

section \<open>Auditing the standby against the checkpoint chain\<close>

text \<open>
  The two outputs of a cycle, the recorded Merkle root and the replicated pages, agree:
  a Merkle tree built from nothing but what the standby holds has the root that the
  primary recorded. A ring that is shared by several tenants does not have this property,
  because a batch does not say which tenant its pages belong to.
\<close>

subsection \<open>A tree built from the standby's pages\<close>

definition engine_pages :: "delta_engine \<Rightarrow> u64 list" where
  "engine_pages e = map of_nat (filter (\<lambda>i. have_baseline e ! i) [0..<length (baseline e)])"

definition standby_tree :: "hash_fn \<Rightarrow> delta_engine \<Rightarrow> sparse_merkle_tree" where
  "standby_tree H e =
     foldl (\<lambda>t p. update_leaf H t p (baseline e ! unat p)) (new_SparseMerkleTree H) (engine_pages e)"

lemma rebuild:
  assumes "smt_inv H t" and "within_depth t" and "\<forall>p\<in>set ps. unat p < 2 ^ TREE_DEPTH"
  shows "smt_inv H (foldl (\<lambda>t p. update_leaf H t p (g p)) t ps) \<and> within_depth (foldl (\<lambda>t p. update_leaf H t p (g p)) t ps) \<and>
    leaf_hash (foldl (\<lambda>t p. update_leaf H t p (g p)) t ps) = (\<lambda>p. if p \<in> set ps then H (g p) else leaf_hash t p)"
  using assms
proof (induction ps arbitrary: t)
  case (Cons p ps)
  from Cons.IH [of "update_leaf H t p (g p)"] Cons.prems show ?case
    by (auto simp: update_leaf_inv)
qed simp

lemma standby_tree_root:
  assumes "dom (engine_map e) \<subseteq> {..<2 ^ TREE_DEPTH}"
  shows "root od H (standby_tree H e) = map_root H (engine_map e)"
proof -
  let ?t = "standby_tree H e"
  have small: "n < 2 ^ 64" if "n \<in> dom (engine_map e)" for n using that assms by (fastforce simp: TREE_DEPTH_def)
  have set: "p \<in> set (engine_pages e) \<longleftrightarrow> unat p \<in> dom (engine_map e)" for p
  proof
    assume "p \<in> set (engine_pages e)"
    then obtain i where i: "p = of_nat i" "i \<in> dom (engine_map e)" by (auto simp: engine_pages_def engine_map_def dom_def)
    then show "unat p \<in> dom (engine_map e)" using small [OF i(2)] by (simp add: unat_of_nat)
  next
    assume "unat p \<in> dom (engine_map e)"
    then show "p \<in> set (engine_pages e)"
      by (auto simp: engine_pages_def engine_map_def dom_def image_iff intro!: bexI [of _ "unat p"] split: if_splits)
  qed
  have "\<forall>p\<in>set (engine_pages e). unat p < 2 ^ TREE_DEPTH" using set assms by fastforce
  note tree = rebuild [OF new_SparseMerkleTree_inv(1,2) this, of H "\<lambda>p. baseline e ! unat p", folded standby_tree_def]
  have "leaf_fn H ?t n = H (case engine_map e n of Some c \<Rightarrow> c | None \<Rightarrow> zero_page)" for n
  proof (cases "n < 2 ^ 64")
    case True
    then have "unat (of_nat n :: u64) = n" by (simp add: unat_of_nat)
    then show ?thesis using True tree set [of "of_nat n"] by (auto simp: leaf_fn_def engine_map_def)
  next
    case False
    then have "engine_map e n = None" using small by blast
    then show ?thesis using False by (simp add: leaf_fn_def)
  qed
  then have "leaf_fn H ?t = (\<lambda>n. H (case engine_map e n of Some c \<Rightarrow> c | None \<Rightarrow> zero_page))" by (rule ext)
  then show ?thesis using tree by (simp add: root_eq_node_hash map_root_def)
qed

lemma mirrors_tree_depth:
  assumes "mirrors M m" and "dom N \<subseteq> dom M"
  shows "dom N \<subseteq> {..<2 ^ TREE_DEPTH}"
  using assms quota_pages_bounds(2) [of "quota_bytes m"] by (fastforce simp: mirrors_def TREE_DEPTH_def)

lemma filter_key_unique:
  assumes "distinct (map f xs)" and "x \<in> set xs"
  shows "filter (\<lambda>y. f y = f x) xs = [x]"
  using assms by (induction xs) (auto simp: filter_empty_conv, metis image_eqI)

lemma ha_reachable_sup:
  assumes "ha_start b H api held X i st0" and "(ha_step b b' H api X)\<^sup>*\<^sup>* st0 (s, x, wire, sb)"
  shows "sup_reachable b H api X (s, x)"
proof -
  from assms(2) have "case (s, x, wire, sb) of (s, x, _) \<Rightarrow> sup_reachable b H api X (s, x)"
  proof (induction rule: rtranclp_induct)
    case base
    then show ?case using assms(1) by (auto simp: ha_start_def)
  next
    case (step y z)
    from step.hyps(2) show ?case
    proof cases
      case (ha_cycle od s x res s' x' wire sb)
      then show ?thesis using step.IH sup_reachable_step [OF _ sup_step.cycle [OF ha_cycle(3,4)]] by simp
    next
      case (ha_pop s r y q x wire sb)
      then show ?thesis using step.IH sup_reachable_step [OF _ sup_step.consume [OF ha_pop(3,4)]] by simp
    next
      case ha_apply
      then show ?thesis using step.IH by simp
    qed
  qed
  then show ?thesis by simp
qed

subsection \<open>Properties\<close>

text \<open>
  The standby can be audited against the checkpoint chain. At any moment of
  any run of a single-tenant primary and its standby in which the tenant has a checkpoint
  and has written no page since the last flush: the standby catches up from the ring,
  and the Merkle tree built from nothing but the pages it then holds, hashed in any
  iteration order, has exactly the root of the latest checkpoint entry.
\<close>

theorem standby_audit:
  assumes "executor_contract b X" and "queue_sound api held" and "ha_start b H api held X i st0"
    and "(ha_step b b' H api X)\<^sup>*\<^sup>* st0 (s, x, wire, sb)" and "cells s i = Some c"
    and "latest (checkpoints c) = Some e" and "pages (dirty (memory c)) = {}"
  shows "\<exists>r bs r' sb'. replication s = Some r \<and> drain_ring api r = Some (bs, r') \<and>
    standby_run b'' sb (wire @ bs) = Inr (wire @ bs, sb') \<and> root od H (standby_tree H (engine sb')) = smt_root e"
proof -
  obtain r bs r' sb' where ship: "replication s = Some r" "drain_ring api r = Some (bs, r')"
      "standby_run b'' sb (wire @ bs) = Inr (wire @ bs, sb')" "mirrors (engine_map (engine sb')) (memory c)"
    by (rule standby_catches_up [OF assms(1-5), of b''])
  have "root_current H c"
    by (rule root_current_reachable [OF assms(1,2) ha_reachable_sup [OF assms(3,4)] assms(5)])
  then have "smt_root e = memory_root H (memory c)"
    using assms(6,7) by (auto simp: root_current_def latest_def split: if_splits)
  then show ?thesis
    using ship standby_tree_root [OF mirrors_tree_depth [OF ship(4) subset_refl], of od H] mirrors_map_root [OF ship(4) assms(7), of H]
    by auto
qed

theorem standby_audit_witness:
  "\<exists>(s :: (usize \<times> tick_batch list) supervisor) c e r bs r' sb sb'. new_StandbyApplyLoop 16 = Inr sb \<and> cells s 1 = Some c \<and>
     latest (checkpoints c) = Some e \<and> replication s = Some r \<and> drain_ring example_queue r = Some (bs, r') \<and>
     standby_run Release sb bs = Inr (bs, sb') \<and> root reverse_order example_hash (standby_tree example_hash (engine sb')) = smt_root e"
proof -
  let ?X = "example_executor Debug"
  obtain s0 sb s c e where ex: "new_StandbyApplyLoop 16 = Inr sb" "ha_start Debug example_hash example_queue snd ?X 1 (s0, 5, [], sb)"
      "(ha_step Debug Release example_hash example_queue ?X)\<^sup>*\<^sup>* (s0, 5, [], sb) (s, 6, [], sb)" "cells s 1 = Some c"
      "latest (checkpoints c) = Some e" "pages (dirty (memory c)) = {}"
    by (rule example_failover)
  from standby_audit [OF example_executor_contract example_queue_sound ex(2-6), of Release reverse_order] ex(1,4,5)
  show ?thesis by (simp only: append_Nil) blast
qed

text \<open>
  Property C4. Crash consistency: whatever the moment at which the primary stops, and
  however many batches are lost in its ring and on the wire, the standby holds one
  consistent image. Either it has applied nothing, or the primary's chain has exactly one
  entry of the tick that the standby applied last, and the Merkle tree built from the standby's
  pages has the root of that entry: the image is the tenant's whole memory as it was checkpointed at
  that tick, never a mixture of two ticks.
\<close>

theorem crash_consistency:
  assumes "executor_contract b X" and "queue_sound api held" and "ha_start b H api held X i st0"
    and "(ha_step b b' H api X)\<^sup>*\<^sup>* st0 (s, x, wire, sb)" and "cells s i = Some c"
  shows "if last_applied_tick sb = 0 then engine_map (engine sb) = Map.empty
    else \<exists>e. filter (\<lambda>e. entry_tick e = last_applied_tick sb) (entries (checkpoints c)) = [e] \<and>
           root od H (standby_tree H (engine sb)) = smt_root e"
proof (cases "last_applied_tick sb = 0")
  case False
  obtain bs where inv: "mirrors (overlay_batches (engine_map (engine sb)) bs) (memory c)"
      "images_ok H c (last_applied_tick sb) (engine_map (engine sb)) bs"
    using ha_reachable_inv [OF assms(1-4)] assms(5) by (auto simp: ha_inv_def pending_ok_def)
  then have "image_ok H c (last_applied_tick sb) (engine_map (engine sb))" by (cases bs) auto
  then obtain e where e: "e \<in> set (entries (checkpoints c))" "entry_tick e = last_applied_tick sb"
      "smt_root e = map_root H (engine_map (engine sb))"
    using False by (auto simp: image_ok_def)
  have "sorted_wrt (<) (map entry_tick (entries (checkpoints c)))"
    by (rule spaced_sorted [OF spaced_reachable [OF assms(1,2) ha_reachable_sup [OF assms(3,4)] assms(5)]])
  then have "distinct (map entry_tick (entries (checkpoints c)))" by (simp add: strict_sorted_iff)
  then have "filter (\<lambda>f. entry_tick f = entry_tick e) (entries (checkpoints c)) = [e]" using e(1) by (rule filter_key_unique)
  then show ?thesis
    using False e(2,3) standby_tree_root [OF mirrors_tree_depth [OF inv(1) overlay_dom], of od H] by simp
next
  case True
  obtain bs where "images_ok H c (last_applied_tick sb) (engine_map (engine sb)) bs"
    using ha_reachable_inv [OF assms(1-4)] assms(5) by (auto simp: ha_inv_def pending_ok_def)
  then show ?thesis using True by (cases bs) (auto simp: image_ok_def)
qed

text \<open>One batch popped and applied; the primary then stops.\<close>

theorem crash_consistency_witness:
  "\<exists>(s :: (usize \<times> tick_batch list) supervisor) c e sb. cells s 1 = Some c \<and> last_applied_tick sb = 1 \<and>
     filter (\<lambda>e. entry_tick e = 1) (entries (checkpoints c)) = [e] \<and>
     root reverse_order example_hash (standby_tree example_hash (engine sb)) = smt_root e"
proof -
  let ?X = "example_executor Debug"
  obtain s0 sb s c where ex: "ha_start Debug example_hash example_queue snd ?X 1 (s0, 5, [], sb)"
      "(ha_step Debug Release example_hash example_queue ?X)\<^sup>*\<^sup>* (s0, 5, [], sb) (s, 6, [], sb)" "cells s 1 = Some c"
      "\<exists>r y q. replication s = Some r \<and> aq_pop example_queue (ring_queue r) = Some (y, q) \<and> batch_tick y = 1"
    by (rule example_failover)
  then obtain r y q where y: "replication s = Some r" "aq_pop example_queue (ring_queue r) = Some (y, q)" "batch_tick y = 1" by blast
  let ?s = "s\<lparr>replication := Some (r\<lparr>ring_queue := q\<rparr>)\<rparr>"
  have pop: "(ha_step Debug Release example_hash example_queue ?X)\<^sup>*\<^sup>* (s0, 5, [], sb) (?s, 6, [y], sb)"
    using ex(2) ha_step.ha_pop [OF y(1,2), of Debug Release example_hash ?X 6 "[]" sb] by simp
  have "raw_batch y" "last_applied_tick sb < batch_tick y" "engine_inv (engine sb)"
    using ha_reachable_inv [OF example_executor_contract example_queue_sound ex(1) pop] by (auto simp: ha_inv_def pending_ok_def)
  then obtain sb' where sb': "apply_batch Release sb y = Inr (Inr (), sb')" "last_applied_tick sb' = 1"
    using apply_raw_batch [of sb y Release] y(3) by metis
  have app: "(ha_step Debug Release example_hash example_queue ?X)\<^sup>*\<^sup>* (s0, 5, [], sb) (?s, 6, [], sb')"
    using pop ha_step.ha_apply [OF sb'(1), of Debug example_hash example_queue ?X ?s 6 "[]"] by simp
  have c: "cells ?s 1 = Some c" using ex(3) by simp
  from crash_consistency [OF example_executor_contract example_queue_sound ex(1) app c, of reverse_order] sb'(2) c
  show ?thesis by auto
qed

text \<open>
  Property C22. A ring shared by two tenants conflates them. There is a reachable system with
  two cells, each of which has stored into its own page 0 and been checkpointed and
  flushed, whose ring drains and whose standby accepts every batch without an error,
  after which the standby holds the second tenant's page 0 where the first tenant's,
  different, page 0 should be: \<open>TickBatch\<close> and \<open>PageDelta\<close> carry no cell id.
\<close>

theorem ring_conflates_tenants:
  "\<exists>(s :: (usize \<times> tick_batch list) supervisor) x c d r bs r' sb sb'.
     sup_reachable Debug example_hash example_queue (example_executor Debug) (s, x) \<and>
     cells s 1 = Some c \<and> pages (dirty (memory c)) = {} \<and> cells s 2 = Some d \<and> pages (dirty (memory d)) = {} \<and>
     replication s = Some r \<and> drain_ring example_queue r = Some (bs, r') \<and> length bs = 2 \<and>
     new_StandbyApplyLoop 16 = Inr sb \<and> standby_run Debug sb bs = Inr (bs, sb') \<and>
     engine_map (engine sb') 0 = Some (page_content (memory d) 0) \<and> page_content (memory c) 0 \<noteq> page_content (memory d) 0"
proof -
  let ?X = "example_executor Debug"
  obtain s0 c0 d0 r0 where all: "\<forall>x. sup_reachable Debug example_hash example_queue ?X (s0, x)"
    and s0: "order (sup_scheduler s0) = [1, 2]" "current_tick_of (sup_scheduler s0) = 0"
      "cells s0 1 = Some c0" "size_bytes (memory c0) = 4096" "config c0 = example_config 1" "pages (dirty (memory c0)) = {}"
      "cells s0 2 = Some d0" "size_bytes (memory d0) = 4096" "config d0 = example_config 2" "pages (dirty (memory d0)) = {}"
      "replication s0 = Some r0" "snd (ring_queue r0) = []" "fst (ring_queue r0) = 4"
    by (rule example_tenants [of 4 Debug example_hash ?X]) simp_all
  obtain s1 c e1 r1 where s1: "sup_reachable Debug example_hash example_queue ?X (s1, 5 + 1)"
      "order (sup_scheduler s1) = [2] @ [1]" "current_tick_of (sup_scheduler s1) = 0 + 1" "cells s1 = (cells s0)(1 \<mapsto> c)"
      "pages (dirty (memory c)) = {}" "replication s1 = Some r1" "fst (ring_queue r1) = fst (ring_queue r0)"
      "snd (ring_queue r1) = snd (ring_queue r0) @ [\<lparr>batch_tick = 0 + 1, deltas = [Raw 0 (page_content (memory c) 0)]\<rparr>]"
      "page_content (memory c) 0 ! 7 = of_nat 5"
    by (rule example_cycle [OF spec [OF all, of 5] s0(1) _ s0(3-6) s0(11) _, of "0 + 1"]) (simp_all add: s0)
  have t1: "unat (current_tick_of (sup_scheduler s1)) + 1 < 2 ^ 64" "cells s1 2 = Some d0" using s1(3,4) s0(7) by simp_all
  obtain s2 d e2 r2 where s2: "sup_reachable Debug example_hash example_queue ?X (s2, 5 + 1 + 1)"
      "cells s2 = (cells s1)(2 \<mapsto> d)" "pages (dirty (memory d)) = {}" "replication s2 = Some r2"
      "snd (ring_queue r2) = snd (ring_queue r1) @ [\<lparr>batch_tick = 1 + 1, deltas = [Raw 0 (page_content (memory d) 0)]\<rparr>]"
      "page_content (memory d) 0 ! 7 = of_nat (5 + 1)"
    by (rule example_cycle [OF s1(1) s1(2) [unfolded append_Cons append_Nil] t1 s0(8-10) s1(6), of "1 + 1"]) (simp_all add: s1 s0)
  let ?bs = "[\<lparr>batch_tick = 1, deltas = [Raw 0 (page_content (memory c) 0)]\<rparr>,
      \<lparr>batch_tick = 2, deltas = [Raw 0 (page_content (memory d) 0)]\<rparr>]"
  have held: "snd (ring_queue r2) = ?bs" using s2(5) s1(8) s0(12) by simp
  obtain sb where sb: "new_StandbyApplyLoop 16 = Inr sb" "engine_inv (engine sb)" "last_applied_tick sb = 0"
    using new_DeltaEngine_ok [of 16] by (auto simp: new_StandbyApplyLoop_def isize_max_def PAGE_SIZE_def last_applied_tick_def)
  have "\<forall>x\<in>set ?bs. raw_batch x" by (auto simp: raw_batch_def trackable_def isize_max_def PAGE_SIZE_def)
  then obtain sb' where sb': "standby_run Debug sb ?bs = Inr (?bs, sb')"
      "engine_map (engine sb') = overlay_batches (engine_map (engine sb)) ?bs"
    using standby_applies_raw [OF sb(2), of ?bs Debug] sb(3) by auto
  obtain q where "drain_loop example_queue (ring_queue r2) [] = Some (?bs, q)"
    using drain_loop_ok [OF example_queue_sound, of "ring_queue r2" "[]"] held by auto
  then have "drain_ring example_queue r2 = Some (?bs, r2\<lparr>ring_queue := q\<rparr>)" by (simp add: drain_ring_def)
  moreover have "cells s2 1 = Some c" "cells s2 2 = Some d" using s2(2) s1(4) by simp_all
  moreover have "engine_map (engine sb') 0 = Some (page_content (memory d) 0)" by (simp add: sb'(2) overlay_batches_def)
  moreover have "page_content (memory c) 0 \<noteq> page_content (memory d) 0" using s1(9) s2(6) by auto
  ultimately show ?thesis using s2(1,3,4) s1(5) sb(1) sb'(1) by fastforce
qed

end
