(* ===== verification/Ring_Threads.thy ===== *)
theory Ring_Threads
  imports Replicate "HOL-Library.Sublist"
begin

section \<open>The ring between two threads\<close>

text \<open>
  \<open>DeltaRing::push\<close> on the dispatch thread and \<open>DeltaRing::drain\<close> on the streaming thread,
  cut at their accesses to shared state: \<open>push\<close> is the queue's push followed by the store
  to \<open>last_pushed_tick\<close>, \<open>drain\<close> is one pop after another until the queue is seen empty.
  A schedule says which thread takes the next turn. The queue's operations are atomic, as
  crossbeam documents; the counter is a single atomic location.
\<close>

subsection \<open>State and turns\<close>

text \<open>Where each thread is: a store that is still to be done, a drain with what it took so far.\<close>

datatype producer_pc = Producer_Idle | Producer_Storing u64

datatype consumer_pc = Consumer_Idle | Consumer_Draining "tick_batch list"

record 'q ring_threads =
  shared_ring :: "'q delta_ring"
  producer :: producer_pc
  consumer :: consumer_pc
  accepted :: "tick_batch list"
  returned :: "tick_batch list list"

definition threads_start :: "'q delta_ring \<Rightarrow> 'q ring_threads" where
  "threads_start r =
     \<lparr>shared_ring = r, producer = Producer_Idle, consumer = Consumer_Idle, accepted = [], returned = []\<rparr>"

definition producer_turn :: "'q array_queue_api \<Rightarrow> tick_batch \<Rightarrow> 'q ring_threads \<Rightarrow> 'q ring_threads" where
  "producer_turn api batch st =
     (case producer st of
        Producer_Idle \<Rightarrow>
          (case aq_push api (ring_queue (shared_ring st)) batch of
             None \<Rightarrow> st
           | Some q \<Rightarrow>
               st\<lparr>shared_ring := (shared_ring st)\<lparr>ring_queue := q\<rparr>, producer := Producer_Storing (batch_tick batch),
                  accepted := accepted st @ [batch]\<rparr>)
      | Producer_Storing t \<Rightarrow>
          st\<lparr>shared_ring := (shared_ring st)\<lparr>ring_last_pushed_tick := t\<rparr>, producer := Producer_Idle\<rparr>)"

definition consumer_turn :: "'q array_queue_api \<Rightarrow> 'q ring_threads \<Rightarrow> 'q ring_threads" where
  "consumer_turn api st =
     (case consumer st of
        Consumer_Idle \<Rightarrow> st\<lparr>consumer := Consumer_Draining []\<rparr>
      | Consumer_Draining out \<Rightarrow>
          (case aq_pop api (ring_queue (shared_ring st)) of
             None \<Rightarrow> st\<lparr>consumer := Consumer_Idle, returned := returned st @ [out]\<rparr>
           | Some (batch, q) \<Rightarrow>
               st\<lparr>shared_ring := (shared_ring st)\<lparr>ring_queue := q\<rparr>, consumer := Consumer_Draining (out @ [batch])\<rparr>))"

text \<open>A producer's turn names the batch it pushes if it is between two pushes.\<close>

datatype turn = Producer_Turn tick_batch | Consumer_Turn

fun threads_run :: "'q array_queue_api \<Rightarrow> 'q ring_threads \<Rightarrow> turn list \<Rightarrow> 'q ring_threads" where
  "threads_run api st [] = st"
| "threads_run api st (Producer_Turn batch # ts) = threads_run api (producer_turn api batch st) ts"
| "threads_run api st (Consumer_Turn # ts) = threads_run api (consumer_turn api st) ts"

subsection \<open>Simulation by atomic operations\<close>

text \<open>What a drain in progress has taken, and the tick of the last of some batches.\<close>

definition taken :: "'q ring_threads \<Rightarrow> tick_batch list" where
  "taken st = (case consumer st of Consumer_Idle \<Rightarrow> [] | Consumer_Draining out \<Rightarrow> out)"

definition shown_tick :: "tick_batch list \<Rightarrow> u64" where
  "shown_tick bs = (if bs = [] then 0 else batch_tick (last bs))"

text \<open>
  The state is that of a ring on which whole operations ran one after another, except
  that the counter is one batch behind between the two halves of a push.
\<close>

definition linearized :: "'q array_queue_api \<Rightarrow> 'q delta_ring \<Rightarrow> 'q ring_threads \<Rightarrow> bool" where
  "linearized api r st \<longleftrightarrow>
     (\<exists>ops r'. ring_run api r ops = (accepted st, concat (returned st) @ taken st, r') \<and>
        (case producer st of
           Producer_Idle \<Rightarrow> shared_ring st = r'
         | Producer_Storing t \<Rightarrow> t = shown_tick (accepted st) \<and>
             shared_ring st = r'\<lparr>ring_last_pushed_tick := shown_tick (butlast (accepted st))\<rparr>))"

lemma threads_run_append: "threads_run api st (xs @ ys) = threads_run api (threads_run api st xs) ys"
  by (induction api st xs rule: threads_run.induct) simp_all

lemma ring_run_append:
  assumes "ring_run api r xs = (acc, popped, r1)" and "ring_run api r1 ys = (acc', popped', r2)"
  shows "ring_run api r (xs @ ys) = (acc @ acc', popped @ popped', r2)"
  using assms
  by (induction api r xs arbitrary: acc popped rule: ring_run.induct)
    (auto simp: Let_def split: prod.splits option.splits if_splits)

lemma ring_run_produce:
  "ring_run api r [Produce x] =
     (case aq_push api (ring_queue r) x of
        None \<Rightarrow> ([], [], r)
      | Some q \<Rightarrow> ([x], [], r\<lparr>ring_queue := q, ring_last_pushed_tick := batch_tick x\<rparr>))"
  by (simp add: push_ring_def Let_def split: option.split)

lemma ring_run_consume:
  "ring_run api r [Consume] =
     (case aq_pop api (ring_queue r) of None \<Rightarrow> ([], [], r) | Some (x, q) \<Rightarrow> ([], [x], r\<lparr>ring_queue := q\<rparr>))"
  by (simp split: option.split)

lemma ring_run_counter:
  assumes "ring_run api r ops = (acc, popped, r')"
  shows "ring_last_pushed_tick r' = (if acc = [] then ring_last_pushed_tick r else batch_tick (last acc))"
  using assms
  by (induction api r ops arbitrary: acc popped rule: ring_run.induct)
    (auto simp: Let_def push_ring_def split: prod.splits option.splits if_splits)

lemma linearized_start: "linearized api r (threads_start r)"
  unfolding linearized_def by (intro exI [of _ "[]"] exI [of _ r]) (simp add: threads_start_def taken_def)

lemma linearized_producer:
  assumes "ring_last_pushed_tick r = 0" and "linearized api r st"
  shows "linearized api r (producer_turn api x st)"
proof (cases "producer st")
  case Producer_Idle
  then obtain ops where ops: "ring_run api r ops = (accepted st, concat (returned st) @ taken st, shared_ring st)"
    using assms(2) by (auto simp: linearized_def)
  show ?thesis
  proof (cases "aq_push api (ring_queue (shared_ring st)) x")
    case None
    then show ?thesis using assms(2) Producer_Idle by (simp add: producer_turn_def)
  next
    case (Some q)
    let ?r = "(shared_ring st)\<lparr>ring_queue := q, ring_last_pushed_tick := batch_tick x\<rparr>"
    have "ring_run api r (ops @ [Produce x]) = (accepted st @ [x], (concat (returned st) @ taken st) @ [], ?r)"
      by (rule ring_run_append [OF ops]) (simp add: ring_run_produce Some del: ring_run.simps)
    moreover have "ring_last_pushed_tick (shared_ring st) = shown_tick (accepted st)"
      using ring_run_counter [OF ops] assms(1) by (simp add: shown_tick_def)
    ultimately show ?thesis
      unfolding linearized_def using Producer_Idle Some
      by (intro exI [of _ "ops @ [Produce x]"] exI [of _ ?r])
        (simp add: producer_turn_def taken_def shown_tick_def del: ring_run.simps)
  qed
next
  case (Producer_Storing t)
  then obtain ops r' where ops: "ring_run api r ops = (accepted st, concat (returned st) @ taken st, r')"
      "t = shown_tick (accepted st)" "shared_ring st = r'\<lparr>ring_last_pushed_tick := shown_tick (butlast (accepted st))\<rparr>"
    using assms(2) by (auto simp: linearized_def)
  have "ring_last_pushed_tick r' = t" using ring_run_counter [OF ops(1)] assms(1) ops(2) by (simp add: shown_tick_def)
  then have "(shared_ring st)\<lparr>ring_last_pushed_tick := t\<rparr> = r'" using ops(3) by simp
  then show ?thesis
    using ops(1) Producer_Storing by (auto simp: linearized_def producer_turn_def taken_def)
qed

lemma linearized_consumer:
  assumes "linearized api r st"
  shows "linearized api r (consumer_turn api st)"
proof -
  obtain ops r' where ops: "ring_run api r ops = (accepted st, concat (returned st) @ taken st, r')"
    and pc: "case producer st of Producer_Idle \<Rightarrow> shared_ring st = r'
      | Producer_Storing t \<Rightarrow> t = shown_tick (accepted st) \<and>
          shared_ring st = r'\<lparr>ring_last_pushed_tick := shown_tick (butlast (accepted st))\<rparr>"
    using assms by (auto simp: linearized_def)
  have q: "ring_queue r' = ring_queue (shared_ring st)" using pc by (auto split: producer_pc.splits)
  show ?thesis
  proof (cases "consumer st")
    case Consumer_Idle
    then show ?thesis using assms by (simp add: linearized_def consumer_turn_def taken_def cong: producer_pc.case_cong)
  next
    case (Consumer_Draining out)
    show ?thesis
    proof (cases "aq_pop api (ring_queue (shared_ring st))")
      case None
      then show ?thesis
        using assms Consumer_Draining by (simp add: linearized_def consumer_turn_def taken_def cong: producer_pc.case_cong)
    next
      case (Some y)
      obtain x q' where y: "y = (x, q')" by fastforce
      have "ring_run api r (ops @ [Consume]) =
          (accepted st @ [], (concat (returned st) @ taken st) @ [x], r'\<lparr>ring_queue := q'\<rparr>)"
        by (rule ring_run_append [OF ops]) (simp add: ring_run_consume q Some y del: ring_run.simps)
      then show ?thesis
        unfolding linearized_def using pc Consumer_Draining Some y
        by (intro exI [of _ "ops @ [Consume]"] exI [of _ "r'\<lparr>ring_queue := q'\<rparr>"])
          (auto simp: consumer_turn_def taken_def split: producer_pc.splits)
    qed
  qed
qed

lemma linearized_run:
  assumes "ring_last_pushed_tick r = 0" and "linearized api r st"
  shows "linearized api r (threads_run api st ts)"
  using assms(2)
  by (induction api st ts rule: threads_run.induct)
    (simp_all add: linearized_producer [OF assms(1)] linearized_consumer)

subsection \<open>A drain while the producer goes on\<close>

lemma accepted_mono: "length (accepted st) \<le> length (accepted (threads_run api st ts))"
proof (induction api st ts rule: threads_run.induct)
  case (2 api st x ts)
  have "length (accepted st) \<le> length (accepted (producer_turn api x st))"
    by (simp add: producer_turn_def split: producer_pc.split option.split)
  with 2 show ?case by simp
next
  case (3 api st ts)
  have "accepted (consumer_turn api st) = accepted st"
    by (auto simp: consumer_turn_def split: consumer_pc.split option.split)
  with 3 show ?case by simp
qed simp

lemma returned_mono: "prefix (returned st) (returned (threads_run api st ts))"
proof (induction api st ts rule: threads_run.induct)
  case (2 api st x ts)
  have "returned (producer_turn api x st) = returned st"
    by (simp add: producer_turn_def split: producer_pc.split option.split)
  with 2 show ?case by simp
next
  case (3 api st ts)
  have "prefix (returned st) (returned (consumer_turn api st))"
    by (auto simp: consumer_turn_def split: consumer_pc.split option.split)
  with 3 show ?case by (auto intro: prefix_order.trans)
qed simp

lemma producer_turn_effect:
  assumes "queue_sound api held"
  obtains xs where "held (ring_queue (shared_ring (producer_turn api x st))) = held (ring_queue (shared_ring st)) @ xs"
    and "accepted (producer_turn api x st) = accepted st @ xs" and "consumer (producer_turn api x st) = consumer st"
    and "returned (producer_turn api x st) = returned st"
proof (cases "producer st")
  case Producer_Idle
  then show thesis
    using queue_sound_push [OF assms, of "ring_queue (shared_ring st)" x] that [of "[]"] that [of "[x]"]
    by (fastforce simp: producer_turn_def split: if_splits)
next
  case (Producer_Storing t)
  then show thesis using that [of "[]"] by (simp add: producer_turn_def)
qed

text \<open>
  A drain in progress has returned as soon as the consumer has had more turns than there
  were batches in the ring plus batches accepted meanwhile.
\<close>

lemma drain_returns:
  assumes "queue_sound api held" and "consumer st = Consumer_Draining out"
    and "length (held (ring_queue (shared_ring st))) + (length (accepted (threads_run api st ts)) - length (accepted st))
           < count_list ts Consumer_Turn"
  shows "\<exists>out'. prefix (returned st @ [out']) (returned (threads_run api st ts)) \<and>
    prefix (out @ held (ring_queue (shared_ring st))) out'"
  using assms(2,3)
proof (induction ts arbitrary: st out)
  case (Cons t ts)
  show ?case
  proof (cases t)
    case (Producer_Turn x)
    let ?st = "producer_turn api x st"
    obtain xs where xs: "held (ring_queue (shared_ring ?st)) = held (ring_queue (shared_ring st)) @ xs"
        "accepted ?st = accepted st @ xs" "consumer ?st = consumer st" "returned ?st = returned st"
      by (rule producer_turn_effect [OF assms(1)])
    have "\<exists>out'. prefix (returned ?st @ [out']) (returned (threads_run api ?st ts)) \<and>
        prefix (out @ held (ring_queue (shared_ring ?st))) out'"
      by (rule Cons.IH) (use Cons.prems xs Producer_Turn accepted_mono [of ?st api ts] in auto)
    then show ?thesis using xs Producer_Turn by (auto simp: prefix_def)
  next
    case Consumer_Turn
    show ?thesis
    proof (cases "held (ring_queue (shared_ring st))")
      case Nil
      then have "consumer_turn api st = st\<lparr>consumer := Consumer_Idle, returned := returned st @ [out]\<rparr>"
        using Cons.prems(1) queue_sound_pop(1) [OF assms(1)] by (simp add: consumer_turn_def)
      then show ?thesis using returned_mono [of "consumer_turn api st" api ts] Nil Consumer_Turn by auto
    next
      case held: (Cons y ys)
      then obtain q where q: "aq_pop api (ring_queue (shared_ring st)) = Some (y, q)" "held q = ys"
        using queue_sound_pop(2) [OF assms(1)] by blast
      let ?st = "st\<lparr>shared_ring := (shared_ring st)\<lparr>ring_queue := q\<rparr>, consumer := Consumer_Draining (out @ [y])\<rparr>"
      have st: "consumer_turn api st = ?st" using Cons.prems(1) q by (simp add: consumer_turn_def)
      then have "\<exists>out'. prefix (returned ?st @ [out']) (returned (threads_run api ?st ts)) \<and>
          prefix ((out @ [y]) @ held (ring_queue (shared_ring ?st))) out'"
        by (intro Cons.IH) (use Cons.prems q held Consumer_Turn in auto)
      then show ?thesis using held q st Consumer_Turn by simp
    qed
  qed
qed simp

text \<open>Without a bound on the producer there is none on a drain, however small the ring.\<close>

lemma drain_goes_on:
  assumes "queue_sound api held" and "held (ring_queue (shared_ring st)) = []" and "producer st = Producer_Idle"
    and "aq_capacity api (ring_queue (shared_ring st)) \<noteq> 0" and "consumer st = Consumer_Draining out"
  shows "\<exists>ts. consumer (threads_run api st ts) = Consumer_Draining (out @ replicate n x) \<and>
    returned (threads_run api st ts) = returned st"
  using assms(2-)
proof (induction n arbitrary: st out)
  case 0
  then show ?case by (intro exI [of _ "[]"]) simp
next
  case (Suc n)
  obtain q where q: "aq_push api (ring_queue (shared_ring st)) x = Some q" "held q = [x]"
      "aq_capacity api q = aq_capacity api (ring_queue (shared_ring st))"
    using queue_sound_push [OF assms(1), of "ring_queue (shared_ring st)" x] Suc.prems(1,3)
    by (auto simp: unat_gt_0 split: if_splits)
  obtain q' where q': "aq_pop api q = Some (x, q')" "held q' = []" "aq_capacity api q' = aq_capacity api q"
    using queue_sound_pop(2) [OF assms(1) q(2)] by blast
  let ?ts = "[Producer_Turn x, Producer_Turn x, Consumer_Turn]"
  let ?st = "threads_run api st ?ts"
  have st: "?st = st\<lparr>shared_ring := \<lparr>ring_queue = q', ring_last_pushed_tick = batch_tick x\<rparr>, producer := Producer_Idle,
      consumer := Consumer_Draining (out @ [x]), accepted := accepted st @ [x]\<rparr>"
    using Suc.prems q q' by (simp add: producer_turn_def consumer_turn_def)
  obtain ts where ts: "consumer (threads_run api ?st ts) = Consumer_Draining ((out @ [x]) @ replicate n x)"
      "returned (threads_run api ?st ts) = returned ?st"
    using Suc.IH [of ?st "out @ [x]"] q(3) q'(2,3) Suc.prems(3) unfolding st by auto
  have "consumer (threads_run api st (?ts @ ts)) = Consumer_Draining (out @ replicate (Suc n) x) \<and>
      returned (threads_run api st (?ts @ ts)) = returned st"
    unfolding threads_run_append ts by (simp add: st del: threads_run.simps)
  then show ?case by blast
qed

subsection \<open>Properties\<close>

text \<open>
  Property C33. The ring is linearizable for its two threads. Whatever the interleaving of
  the producer's and the consumer's accesses, the batches accepted by \<open>push\<close> are, in this
  order, those returned by the finished drains, those a drain in progress has taken, and those
  still queued: none is lost, duplicated or reordered, and no more than the capacity are
  queued. The state is the one that whole pushes and pops reach when they are executed one after another, except that
  between the two halves of a push \<open>last_pushed_tick\<close> still shows the batch before.
\<close>

theorem threads_linearizable:
  assumes "queue_sound api held" and "new_DeltaRing api cap = Inr r" and "cap \<noteq> 0"
    and "st = threads_run api (threads_start r) turns"
  shows "accepted st = concat (returned st) @ taken st @ held (ring_queue (shared_ring st)) \<and>
    length (held (ring_queue (shared_ring st))) \<le> unat cap \<and>
    (\<exists>ops r'. ring_run api r ops = (accepted st, concat (returned st) @ taken st, r') \<and>
       last_pushed_tick r' = shown_tick (accepted st) \<and>
       (case producer st of
          Producer_Idle \<Rightarrow> shared_ring st = r'
        | Producer_Storing t \<Rightarrow> t = shown_tick (accepted st) \<and>
            shared_ring st = r'\<lparr>ring_last_pushed_tick := shown_tick (butlast (accepted st))\<rparr>))"
proof -
  have r: "held (ring_queue r) = []" "aq_capacity api (ring_queue r) = cap" "last_pushed_tick r = 0"
    using new_DeltaRing_ok [OF assms(1,3)] assms(2) by auto
  have "linearized api r st"
    unfolding assms(4) by (rule linearized_run) (use r(3) linearized_start in \<open>simp_all add: last_pushed_tick_def\<close>)
  then obtain ops r' where ops: "ring_run api r ops = (accepted st, concat (returned st) @ taken st, r')"
    and pc: "case producer st of Producer_Idle \<Rightarrow> shared_ring st = r'
      | Producer_Storing t \<Rightarrow> t = shown_tick (accepted st) \<and>
          shared_ring st = r'\<lparr>ring_last_pushed_tick := shown_tick (butlast (accepted st))\<rparr>"
    by (auto simp: linearized_def)
  have q: "ring_queue r' = ring_queue (shared_ring st)" using pc by (auto split: producer_pc.splits)
  have "last_pushed_tick r' = shown_tick (accepted st)"
    using ring_run_counter [OF ops] r(3) by (simp add: shown_tick_def last_pushed_tick_def)
  moreover have "accepted st = concat (returned st) @ taken st @ held (ring_queue (shared_ring st))"
      "length (held (ring_queue (shared_ring st))) \<le> unat cap"
    using ring_run_fifo [OF assms(1) ops] r q by simp_all
  ultimately show ?thesis using ops pc by blast
qed

text \<open>A drain that overtakes the store of the counter.\<close>

theorem threads_linearizable_witness:
  "let x = \<lparr>batch_tick = 7, deltas = []\<rparr>;
       r = \<lparr>ring_queue = (2, []), ring_last_pushed_tick = 0\<rparr>;
       st = threads_run example_queue (threads_start r) [Producer_Turn x, Consumer_Turn, Consumer_Turn, Consumer_Turn]
   in new_DeltaRing example_queue 2 = Inr r \<and> returned st = [[x]] \<and> producer st = Producer_Storing 7 \<and>
      last_pushed_tick (shared_ring st) = 0 \<and> accepted st = concat (returned st) @ taken st @ snd (ring_queue (shared_ring st))"
proof -
  let ?x = "\<lparr>batch_tick = 7, deltas = []\<rparr>" and ?r = "\<lparr>ring_queue = (2, []), ring_last_pushed_tick = 0\<rparr>"
  let ?ts = "[Producer_Turn ?x, Consumer_Turn, Consumer_Turn, Consumer_Turn]"
  have new: "new_DeltaRing example_queue 2 = Inr ?r" by (simp add: new_DeltaRing_def example_queue_def)
  have "threads_run example_queue (threads_start ?r) ?ts =
      \<lparr>shared_ring = ?r, producer = Producer_Storing 7, consumer = Consumer_Idle, accepted = [?x], returned = [[?x]]\<rparr>"
    by (simp add: threads_start_def producer_turn_def consumer_turn_def example_queue_def)
  then show ?thesis
    using threads_linearizable [OF example_queue_sound new _ refl, of ?ts] new
    by (simp add: Let_def last_pushed_tick_def del: threads_run.simps)
qed

text \<open>
  Property C34. A drain returns, and returns enough. From any state in which the consumer is
  inside \<open>drain\<close>, under any interleaving with the producer, the call has returned once the
  consumer has had more turns than there were batches in the ring plus batches accepted
  in the meantime, and its result continues what it had taken with at least
  everything that was in the ring. The dependence on the producer cannot be dropped: for
  every ring and every length there is a schedule under which a single drain takes that
  many batches and has still not returned.
\<close>

theorem drain_under_load:
  assumes "queue_sound api held" and "consumer st = Consumer_Draining out"
  shows "(length (held (ring_queue (shared_ring st))) + (length (accepted (threads_run api st ts)) - length (accepted st))
       < count_list ts Consumer_Turn \<longrightarrow>
     (\<exists>out'. prefix (returned st @ [out']) (returned (threads_run api st ts)) \<and>
        prefix (out @ held (ring_queue (shared_ring st))) out')) \<and>
    (held (ring_queue (shared_ring st)) = [] \<and> producer st = Producer_Idle \<and>
       aq_capacity api (ring_queue (shared_ring st)) \<noteq> 0 \<longrightarrow>
     (\<exists>us. consumer (threads_run api st us) = Consumer_Draining (out @ replicate n x) \<and>
        returned (threads_run api st us) = returned st))"
  using drain_returns [OF assms, of ts] drain_goes_on [OF assms(1) _ _ _ assms(2), of n x] by blast

theorem drain_under_load_witness:
  "let x = \<lparr>batch_tick = 7, deltas = []\<rparr>;
       st = (threads_start \<lparr>ring_queue = (2, [x]), ring_last_pushed_tick = 7\<rparr>)\<lparr>consumer := Consumer_Draining []\<rparr>
   in \<exists>out'. prefix (returned st @ [out'])
        (returned (threads_run example_queue st [Consumer_Turn, Producer_Turn x, Consumer_Turn, Consumer_Turn])) \<and> prefix [x] out'"
proof -
  let ?x = "\<lparr>batch_tick = 7, deltas = []\<rparr>"
  let ?st = "(threads_start \<lparr>ring_queue = (2 :: usize, [?x]), ring_last_pushed_tick = 7\<rparr>)\<lparr>consumer := Consumer_Draining []\<rparr>"
  let ?ts = "[Consumer_Turn, Producer_Turn ?x, Consumer_Turn, Consumer_Turn]"
  have "length (snd (ring_queue (shared_ring ?st))) + (length (accepted (threads_run example_queue ?st ?ts)) - length (accepted ?st))
      < count_list ?ts Consumer_Turn"
    by (simp add: threads_start_def producer_turn_def consumer_turn_def example_queue_def)
  moreover have "consumer ?st = Consumer_Draining []" by simp
  ultimately have "\<exists>out'. prefix (returned ?st @ [out']) (returned (threads_run example_queue ?st ?ts)) \<and>
      prefix ([] @ snd (ring_queue (shared_ring ?st))) out'"
    using drain_under_load [OF example_queue_sound, of ?st "[]" ?ts] by blast
  then show ?thesis by (simp add: Let_def threads_start_def del: threads_run.simps)
qed

end
