(* ===== verification/Uring.thy ===== *)
theory Uring
  imports Io
begin

unbundle bit_operations_syntax

section \<open>The io_uring backend (chronos-io/src/linux_ring.rs)\<close>

text \<open>
  \<open>UringIoSubsystem\<close> over the \<open>io-uring\<close> crate, which is the parameter \<open>api\<close>: the ring is
  of an arbitrary type \<open>'q\<close> and \<open>ring_sound\<close> states what the crate and the kernel
  document (a completion carries the user data of a queued entry, and each entry
  completes at most once). Under it the backend fulfils the trait's contract for
  requests whose identifiers fit the packed layout; outside that layout a debug build
  panics and a release build attributes the completion to another request.
\<close>

subsection \<open>User data\<close>

definition pack_user_data :: "build \<Rightarrow> CellId \<Rightarrow> GuestFd \<Rightarrow> u64 \<Rightarrow> u64 run" where
  "pack_user_data b cell fd req =
     (if b = Debug \<and> \<not> cell < push_bit 24 1 then Inl DebugAssertion
      else if b = Debug \<and> \<not> fd < push_bit 20 1 then Inl DebugAssertion
      else if b = Debug \<and> \<not> req < push_bit 20 1 then Inl DebugAssertion
      else Inr (push_bit 40 cell OR push_bit 20 (ucast fd) OR (req AND 0xFFFFF)))"

definition unpack_user_data :: "u64 \<Rightarrow> CellId \<times> GuestFd \<times> u64" where
  "unpack_user_data w =
     (let cell = drop_bit 40 w; fd = ucast (drop_bit 20 w AND 0xFFFFF); req = w AND 0xFFFFF
      in (cell, fd, req))"

subsection \<open>The ring\<close>

record sqe =
  sqe_op :: io_opcode
  sqe_fd :: i32
  sqe_addr :: u64
  sqe_len :: u32
  sqe_buf_index :: u16
  sqe_offset :: u64
  sqe_user_data :: u64

record cqe =
  cqe_user_data :: u64
  cqe_result :: i32

record iovec =
  iov_base :: u64
  iov_len :: usize

text \<open>The calls into the \<open>io-uring\<close> crate; \<open>None\<close> of \<open>sq_push\<close> is a full submission queue.\<close>

record 'q uring_api =
  io_uring_new :: "u32 \<Rightarrow> string + 'q"
  register_buffers :: "'q \<Rightarrow> iovec list \<Rightarrow> (string + unit) \<times> 'q"
  sq_push :: "'q \<Rightarrow> sqe \<Rightarrow> 'q option"
  ring_submit :: "'q \<Rightarrow> (string + nat) \<times> 'q"
  cq_drain :: "'q \<Rightarrow> cqe list \<times> 'q"

record 'q uring_io_subsystem =
  ring :: 'q
  registered_buffer_lens :: "u16 \<rightharpoonup> usize"

definition new_UringIoSubsystem :: "'q uring_api \<Rightarrow> u32 \<Rightarrow> io_error + 'q uring_io_subsystem" where
  "new_UringIoSubsystem api n =
     (case io_uring_new api n of
        Inl e \<Rightarrow> Inl (SetupFailed e)
      | Inr q \<Rightarrow> Inr \<lparr>ring = q, registered_buffer_lens = Map.empty\<rparr>)"

definition uring_register_fixed_buffer ::
  "'q uring_api \<Rightarrow> 'q uring_io_subsystem \<Rightarrow> u16 \<Rightarrow> byte_slice \<Rightarrow> (io_error + unit) \<times> 'q uring_io_subsystem" where
  "uring_register_fixed_buffer api io buffer_index buf =
     (case register_buffers api (ring io) [\<lparr>iov_base = slice_ptr buf, iov_len = slice_len buf\<rparr>] of
        (Inl e, q) \<Rightarrow> (Inl (BufferRegistrationFailed e), io\<lparr>ring := q\<rparr>)
      | (Inr _, q) \<Rightarrow>
          (Inr (), io\<lparr>ring := q,
             registered_buffer_lens := (registered_buffer_lens io)(buffer_index \<mapsto> slice_len buf)\<rparr>))"

text \<open>The tail shared by both submissions: push the entry, then submit.\<close>

definition push_and_submit ::
  "'q uring_api \<Rightarrow> 'q uring_io_subsystem \<Rightarrow> sqe \<Rightarrow> (io_error + unit) \<times> 'q uring_io_subsystem" where
  "push_and_submit api io e =
     (case sq_push api (ring io) e of
        None \<Rightarrow> (Inl SubmissionQueueFull, io)
      | Some q \<Rightarrow>
          (case ring_submit api q of
             (Inl msg, q') \<Rightarrow> (Inl (SetupFailed msg), io\<lparr>ring := q'\<rparr>)
           | (Inr _, q') \<Rightarrow> (Inr (), io\<lparr>ring := q'\<rparr>)))"

definition uring_submit_read_fixed ::
  "build \<Rightarrow> 'q uring_api \<Rightarrow> 'q uring_io_subsystem \<Rightarrow> CellId \<Rightarrow> GuestFd \<Rightarrow> i32 \<Rightarrow> u16 \<Rightarrow> u64 \<Rightarrow> u32 \<Rightarrow> u64
     \<Rightarrow> ((io_error + unit) \<times> 'q uring_io_subsystem) run" where
  "uring_submit_read_fixed b api io cell fd host_fd buffer_index offset len req =
     and_then (pack_user_data b cell fd req) (\<lambda>ud.
       Inr (push_and_submit api io
         \<lparr>sqe_op = ReadFixed, sqe_fd = host_fd, sqe_addr = 0, sqe_len = len, sqe_buf_index = buffer_index,
          sqe_offset = offset, sqe_user_data = ud\<rparr>))"

definition uring_submit_write_fixed ::
  "build \<Rightarrow> 'q uring_api \<Rightarrow> 'q uring_io_subsystem \<Rightarrow> CellId \<Rightarrow> GuestFd \<Rightarrow> i32 \<Rightarrow> u16 \<Rightarrow> u64 \<Rightarrow> u32 \<Rightarrow> u64
     \<Rightarrow> ((io_error + unit) \<times> 'q uring_io_subsystem) run" where
  "uring_submit_write_fixed b api io cell fd host_fd buffer_index offset len req =
     and_then (pack_user_data b cell fd req) (\<lambda>ud.
       Inr (push_and_submit api io
         \<lparr>sqe_op = WriteFixed, sqe_fd = host_fd, sqe_addr = 0, sqe_len = len, sqe_buf_index = buffer_index,
          sqe_offset = offset, sqe_user_data = ud\<rparr>))"

definition completion_of_cqe :: "cqe \<Rightarrow> io_completion" where
  "completion_of_cqe c =
     (let (cell, fd, req) = unpack_user_data (cqe_user_data c)
      in \<lparr>completion_cell = cell, guest_fd = fd, request_id = req, io_result = cqe_result c\<rparr>)"

definition uring_poll_completions ::
  "'q uring_api \<Rightarrow> 'q uring_io_subsystem \<Rightarrow> io_completion list \<times> 'q uring_io_subsystem" where
  "uring_poll_completions api io =
     (let (cs, q) = cq_drain api (ring io) in (map completion_of_cqe cs, io\<lparr>ring := q\<rparr>))"

definition uring_io_ops :: "build \<Rightarrow> 'q uring_api \<Rightarrow> 'q uring_io_subsystem io_subsystem_ops" where
  "uring_io_ops b api =
     \<lparr>register_fixed_buffer = uring_register_fixed_buffer api,
      submit_read_fixed = uring_submit_read_fixed b api,
      submit_write_fixed = uring_submit_write_fixed b api,
      poll_completions = uring_poll_completions api\<rparr>"

subsection \<open>What the crate promises, and the layout\<close>

text \<open>
  \<open>pend q\<close> is the multiset of the entries of \<open>q\<close> that are queued or in the kernel and whose
  completion has not been read. Reading completions takes entries out, and each completion
  carries the user data of one of them.
\<close>

definition ring_sound :: "'q uring_api \<Rightarrow> ('q \<Rightarrow> sqe multiset) \<Rightarrow> bool" where
  "ring_sound api pend \<longleftrightarrow>
     (\<forall>n q. io_uring_new api n = Inr q \<longrightarrow> pend q = {#}) \<and>
     (\<forall>q v. pend (snd (register_buffers api q v)) = pend q) \<and>
     (\<forall>q e q'. sq_push api q e = Some q' \<longrightarrow> pend q' = add_mset e (pend q)) \<and>
     (\<forall>q. pend (snd (ring_submit api q)) = pend q) \<and>
     (\<forall>q. \<exists>fin. fin + pend (snd (cq_drain api q)) = pend q \<and>
        mset (map cqe_user_data (fst (cq_drain api q))) = image_mset sqe_user_data fin)"

definition in_layout :: "io_request \<Rightarrow> bool" where
  "in_layout rq \<longleftrightarrow> unat (rq_cell rq) < 2 ^ 24 \<and> unat (rq_fd rq) < 2 ^ 20 \<and> unat (rq_id rq) < 2 ^ 20"

definition packed :: "CellId \<Rightarrow> GuestFd \<Rightarrow> u64 \<Rightarrow> u64" where
  "packed cell fd req = push_bit 40 cell OR push_bit 20 (ucast fd) OR (req AND 0xFFFFF)"

lemma pack_user_data_eq:
  "pack_user_data b cell fd req =
     (if b = Debug \<and> \<not> (unat cell < 2 ^ 24 \<and> unat fd < 2 ^ 20 \<and> unat req < 2 ^ 20)
      then Inl DebugAssertion else Inr (packed cell fd req))"
  by (auto simp: pack_user_data_def packed_def word_less_nat_alt)

lemma mask_20: "(0xFFFFF :: u64) = mask 20"
  by (simp add: mask_eq_exp_minus_1)

lemma unpack_packed:
  "unpack_user_data (packed cell fd req) =
     (take_bit 24 (cell OR drop_bit 20 (ucast fd)), take_bit 20 fd, take_bit 20 req)"
proof -
  have "drop_bit 40 (packed cell fd req) = take_bit 24 (cell OR drop_bit 20 (ucast fd))"
    by (rule bit_word_eqI) (auto simp: packed_def mask_20 bit_simps)
  moreover have "ucast (drop_bit 20 (packed cell fd req) AND 0xFFFFF) = take_bit 20 fd"
    by (rule bit_word_eqI) (auto simp: packed_def mask_20 bit_simps)
  moreover have "packed cell fd req AND 0xFFFFF = take_bit 20 req"
    by (rule bit_word_eqI) (auto simp: packed_def mask_20 bit_simps)
  ultimately show ?thesis by (simp add: unpack_user_data_def Let_def)
qed

lemma take_bit_small: "unat (w :: 'l::len word) < 2 ^ n \<Longrightarrow> take_bit n w = w"
  by (simp add: word_unat_eq_iff unsigned_take_bit_eq take_bit_nat_eq_self)

lemma unpack_packed_in_layout:
  assumes "unat cell < 2 ^ 24" and "unat fd < 2 ^ 20" and "unat req < 2 ^ 20"
  shows "unpack_user_data (packed cell fd req) = (cell, fd, req)"
proof -
  have "unat (drop_bit 20 (ucast fd :: u64)) = 0"
    using assms(2) by (simp add: drop_bit_eq_div unat_div)
  then have "drop_bit 20 (ucast fd :: u64) = 0" by (simp add: unat_eq_0)
  then show ?thesis using assms by (simp add: unpack_packed take_bit_small)
qed

subsection \<open>The backend fulfils the contract\<close>

text \<open>The entry a request is to become, every field of it, and what its user data says.\<close>

definition entry_of :: "io_request \<Rightarrow> sqe" where
  "entry_of rq =
     \<lparr>sqe_op = rq_op rq, sqe_fd = rq_host_fd rq, sqe_addr = 0, sqe_len = rq_len rq, sqe_buf_index = rq_buffer rq,
      sqe_offset = rq_offset rq, sqe_user_data = packed (rq_cell rq) (rq_fd rq) (rq_id rq)\<rparr>"

definition entry_ident :: "sqe \<Rightarrow> ident" where
  "entry_ident e = unpack_user_data (sqe_user_data e)"

lemma entry_ident_comp: "entry_ident = unpack_user_data \<circ> sqe_user_data"
  by (simp add: fun_eq_iff entry_ident_def)

lemma entry_ident_of: "in_layout rq \<Longrightarrow> entry_ident (entry_of rq) = ident_of rq"
  by (simp add: entry_ident_def entry_of_def ident_of_def in_layout_def unpack_packed_in_layout)

lemma push_and_submit_pend:
  assumes "ring_sound api pend" and "push_and_submit api io e = (res, io')"
  shows "if isl res then pend (ring io') \<in> {pend (ring io), add_mset e (pend (ring io))}
         else pend (ring io') = add_mset e (pend (ring io))"
proof (cases "sq_push api (ring io) e")
  case None
  then show ?thesis using assms(2) by (auto simp: push_and_submit_def)
next
  case (Some q)
  obtain r q' where q': "ring_submit api q = (r, q')" by fastforce
  have "pend q = add_mset e (pend (ring io))" "pend (snd (ring_submit api q)) = pend q"
    using assms(1) Some unfolding ring_sound_def by blast+
  then show ?thesis
    using assms(2) Some q' by (cases r) (auto simp: push_and_submit_def)
qed

lemma uring_submit_eq:
  assumes "in_layout rq"
  shows "submit_request (uring_io_ops b api) io rq = Inr (push_and_submit api io (entry_of rq))"
proof -
  have "pack_user_data b (rq_cell rq) (rq_fd rq) (rq_id rq) = Inr (packed (rq_cell rq) (rq_fd rq) (rq_id rq))"
    using assms by (simp add: pack_user_data_eq in_layout_def)
  then show ?thesis
    by (cases "rq_op rq")
      (simp_all add: submit_request_def uring_io_ops_def uring_submit_read_fixed_def uring_submit_write_fixed_def entry_of_def)
qed

lemma ident_of_completion_of_cqe [simp]:
  "ident_of_completion (completion_of_cqe c) = unpack_user_data (cqe_user_data c)"
  by (simp add: completion_of_cqe_def ident_of_completion_def case_prod_beta Let_def)

lemma uring_io_subsystem_law:
  assumes sound: "ring_sound api pend"
  shows "io_subsystem (uring_io_ops b api) (\<lambda>io. pend (ring io)) entry_of entry_ident in_layout"
proof unfold_locales
  fix rq and io :: "'a uring_io_subsystem"
  assume "in_layout rq"
  then have e: "submit_request (uring_io_ops b api) io rq = Inr (push_and_submit api io (entry_of rq))"
    by (rule uring_submit_eq)
  obtain res io' where r: "push_and_submit api io (entry_of rq) = (res, io')" by fastforce
  from push_and_submit_pend [OF sound r] e r
  show "\<exists>res io'. submit_request (uring_io_ops b api) io rq = Inr (res, io') \<and>
      (if isl res then pend (ring io') \<in> {pend (ring io), add_mset (entry_of rq) (pend (ring io))}
       else pend (ring io') = add_mset (entry_of rq) (pend (ring io)))"
    by auto
next
  fix io :: "'a uring_io_subsystem"
  obtain cs q where c: "cq_drain api (ring io) = (cs, q)" by fastforce
  have "\<exists>fin. fin + pend (snd (cq_drain api (ring io))) = pend (ring io) \<and>
      mset (map cqe_user_data (fst (cq_drain api (ring io)))) = image_mset sqe_user_data fin"
    using sound unfolding ring_sound_def by blast
  then obtain fin where fin: "fin + pend q = pend (ring io)" "mset (map cqe_user_data cs) = image_mset sqe_user_data fin"
    using c by auto
  have "mset (map (ident_of_completion \<circ> completion_of_cqe) cs) = image_mset unpack_user_data (mset (map cqe_user_data cs))"
    by (simp add: image_mset.compositionality comp_def)
  also have "\<dots> = image_mset entry_ident fin" unfolding fin(2) entry_ident_comp by (simp add: image_mset.compositionality)
  finally show "\<exists>fin. fin + pend (ring (snd (poll_completions (uring_io_ops b api) io))) = pend (ring io) \<and>
      mset (map ident_of_completion (fst (poll_completions (uring_io_ops b api) io))) = image_mset entry_ident fin"
    using c fin(1) by (intro exI [of _ fin]) (simp add: uring_io_ops_def uring_poll_completions_def)
qed (rule entry_ident_of)

subsection \<open>Properties\<close>

text \<open>
  Packing is a round trip: identifiers that fit the 24/20/20-bit layout are
  packed without a panic in either build profile, and unpacking the user data of the
  completion recovers the cell, the descriptor and the request exactly.
\<close>

theorem pack_unpack_roundtrip:
  assumes "unat cell < 2 ^ 24" and "unat fd < 2 ^ 20" and "unat req < 2 ^ 20"
  shows "\<exists>w. pack_user_data b cell fd req = Inr w \<and> unpack_user_data w = (cell, fd, req)"
  using assms by (simp add: pack_user_data_eq unpack_packed_in_layout)

theorem pack_unpack_roundtrip_witness:
  "\<exists>w. pack_user_data Debug 12345 99 555 = Inr w \<and> unpack_user_data w = (12345, 99, 555)"
  by (rule pack_unpack_roundtrip) simp_all

text \<open>
  Property C37. Outside the layout the profiles part: a debug build panics, and a release
  build yields user data that unpacks to other identifiers, the descriptor's bits above
  20 being merged into the cell number. So the completion reaches another request,
  possibly of another cell.
\<close>

theorem pack_out_of_layout:
  assumes "\<not> (unat cell < 2 ^ 24 \<and> unat fd < 2 ^ 20 \<and> unat req < 2 ^ 20)"
  shows "pack_user_data Debug cell fd req = Inl DebugAssertion \<and>
    (\<exists>w. pack_user_data Release cell fd req = Inr w \<and>
       unpack_user_data w = (take_bit 24 (cell OR drop_bit 20 (ucast fd)), take_bit 20 fd, take_bit 20 req) \<and>
       unpack_user_data w \<noteq> (cell, fd, req))"
proof -
  have small: "unat (take_bit n w) < 2 ^ n" for n and w :: "'l::len word"
    by (simp add: unsigned_take_bit_eq)
  have "unpack_user_data (packed cell fd req) \<noteq> (cell, fd, req)"
    using assms small [of 24 "cell OR drop_bit 20 (ucast fd)"] small [of 20 fd] small [of 20 req]
    by (auto simp: unpack_packed)
  then show ?thesis using assms by (auto simp: pack_user_data_eq unpack_packed)
qed

theorem pack_out_of_layout_witness:
  "pack_user_data Debug 2 1048576 7 = Inl DebugAssertion \<and>
   (\<exists>w. pack_user_data Release 2 1048576 7 = Inr w \<and> unpack_user_data w = (3, 0, 7))"
proof -
  have "take_bit 24 ((2 :: u64) OR drop_bit 20 (ucast (1048576 :: u32))) = 3" by code_simp
  moreover have "take_bit 20 (1048576 :: u32) = 0" "take_bit 20 (7 :: u64) = 7" by code_simp+
  ultimately show ?thesis using pack_out_of_layout [of 2 1048576 7] by auto
qed

text \<open>
  Property C40. What reaches the kernel is what was asked for, and what comes back answers it. Over any run
  of in-layout submissions and polls of a fresh ring no step panics; the entries ever in the ring, those
  finished and those in flight, include the entry of every accepted request and are, once each, entries
  of submitted requests, field by field: operation, host descriptor, buffer index, offset, length,
  a null address, and user data that unpacks to cell, guest descriptor and request; and the
  completions delivered are exactly those of the finished entries, so none is forged, duplicated
  or attributed to another request.
\<close>

theorem uring_requests_exact:
  assumes "ring_sound api pend" and "new_UringIoSubsystem api n = Inr io"
    and "\<forall>rq. Submit rq \<in> set ops \<longrightarrow> in_layout rq"
  shows "\<exists>acc rej ds io' fin. io_run (uring_io_ops b api) io ops = Inr (acc, rej, ds, io') \<and>
    mset acc + mset rej = mset (submissions ops) \<and>
    mset (map entry_of acc) \<subseteq># fin + pend (ring io') \<and>
    fin + pend (ring io') \<subseteq># mset (map entry_of (submissions ops)) \<and>
    mset (map ident_of_completion ds) = image_mset (unpack_user_data \<circ> sqe_user_data) fin \<and>
    (\<forall>rq. Submit rq \<in> set ops \<longrightarrow> unpack_user_data (sqe_user_data (entry_of rq)) = (rq_cell rq, rq_fd rq, rq_id rq))"
proof -
  have "pend (ring io) = {#}"
    using assms(1,2) by (auto simp: new_UringIoSubsystem_def ring_sound_def split: sum.splits)
  then obtain acc rej ds io' fin where run: "io_run (uring_io_ops b api) io ops = Inr (acc, rej, ds, io')"
      "mset (map ident_of_completion ds) = image_mset entry_ident fin"
      "image_mset entry_of (mset acc) \<subseteq># fin + pend (ring io')"
      "fin + pend (ring io') \<subseteq># image_mset entry_of (mset acc + mset rej)"
    using io_subsystem.conservation [OF uring_io_subsystem_law [OF assms(1)] assms(3), of b io] by (auto simp del: mset_map)
  note sub = io_run_submissions [OF run(1)]
  have "\<forall>rq. Submit rq \<in> set ops \<longrightarrow> unpack_user_data (sqe_user_data (entry_of rq)) = (rq_cell rq, rq_fd rq, rq_id rq)"
    using assms(3) entry_ident_of by (simp add: entry_ident_def ident_of_def)
  then show ?thesis
    using run sub unfolding entry_ident_comp
    by (intro exI [of _ acc] exI [of _ rej] exI [of _ ds] exI [of _ io'] exI [of _ fin]) simp
qed

text \<open>A kernel with a submission queue of two entries that completes in reverse order.\<close>

definition example_ring :: "sqe list uring_api" where
  "example_ring =
     \<lparr>io_uring_new = (\<lambda>n. Inr []), register_buffers = (\<lambda>q v. (Inr (), q)),
      sq_push = (\<lambda>q e. if length q < 2 then Some (e # q) else None), ring_submit = (\<lambda>q. (Inr (length q), q)),
      cq_drain = (\<lambda>q. (map (\<lambda>e. \<lparr>cqe_user_data = sqe_user_data e, cqe_result = sqe_len e\<rparr>) q, []))\<rparr>"

lemma example_ring_sound: "ring_sound example_ring mset"
  by (auto simp: ring_sound_def example_ring_def image_mset.compositionality comp_def split: if_splits)

theorem uring_requests_exact_witness:
  "let rq = (\<lambda>i. \<lparr>rq_op = ReadFixed, rq_cell = 1, rq_fd = 3, rq_host_fd = 9, rq_buffer = 0, rq_offset = 0,
                 rq_len = 4096, rq_id = i\<rparr>)
   in \<exists>acc rej ds io' fin.
     io_run (uring_io_ops Debug example_ring)
       \<lparr>ring = [], registered_buffer_lens = Map.empty\<rparr> [Submit (rq 1), Poll, Submit (rq 2), Submit (rq 3)]
       = Inr (acc, rej, ds, io') \<and>
     mset acc + mset rej = {#rq 1, rq 2, rq 3#} \<and> fin + mset (ring io') \<subseteq># {#entry_of (rq 1), entry_of (rq 2), entry_of (rq 3)#} \<and>
     mset (map ident_of_completion ds) = image_mset (unpack_user_data \<circ> sqe_user_data) fin"
proof -
  define rq :: "u64 \<Rightarrow> io_request" where "rq = (\<lambda>i. \<lparr>rq_op = ReadFixed, rq_cell = 1, rq_fd = 3, rq_host_fd = 9,
    rq_buffer = 0, rq_offset = 0, rq_len = 4096, rq_id = i\<rparr>)"
  let ?ops = "[Submit (rq 1), Poll, Submit (rq 2), Submit (rq 3)]"
  have new: "new_UringIoSubsystem example_ring 2 = Inr \<lparr>ring = [], registered_buffer_lens = Map.empty\<rparr>"
    by (simp add: new_UringIoSubsystem_def example_ring_def)
  have lay: "\<forall>r. Submit r \<in> set ?ops \<longrightarrow> in_layout r" by (auto simp: in_layout_def rq_def)
  from uring_requests_exact [OF example_ring_sound new lay, of Debug]
  have "\<exists>acc rej ds io' fin. io_run (uring_io_ops Debug example_ring)
       \<lparr>ring = [], registered_buffer_lens = Map.empty\<rparr> ?ops = Inr (acc, rej, ds, io') \<and>
     mset acc + mset rej = mset (submissions ?ops) \<and> fin + mset (ring io') \<subseteq># mset (map entry_of (submissions ?ops)) \<and>
     mset (map ident_of_completion ds) = image_mset (unpack_user_data \<circ> sqe_user_data) fin"
    by blast
  moreover have "mset (submissions ?ops) = {#rq 1, rq 2, rq 3#}"
      "mset (map entry_of (submissions ?ops)) = {#entry_of (rq 1), entry_of (rq 2), entry_of (rq 3)#}" by simp_all
  ultimately show ?thesis by (simp only: Let_def rq_def [symmetric])
qed

end
