(* ===== verification/Uring_Buffers.thy ===== *)
theory Uring_Buffers
  imports Uring
begin

section \<open>The fixed buffers of a ring (chronos-io/src/linux_ring.rs)\<close>

text \<open>
  What \<open>register_fixed_buffer\<close> makes of the kernel's buffer table. \<open>buffers_sound\<close> is the documented
  behaviour of \<open>IORING_REGISTER_BUFFERS\<close>: one call installs a whole table, a second
  call on a ring that has one fails (EBUSY) and changes nothing, and no other operation
  of the ring touches the table. The uses of a ring are an inductive relation that keeps the log of the
  registrations that succeeded, with the arguments of the caller.
\<close>

definition buffers_sound :: "'q uring_api \<Rightarrow> ('q \<Rightarrow> iovec list option) \<Rightarrow> bool" where
  "buffers_sound api table \<longleftrightarrow>
     (\<forall>n q. io_uring_new api n = Inr q \<longrightarrow> table q = None) \<and>
     (\<forall>q v. let (res, q') = register_buffers api q v in
        if table q \<noteq> None then isl res \<and> table q' = table q
        else table q' = (if isl res then None else Some v)) \<and>
     (\<forall>q e q'. sq_push api q e = Some q' \<longrightarrow> table q' = table q) \<and>
     (\<forall>q. table (snd (ring_submit api q)) = table q) \<and>
     (\<forall>q. table (snd (cq_drain api q)) = table q)"

inductive uring_uses ::
  "build \<Rightarrow> 'q uring_api \<Rightarrow> 'q uring_io_subsystem \<Rightarrow> (u16 \<times> byte_slice) list \<Rightarrow> 'q uring_io_subsystem \<Rightarrow> bool"
  for b api io0 where
  start: "uring_uses b api io0 [] io0"
| register: "uring_uses b api io0 regs io \<Longrightarrow> uring_register_fixed_buffer api io i buf = (Inr u, io') \<Longrightarrow>
    uring_uses b api io0 (regs @ [(i, buf)]) io'"
| refuse: "uring_uses b api io0 regs io \<Longrightarrow> uring_register_fixed_buffer api io i buf = (Inl e, io') \<Longrightarrow>
    uring_uses b api io0 regs io'"
| submit: "uring_uses b api io0 regs io \<Longrightarrow> submit_request (uring_io_ops b api) io rq = Inr (res, io') \<Longrightarrow>
    uring_uses b api io0 regs io'"
| poll: "uring_uses b api io0 regs io \<Longrightarrow> uring_poll_completions api io = (cs, io') \<Longrightarrow> uring_uses b api io0 regs io'"

text \<open>The kernel's table and the code's bookkeeping against the successful registrations: none, or one.\<close>

definition buffers_inv :: "('q \<Rightarrow> iovec list option) \<Rightarrow> (u16 \<times> byte_slice) list \<Rightarrow> 'q uring_io_subsystem \<Rightarrow> bool" where
  "buffers_inv table regs io \<longleftrightarrow>
     (case regs of
        [] \<Rightarrow> table (ring io) = None \<and> registered_buffer_lens io = Map.empty
      | (i, buf) # others \<Rightarrow> others = [] \<and> table (ring io) = Some [\<lparr>iov_base = slice_ptr buf, iov_len = slice_len buf\<rparr>] \<and>
          registered_buffer_lens io = [i \<mapsto> slice_len buf])"

lemma register_effect:
  assumes "buffers_sound api table" and "uring_register_fixed_buffer api io i buf = (res, io')"
  shows "if table (ring io) \<noteq> None
    then isl res \<and> table (ring io') = table (ring io) \<and> registered_buffer_lens io' = registered_buffer_lens io
    else if isl res then table (ring io') = None \<and> registered_buffer_lens io' = registered_buffer_lens io
    else table (ring io') = Some [\<lparr>iov_base = slice_ptr buf, iov_len = slice_len buf\<rparr>] \<and>
      registered_buffer_lens io' = (registered_buffer_lens io)(i \<mapsto> slice_len buf)"
proof -
  let ?v = "[\<lparr>iov_base = slice_ptr buf, iov_len = slice_len buf\<rparr>]"
  obtain r q where r: "register_buffers api (ring io) ?v = (r, q)" by fastforce
  have "let (res, q') = register_buffers api (ring io) ?v in
      if table (ring io) \<noteq> None then isl res \<and> table q' = table (ring io) else table q' = (if isl res then None else Some ?v)"
    using assms(1) unfolding buffers_sound_def by blast
  then show ?thesis
    using assms(2) r by (cases r) (auto simp: uring_register_fixed_buffer_def split: if_splits)
qed

lemma push_and_submit_table:
  assumes "buffers_sound api table" and "push_and_submit api io e = (res, io')"
  shows "table (ring io') = table (ring io) \<and> registered_buffer_lens io' = registered_buffer_lens io"
proof (cases "sq_push api (ring io) e")
  case None
  then show ?thesis using assms(2) by (auto simp: push_and_submit_def)
next
  case (Some q)
  obtain r q' where q': "ring_submit api q = (r, q')" by fastforce
  have "table q = table (ring io)" "table (snd (ring_submit api q)) = table q"
    using assms(1) Some unfolding buffers_sound_def by blast+
  then show ?thesis using assms(2) Some q' by (cases r) (auto simp: push_and_submit_def)
qed

lemma submit_table:
  assumes "buffers_sound api table" and "submit_request (uring_io_ops b api) io rq = Inr (res, io')"
  shows "table (ring io') = table (ring io) \<and> registered_buffer_lens io' = registered_buffer_lens io"
proof -
  obtain e where "push_and_submit api io e = (res, io')"
    using assms(2) by (cases "rq_op rq")
      (auto simp: submit_request_def uring_io_ops_def uring_submit_read_fixed_def uring_submit_write_fixed_def)
  then show ?thesis by (rule push_and_submit_table [OF assms(1)])
qed

lemma uring_uses_buffers:
  assumes "buffers_sound api table" and "uring_uses b api io0 regs io" and "buffers_inv table [] io0"
  shows "buffers_inv table regs io"
  using assms(2,3)
proof (induction rule: uring_uses.induct)
  case (register regs io i buf u io')
  then show ?case
    using register_effect [OF assms(1) register.hyps(2)]
    by (cases regs) (auto simp: buffers_inv_def split: if_splits)
next
  case (refuse regs io i buf e io')
  then show ?case
    using register_effect [OF assms(1) refuse.hyps(2)]
    by (cases regs) (auto simp: buffers_inv_def split: if_splits)
next
  case (submit regs io rq res io')
  then show ?case using submit_table [OF assms(1) submit.hyps(2)] by (simp only: buffers_inv_def)
next
  case (poll regs io cs io')
  obtain c q where d: "cq_drain api (ring io) = (c, q)" by fastforce
  have "table (snd (cq_drain api (ring io))) = table (ring io)" using assms(1) unfolding buffers_sound_def by blast
  then have "table (ring io') = table (ring io) \<and> registered_buffer_lens io' = registered_buffer_lens io"
    using poll.hyps(2) d by (auto simp: uring_poll_completions_def)
  then show ?case using poll by (simp only: buffers_inv_def)
qed

text \<open>
  Property C36. A ring takes one fixed buffer in its life. After any sequence of registrations, submissions
  and polls of a fresh ring at most one registration has succeeded. Before it, the kernel's table and
  the code's \<open>registered_buffer_lens\<close> are empty; after it, the kernel's table holds the address and length
  of that caller's buffer, as its only entry and so under index 0, while the code records the length
  under the index that caller named; and every further registration, of any index and any
  cell's buffer, fails and changes neither.
\<close>

theorem one_fixed_buffer:
  assumes "buffers_sound api table" and "new_UringIoSubsystem api n = Inr io0" and "uring_uses b api io0 regs io"
  shows "case regs of
      [] \<Rightarrow> table (ring io) = None \<and> registered_buffer_lens io = Map.empty
    | (i, buf) # others \<Rightarrow> others = [] \<and> table (ring io) = Some [\<lparr>iov_base = slice_ptr buf, iov_len = slice_len buf\<rparr>] \<and>
        registered_buffer_lens io = [i \<mapsto> slice_len buf] \<and>
        (\<forall>j buf'. \<exists>e io'. uring_register_fixed_buffer api io j buf' = (Inl (BufferRegistrationFailed e), io') \<and>
           table (ring io') = table (ring io) \<and> registered_buffer_lens io' = registered_buffer_lens io)"
proof -
  have "buffers_inv table [] io0"
    using assms(1,2) by (auto simp: new_UringIoSubsystem_def buffers_sound_def buffers_inv_def split: sum.splits)
  note inv = uring_uses_buffers [OF assms(1,3) this]
  have refused: "\<exists>e io'. uring_register_fixed_buffer api io j buf = (Inl (BufferRegistrationFailed e), io') \<and>
      table (ring io') = table (ring io) \<and> registered_buffer_lens io' = registered_buffer_lens io"
    if "table (ring io) \<noteq> None" for j buf
  proof -
    obtain res io' where r: "uring_register_fixed_buffer api io j buf = (res, io')" by fastforce
    with register_effect [OF assms(1) r] that have "isl res" "table (ring io') = table (ring io)"
      "registered_buffer_lens io' = registered_buffer_lens io" by simp_all
    moreover from r \<open>isl res\<close> obtain e where "res = Inl (BufferRegistrationFailed e)"
      by (auto simp: uring_register_fixed_buffer_def split: prod.splits sum.splits)
    ultimately show ?thesis using r by blast
  qed
  then show ?thesis using inv by (cases regs) (auto simp: buffers_inv_def)
qed

text \<open>A kernel that keeps a table; two cells ask for a buffer, each under its own index.\<close>

definition table_ring :: "iovec list option uring_api" where
  "table_ring =
     \<lparr>io_uring_new = (\<lambda>n. Inr None),
      register_buffers = (\<lambda>q v. case q of None \<Rightarrow> (Inr (), Some v) | Some _ \<Rightarrow> (Inl ''EBUSY'', q)),
      sq_push = (\<lambda>q e. Some q), ring_submit = (\<lambda>q. (Inr 1, q)), cq_drain = (\<lambda>q. ([], q))\<rparr>"

theorem one_fixed_buffer_witness:
  "\<exists>io0 io1 io2 e. new_UringIoSubsystem table_ring 8 = Inr io0 \<and>
     uring_register_fixed_buffer table_ring io0 7 \<lparr>slice_ptr = 65536, slice_len = 4096\<rparr> = (Inr (), io1) \<and>
     registered_buffer_lens io1 = [7 \<mapsto> 4096] \<and> ring io1 = Some [\<lparr>iov_base = 65536, iov_len = 4096\<rparr>] \<and>
     uring_register_fixed_buffer table_ring io1 8 \<lparr>slice_ptr = 131072, slice_len = 512\<rparr> = (Inl (BufferRegistrationFailed e), io2) \<and>
     registered_buffer_lens io2 = [7 \<mapsto> 4096]"
proof -
  have sound: "buffers_sound table_ring id" by (auto simp: buffers_sound_def table_ring_def split: option.splits)
  let ?io0 = "\<lparr>ring = None, registered_buffer_lens = Map.empty\<rparr>"
  let ?io1 = "\<lparr>ring = Some [\<lparr>iov_base = 65536, iov_len = 4096\<rparr>], registered_buffer_lens = [7 \<mapsto> 4096]\<rparr>"
  have new: "new_UringIoSubsystem table_ring 8 = Inr ?io0" by (simp add: new_UringIoSubsystem_def table_ring_def)
  have reg: "uring_register_fixed_buffer table_ring ?io0 7 \<lparr>slice_ptr = 65536, slice_len = 4096\<rparr> = (Inr (), ?io1)"
    by (simp add: uring_register_fixed_buffer_def table_ring_def)
  then have "uring_uses Debug table_ring ?io0 ([] @ [(7, \<lparr>slice_ptr = 65536, slice_len = 4096\<rparr>)]) ?io1"
    by (intro uring_uses.register [OF uring_uses.start])
  from one_fixed_buffer [OF sound new this] new reg show ?thesis by fastforce
qed

end
