(* ===== verification/Delta_Size.thy ===== *)
theory Delta_Size
  imports Delta
begin

section \<open>How large a delta gets (chronos-mem/src/delta.rs)\<close>

text \<open>
  The choice \<open>diff_and_commit\<close> makes between the two encodings, in terms of the bytes that
  changed: the run-length form costs at most nine bytes per changed byte and eight more,
  and it is never chosen when every nine consecutive bytes contain a change. On the
  receiving side, whatever runs a delta carries, decoding yields exactly one page.
\<close>

subsection \<open>Where the loops of the encoder stop\<close>

lemma skip_zeros_stop: "skip_zeros buf i < PAGE_SIZE \<Longrightarrow> buf ! skip_zeros buf i \<noteq> 0"
  by (induction buf i rule: skip_zeros.induct) (metis skip_zeros.simps)

lemma skip_literal_stop: "skip_literal buf i < PAGE_SIZE \<Longrightarrow> buf ! skip_literal buf i = 0"
  by (induction buf i rule: skip_literal.induct) (metis skip_literal.simps)

lemma skip_literal_nonzero: "i \<le> n \<Longrightarrow> n < skip_literal buf i \<Longrightarrow> buf ! n \<noteq> 0"
proof (induction buf i rule: skip_literal.induct)
  case (1 buf i)
  then show ?case
    using skip_literal.simps [of buf i]
    by (cases "i < PAGE_SIZE \<and> buf ! i \<noteq> 0"; cases "i = n") auto
qed

subsection \<open>The size of the runs\<close>

definition rle_size :: "run_literal list \<Rightarrow> nat" where
  "rle_size runs = sum_list (map (\<lambda>r. 8 + length (literal r)) runs)"

definition nonzero_from :: "u8 list \<Rightarrow> nat \<Rightarrow> nat" where
  "nonzero_from buf i = card {n \<in> {i..<PAGE_SIZE}. buf ! n \<noteq> 0}"

text \<open>One iteration of the outer loop: what it appends, and how far it gets.\<close>

lemma rle_loop_step:
  assumes "length buf = PAGE_SIZE" and "i < PAGE_SIZE"
  obtains j k r where "i \<le> j" "j \<le> k" "i < k" "k \<le> PAGE_SIZE" "j < k \<or> k = PAGE_SIZE"
    and "\<forall>n \<in> {i..<j}. buf ! n = 0" "\<forall>n \<in> {j..<k}. buf ! n \<noteq> 0"
    and "length (literal r) = k - j" "rle_loop buf i runs = rle_loop buf k (runs @ [r])"
    and "unat (zero_run r) = j - i"
proof -
  let ?j = "skip_zeros buf i"
  let ?k = "skip_literal buf ?j"
  let ?r = "\<lparr>zero_run = of_nat (?j - i), literal = take (?k - ?j) (drop ?j buf)\<rparr>"
  have le: "i \<le> ?j" "?j \<le> ?k" "i < ?k" "?k \<le> PAGE_SIZE"
    using assms(2) by (simp_all add: skip_progress skip_literal_ge skip_zeros_ge skip_literal_bound skip_zeros_bound)
  have stop: "?j < ?k \<or> ?k = PAGE_SIZE"
  proof (rule ccontr)
    assume "\<not> (?j < ?k \<or> ?k = PAGE_SIZE)"
    then have "?k = ?j" "?j < PAGE_SIZE" using le by auto
    then show False using skip_zeros_stop [of buf i] skip_literal_stop [of buf ?j] by simp
  qed
  have "length (literal ?r) = ?k - ?j" using le assms(1) by simp
  moreover have "0 < ?j - i \<or> literal ?r \<noteq> []" using le assms(1) by auto
  then have "rle_loop buf i runs = rle_loop buf ?k (runs @ [?r])"
    using assms(2) by (simp add: rle_loop.simps [of buf i] Let_def)
  moreover have "unat (zero_run ?r) = ?j - i"
    using le unfolding run_literal.simps unat_of_nat by (simp add: PAGE_SIZE_def)
  ultimately show thesis
    using that [OF le stop] skip_zeros_zero skip_literal_nonzero by (meson atLeastLessThan_iff)
qed

lemma rle_size_snoc: "rle_size (runs @ [r]) = rle_size runs + 8 + length (literal r)"
  by (simp add: rle_size_def)

lemma nonzero_from_step:
  assumes "i \<le> j" and "j \<le> k" and "k \<le> PAGE_SIZE"
    and "\<forall>n \<in> {i..<j}. buf ! n = 0" and "\<forall>n \<in> {j..<k}. buf ! n \<noteq> 0"
  shows "nonzero_from buf i = (k - j) + nonzero_from buf k"
proof -
  have "{n \<in> {i..<PAGE_SIZE}. buf ! n \<noteq> 0} = {j..<k} \<union> {n \<in> {k..<PAGE_SIZE}. buf ! n \<noteq> 0}"
    using assms by (auto simp: not_less)
  moreover have "{j..<k} \<inter> {n \<in> {k..<PAGE_SIZE}. buf ! n \<noteq> 0} = {}" by auto
  ultimately show ?thesis by (simp add: nonzero_from_def card_Un_disjoint)
qed

lemma rle_size_upper:
  assumes "length buf = PAGE_SIZE" and "i \<le> PAGE_SIZE"
  shows "rle_size (rle_loop buf i runs) \<le> rle_size runs + 9 * nonzero_from buf i + 8"
  using assms(2)
proof (induction "PAGE_SIZE - i" arbitrary: i runs rule: less_induct)
  case less
  show ?case
  proof (cases "i < PAGE_SIZE")
    case True
    obtain j k r where s: "i \<le> j" "j \<le> k" "i < k" "k \<le> PAGE_SIZE" "j < k \<or> k = PAGE_SIZE"
        "\<forall>n \<in> {i..<j}. buf ! n = 0" "\<forall>n \<in> {j..<k}. buf ! n \<noteq> 0"
        "length (literal r) = k - j" "rle_loop buf i runs = rle_loop buf k (runs @ [r])"
      by (rule rle_loop_step [OF assms(1) True])
    note nz = nonzero_from_step [OF s(1,2,4,6,7)]
    show ?thesis
    proof (cases "k = PAGE_SIZE")
      case True
      then have "rle_loop buf i runs = runs @ [r]" using s(9) rle_loop.simps [of buf k] by simp
      then show ?thesis using nz s(8) by (simp add: rle_size_snoc)
    next
      case False
      then have "1 \<le> k - j" using s(5) by simp
      moreover have "rle_size (rle_loop buf k (runs @ [r])) \<le> rle_size (runs @ [r]) + 9 * nonzero_from buf k + 8"
        using s(3,4) by (intro less.hyps) auto
      ultimately show ?thesis using s(8,9) nz by (simp add: rle_size_snoc)
    qed
  next
    case False
    then show ?thesis by (simp add: rle_loop.simps [of buf i])
  qed
qed

lemma rle_size_lower:
  assumes "length buf = PAGE_SIZE" and "i \<le> PAGE_SIZE"
    and "\<forall>a. a + 8 < PAGE_SIZE \<longrightarrow> (\<exists>n \<in> {a..a + 8}. buf ! n \<noteq> 0)"
  shows "rle_size runs + (PAGE_SIZE - i) \<le> rle_size (rle_loop buf i runs)"
  using assms(2)
proof (induction "PAGE_SIZE - i" arbitrary: i runs rule: less_induct)
  case less
  show ?case
  proof (cases "i < PAGE_SIZE")
    case True
    obtain j k r where s: "i \<le> j" "j \<le> k" "i < k" "k \<le> PAGE_SIZE" "j < k \<or> k = PAGE_SIZE"
        "\<forall>n \<in> {i..<j}. buf ! n = 0" "\<forall>n \<in> {j..<k}. buf ! n \<noteq> 0"
        "length (literal r) = k - j" "rle_loop buf i runs = rle_loop buf k (runs @ [r])"
      by (rule rle_loop_step [OF assms(1) True])
    have "j \<le> i + 8"
    proof (rule ccontr)
      assume "\<not> j \<le> i + 8"
      then have "i + 8 < PAGE_SIZE" "{i..i + 8} \<subseteq> {i..<j}" using s(2,4) by auto
      with assms(3) s(6) show False by blast
    qed
    moreover have "rle_size (runs @ [r]) + (PAGE_SIZE - k) \<le> rle_size (rle_loop buf k (runs @ [r]))"
      using s(3,4) True by (intro less.hyps) auto
    ultimately show ?thesis using s by (simp add: rle_size_snoc)
  next
    case False
    then show ?thesis by (simp add: rle_loop.simps [of buf i])
  qed
qed

subsection \<open>The choice of the encoding\<close>

lemma xor_eq_zero_iff: "(x :: u8) XOR y = 0 \<longleftrightarrow> x = y"
proof
  assume "x XOR y = 0"
  then have "x XOR (x XOR y) = x" by simp
  then show "x = y" by (simp flip: xor.assoc)
qed simp

definition changed_bytes :: "u8 list \<Rightarrow> u8 list \<Rightarrow> nat" where
  "changed_bytes prev cur = length (filter (\<lambda>n. prev ! n \<noteq> cur ! n) [0..<PAGE_SIZE])"

lemma nonzero_xor_page: "nonzero_from (xor_page prev cur) 0 = changed_bytes prev cur"
proof -
  have "{n \<in> {0..<PAGE_SIZE}. xor_page prev cur ! n \<noteq> 0} = set (filter (\<lambda>n. prev ! n \<noteq> cur ! n) [0..<PAGE_SIZE])"
    by (auto simp: xor_page_def xor_eq_zero_iff)
  then show ?thesis
    unfolding nonzero_from_def changed_bytes_def by (simp only: distinct_card distinct_filter distinct_upt)
qed

lemma diff_and_commit_known:
  assumes "engine_inv e" and "trackable p" and "length c = PAGE_SIZE" and "engine_map e (unat p) = Some prev"
  obtains e' where "engine_inv e'" and "engine_map e' = (engine_map e)(unat p \<mapsto> c)"
    and "diff_and_commit b e p c =
      Inr (let runs = rle_encode (xor_page prev c) in if rle_size runs < PAGE_SIZE then Xor p runs else Raw p c, e')"
proof -
  have p: "unat p < length (baseline e)" "have_baseline e ! unat p" "baseline e ! unat p = prev"
    using assms(4) by (auto simp: engine_map_def split: if_splits)
  then have len: "unat p < length (have_baseline e)" using assms(1) by (simp add: engine_inv_def)
  have "ensure_capacity b e p = Inr e" using p(1) by (simp add: ensure_capacity_def)
  then have eq: "diff_and_commit b e p c =
      Inr (let runs = rle_encode (xor_page prev c) in if rle_size runs < PAGE_SIZE then Xor p runs else Raw p c,
           e\<lparr>baseline := (baseline e)[unat p := c]\<rparr>)"
    using assms(3) p len by (simp add: diff_and_commit_def Let_def rle_size_def)
  have same: "(have_baseline e)[unat p := True] = have_baseline e" using p(2) by (metis list_update_id)
  show thesis
    by (rule that [OF _ _ eq]) (use engine_commit [OF assms(1) p(1) assms(3)] same in simp_all)
qed

subsection \<open>Properties\<close>

text \<open>
  Property C31. The size of a delta follows the number of changed bytes: a page of which the
  engine has a baseline is diffed without a panic to a delta of at most nine bytes per
  changed byte plus eight, and of at most a page. If that bound is below a page, the
  delta is the run-length form; if every nine consecutive bytes contain a change, the
  run-length form would not be smaller and the whole page is carried.
\<close>

theorem delta_encoding_choice:
  assumes "engine_inv e" and "trackable p" and "length c = PAGE_SIZE" and "engine_map e (unat p) = Some prev"
  shows "\<exists>d e'. diff_and_commit b e p c = Inr (d, e') \<and>
    encoded_len d \<le> min PAGE_SIZE (9 * changed_bytes prev c + 8) \<and>
    (9 * changed_bytes prev c + 8 < PAGE_SIZE \<longrightarrow> d = Xor p (rle_encode (xor_page prev c))) \<and>
    ((\<forall>a. a + 8 < PAGE_SIZE \<longrightarrow> (\<exists>n\<in>{a..a + 8}. prev ! n \<noteq> c ! n)) \<longrightarrow> d = Raw p c)"
proof -
  let ?x = "xor_page prev c"
  let ?runs = "rle_encode ?x"
  let ?d = "if rle_size ?runs < PAGE_SIZE then Xor p ?runs else Raw p c"
  obtain e' where eq: "diff_and_commit b e p c = Inr (?d, e')"
    by (rule diff_and_commit_known [OF assms, of b]) (simp add: Let_def)
  have upper: "rle_size ?runs \<le> 9 * changed_bytes prev c + 8"
    using rle_size_upper [of ?x 0 "[]"] by (simp add: rle_encode_def nonzero_xor_page rle_size_def)
  have lower: "(\<forall>a. a + 8 < PAGE_SIZE \<longrightarrow> (\<exists>n\<in>{a..a + 8}. prev ! n \<noteq> c ! n)) \<longrightarrow> \<not> rle_size ?runs < PAGE_SIZE"
  proof
    assume *: "\<forall>a. a + 8 < PAGE_SIZE \<longrightarrow> (\<exists>n\<in>{a..a + 8}. prev ! n \<noteq> c ! n)"
    have "\<forall>a. a + 8 < PAGE_SIZE \<longrightarrow> (\<exists>n\<in>{a..a + 8}. ?x ! n \<noteq> 0)"
      using * by (fastforce simp: xor_page_def xor_eq_zero_iff)
    from rle_size_lower [OF length_xor_page _ this, of 0 "[]"] show "\<not> rle_size ?runs < PAGE_SIZE"
      by (simp add: rle_encode_def rle_size_def)
  qed
  have "encoded_len ?d \<le> min PAGE_SIZE (9 * changed_bytes prev c + 8)"
    using upper by (auto simp: encoded_len_def rle_size_def)
  then show ?thesis using eq upper lower by (intro exI [of _ ?d] exI [of _ e'] conjI) simp_all
qed

theorem delta_encoding_choice_witness:
  "\<exists>e d e'. diff_and_commit Debug e 2 (zero_page[10 := 43, 2000 := 99]) = Inr (d, e') \<and>
     encoded_len d \<le> 26 \<and> d = Xor 2 (rle_encode (xor_page zero_page (zero_page[10 := 43, 2000 := 99])))"
proof -
  let ?c = "zero_page[10 := 43, 2000 := 99 :: u8]"
  obtain e0 where e0: "new_DeltaEngine 4 = Inr e0" "engine_inv e0" "engine_map e0 = Map.empty"
    using new_DeltaEngine_ok [of 4] by (auto simp: isize_max_def PAGE_SIZE_def)
  have t: "trackable 2" by (simp add: trackable_def isize_max_def PAGE_SIZE_def)
  obtain d0 e where e: "engine_inv e" "engine_map e = (engine_map e0)(unat (2 :: u64) \<mapsto> zero_page)"
    using diff_and_commit_ok [OF e0(2) t length_zero_page, of Debug] by blast
  have len: "10 < PAGE_SIZE" "2000 < PAGE_SIZE" by (simp_all add: PAGE_SIZE_def)
  have "?c ! n = (if n = 2000 then 99 else if n = 10 then 43 else 0)" "zero_page ! n = 0" if "n < PAGE_SIZE" for n
    using that len by (simp_all add: zero_page_def nth_list_update)
  then have "set (filter (\<lambda>n. zero_page ! n \<noteq> ?c ! n) [0..<PAGE_SIZE]) = {10, 2000}"
    using len by (auto split: if_splits)
  then have "card (set (filter (\<lambda>n. zero_page ! n \<noteq> ?c ! n) [0..<PAGE_SIZE])) = 2" by (simp only:) simp
  then have changed: "changed_bytes zero_page ?c = 2"
    unfolding changed_bytes_def by (simp only: distinct_card distinct_filter distinct_upt)
  from delta_encoding_choice [OF e(1) t, of ?c zero_page Debug] e(2)
  obtain d e' where "diff_and_commit Debug e 2 ?c = Inr (d, e')" "encoded_len d \<le> min PAGE_SIZE 26"
      "26 < PAGE_SIZE \<longrightarrow> d = Xor 2 (rle_encode (xor_page zero_page ?c))"
    by (auto simp: changed)
  then show ?thesis by (auto simp: PAGE_SIZE_def)
qed

text \<open>
  Property C32. What the standby's \<open>apply\<close> makes of an arbitrary delta: whatever runs
  it carries (also runs that overshoot the page or leave it unfinished), applying it
  for a page index that fits the address space panics nowhere, no slice of the decoder being out of range;
  a run-length delta yields the baseline (zeros without one) with the first page of the byte stream
  the runs stand for XORed onto it, a raw one its bytes; the result is one page and the new baseline,
  and every baseline stays one page. A raw delta has a page of bytes by its type.
\<close>

theorem apply_any_delta:
  assumes "engine_inv e" and "trackable (page_idx d)" and "\<forall>p bytes. d = Raw p bytes \<longrightarrow> length bytes = PAGE_SIZE"
  shows "\<exists>out e'. apply_delta b e d = Inr (out, e') \<and> length out = PAGE_SIZE \<and> engine_inv e' \<and>
    (case d of
       Raw p bytes \<Rightarrow> out = bytes
     | Xor p runs \<Rightarrow> out = xor_page (case engine_map e (unat p) of Some prev \<Rightarrow> prev | None \<Rightarrow> zero_page)
         (take PAGE_SIZE (run_stream runs @ replicate PAGE_SIZE 0))) \<and>
    engine_map e' = (engine_map e)(unat (page_idx d) \<mapsto> out)"
proof -
  let ?p = "unat (page_idx d)"
  obtain e1 where e1: "ensure_capacity b e (page_idx d) = Inr e1" "engine_inv e1" "engine_map e1 = engine_map e"
      "?p < length (baseline e1)"
    using ensure_capacity_ok [OF assms(1,2)] by blast
  then have len: "?p < length (have_baseline e1)" by (simp add: engine_inv_def)
  have prev: "(case engine_map e ?p of Some prev \<Rightarrow> prev | None \<Rightarrow> zero_page) =
      (if have_baseline e1 ! ?p then baseline e1 ! ?p else zero_page)"
    using e1(4) unfolding e1(3) [symmetric] by (simp add: engine_map_def)
  define out where "out = (case d of Raw _ bytes \<Rightarrow> bytes | Xor p runs \<Rightarrow>
      xor_page (if have_baseline e1 ! ?p then baseline e1 ! ?p else zero_page)
        (take PAGE_SIZE (run_stream runs @ replicate PAGE_SIZE 0)))"
  have "apply_delta b e d = Inr (out,
      e1\<lparr>baseline := (baseline e1)[?p := out], have_baseline := (have_baseline e1)[?p := True]\<rparr>)"
    using e1(1,4) len by (cases d) (simp_all add: apply_delta_def out_def rle_decode_eq Let_def)
  moreover have "length out = PAGE_SIZE" using assms(3) by (auto simp: out_def split: page_delta.split)
  ultimately show ?thesis
    using engine_commit [OF e1(2,4), of out] e1(3) prev by (cases d) (auto simp: out_def)
qed

theorem apply_any_delta_witness:
  "\<exists>e out e'. new_DeltaEngine 0 = Inr e \<and>
     apply_delta Debug e (Xor 3 [\<lparr>zero_run = 5000, literal = [1, 2]\<rparr>, \<lparr>zero_run = 0, literal = replicate 9000 7\<rparr>]) = Inr (out, e') \<and>
     length out = PAGE_SIZE"
proof -
  let ?d = "Xor 3 [\<lparr>zero_run = 5000, literal = [1, 2]\<rparr>, \<lparr>zero_run = 0, literal = replicate 9000 7\<rparr>]"
  obtain e where e: "new_DeltaEngine 0 = Inr e" "engine_inv e" using new_DeltaEngine_ok [of 0] by auto
  have "trackable (page_idx ?d)" by (simp add: trackable_def isize_max_def PAGE_SIZE_def)
  from apply_any_delta [OF e(2) this, of Debug] e(1) show ?thesis by auto
qed

end
