(* ===== verification/Mem_Tests.thy ===== *)
theory Mem_Tests
  imports Delta_Size Checkpoint_Chain
begin

section \<open>The unit tests of chronos-mem\<close>

text \<open>
  The test functions of dirty.rs, delta.rs and smt.rs, translated like the code they test:
  a test is a run that ends in \<open>Inr ()\<close> or in the panic of an assertion or an \<open>unwrap\<close>. Each is
  proved to pass in the model, for both build profiles. The tests of smt.rs compare hashes,
  so they pass under named assumptions on the hash function: digests of 32 bytes and no
  collision among the messages the test hashes.
\<close>

subsection \<open>Tests of dirty.rs\<close>

definition mark_and_iterate :: "build \<Rightarrow> unit run" where
  "mark_and_iterate b =
     and_then (new_DirtyPageSet b 200) (\<lambda>d.
     and_then (mark b d 0) (\<lambda>d.
     and_then (mark b d 63) (\<lambda>d.
     and_then (mark b d 64) (\<lambda>d.
     and_then (mark b d 199) (\<lambda>d.
     and_then (assert_that (len_DirtyPageSet d = 4)) (\<lambda>_.
       let collected = iter_dirty d in assert_that (collected = [0, 63, 64, 199])))))))"

definition double_mark_is_idempotent :: "build \<Rightarrow> unit run" where
  "double_mark_is_idempotent b =
     and_then (new_DirtyPageSet b 10) (\<lambda>d.
     and_then (mark b d 3) (\<lambda>d.
     and_then (mark b d 3) (\<lambda>d.
       assert_that (len_DirtyPageSet d = 1))))"

definition clear_resets_state :: "build \<Rightarrow> unit run" where
  "clear_resets_state b =
     and_then (new_DirtyPageSet b 10) (\<lambda>d.
     and_then (mark b d 1) (\<lambda>d.
     and_then (mark b d 5) (\<lambda>d.
       let d = clear_all d in
       and_then (assert_that (is_empty_DirtyPageSet d)) (\<lambda>_.
         assert_that (\<not> is_dirty d 1)))))"

subsection \<open>Tests of delta.rs\<close>

text \<open>The value of \<open>matches!\<close> in the first test is not asserted, so the test checks only that nothing panics.\<close>

definition first_touch_is_raw :: "build \<Rightarrow> unit run" where
  "first_touch_is_raw b =
     and_then (new_DeltaEngine 4) (\<lambda>eng.
       let page = replicate PAGE_SIZE 7 in
       and_then (diff_and_commit b eng 0 page) (\<lambda>(d, eng).
         let unused = (case d of Raw _ _ \<Rightarrow> True | _ \<Rightarrow> False) in Inr ()))"

definition sparse_mutation_roundtrips :: "build \<Rightarrow> unit run" where
  "sparse_mutation_roundtrips b =
     and_then (new_DeltaEngine 4) (\<lambda>primary.
     and_then (new_DeltaEngine 4) (\<lambda>standby.
       let page_a = (replicate PAGE_SIZE 0)[10 := 42] in
       and_then (diff_and_commit b primary 0 page_a) (\<lambda>(d1, primary).
       and_then (apply_delta b standby d1) (\<lambda>(applied1, standby).
       and_then (assert_that (applied1 = page_a)) (\<lambda>_.
         let page_b = page_a[10 := 43, 2000 := 99] in
         and_then (diff_and_commit b primary 0 page_b) (\<lambda>(d2, primary).
         and_then (assert_that (encoded_len d2 < PAGE_SIZE)) (\<lambda>_.
         and_then (apply_delta b standby d2) (\<lambda>(applied2, standby).
           assert_that (applied2 = page_b)))))))))"

definition dense_page :: "u8 list" where
  "dense_page = map (\<lambda>i. of_nat (i * 131 + 7)) [0..<PAGE_SIZE]"

definition dense_mutation_falls_back_to_raw :: "build \<Rightarrow> unit run" where
  "dense_mutation_falls_back_to_raw b =
     and_then (new_DeltaEngine 4) (\<lambda>primary.
     and_then (new_DeltaEngine 4) (\<lambda>standby.
       let page_a = replicate PAGE_SIZE 0 in
       and_then (diff_and_commit b primary 0 page_a) (\<lambda>(d1, primary).
       and_then (apply_delta b standby d1) (\<lambda>(_, standby).
         let page_b = dense_page in
         and_then (diff_and_commit b primary 0 page_b) (\<lambda>(d2, primary).
         and_then (apply_delta b standby d2) (\<lambda>(applied2, standby).
           assert_that (applied2 = page_b)))))))"

subsection \<open>Tests of smt.rs\<close>

text \<open>Every tree has its own hash maps, with an iteration order of its own.\<close>

definition empty_tree_root_is_stable ::
  "(u64 \<times> digest) iter_order \<Rightarrow> (u64 \<times> digest) iter_order \<Rightarrow> hash_fn \<Rightarrow> unit run" where
  "empty_tree_root_is_stable ord1 ord2 H =
     (let t1 = new_SparseMerkleTree H; t2 = new_SparseMerkleTree H
      in assert_that (root ord1 H t1 = root ord2 H t2))"

definition touching_a_leaf_changes_the_root :: "(u64 \<times> digest) iter_order \<Rightarrow> hash_fn \<Rightarrow> unit run" where
  "touching_a_leaf_changes_the_root ord H =
     (let t = new_SparseMerkleTree H;
          empty_root = root ord H t;
          t = update_leaf H t 1234 (replicate PAGE_SIZE 9);
          touched_root = root ord H t
      in assert_that (empty_root \<noteq> touched_root))"

definition same_touched_pages_same_root_across_instances ::
  "(u64 \<times> digest) iter_order \<Rightarrow> (u64 \<times> digest) iter_order \<Rightarrow> hash_fn \<Rightarrow> unit run" where
  "same_touched_pages_same_root_across_instances ord1 ord2 H =
     (let (t1, t2) = foldl (\<lambda>(t1, t2) (idx, byte).
            (update_leaf H t1 idx (replicate PAGE_SIZE byte), update_leaf H t2 idx (replicate PAGE_SIZE byte)))
            (new_SparseMerkleTree H, new_SparseMerkleTree H) [(0, 1), (5, 2), (1000000, 3)]
      in assert_that (root ord1 H t1 = root ord2 H t2))"

definition checkpoint_chain_is_tamper_evident :: "(u64 \<times> digest) iter_order \<Rightarrow> hash_fn \<Rightarrow> unit run" where
  "checkpoint_chain_is_tamper_evident ord H =
     (let reg_digest = H (map of_char ''pc=0,sp=0'');
          tree = update_leaf H (new_SparseMerkleTree H) 0 (replicate PAGE_SIZE 1);
          root1 = root ord H tree;
          claims_honest = [(1, root1, reg_digest)]
      in and_then (unwrap (verify_chain H claims_honest)) (\<lambda>honest_hash.
           let tampered_digest = H (map of_char ''pc=0,sp=1'');
               claims_tampered = [(1, root1, tampered_digest)]
           in and_then (unwrap (verify_chain H claims_tampered)) (\<lambda>tampered_hash.
                assert_that (honest_hash \<noteq> tampered_hash))))"

subsection \<open>They pass: dirty.rs\<close>

text \<open>A set that \<open>ps\<close> were marked in, as the tests build it.\<close>

lemma marked:
  assumes "unat cap + 63 < 2 ^ 64" and "\<forall>p\<in>set ps. p < cap"
  obtains d where "and_then (new_DirtyPageSet b cap) (\<lambda>d. fold_run (mark b) d ps) = Inr d"
    and "dps_inv d" and "pages d = set ps"
proof -
  obtain d where d: "new_DirtyPageSet b cap = Inr d" "dps_inv d" "capacity_pages d = cap" "pages d = {}"
    using new_DirtyPageSet_inv [OF assms(1)] by blast
  then obtain d' where "fold_run (mark b) d ps = Inr d'" "dps_inv d'" "pages d' = set ps"
    using dirty.mk_all [of d ps b] assms(2) by auto
  then show thesis using that d by simp
qed

theorem mark_and_iterate_passes [unit_tests]: "mark_and_iterate b = Inr ()"
proof -
  obtain d where d: "and_then (new_DirtyPageSet b 200) (\<lambda>d. fold_run (mark b) d [0, 63, 64, 199]) = Inr d"
      "dps_inv d" "pages d = set [0, 63, 64, 199]"
    by (rule marked [of 200 "[0, 63, 64, 199]" b]) simp_all
  have "unat (dirty_count d) = 4" using dirty_count_card [OF d(2)] d(3) by simp
  then have "dirty_count d = 4" by (simp add: word_unat_eq_iff)
  moreover have "iter_dirty d = sorted_list_of_set (set [0, 63, 64, 199])" using iter_dirty_eq_sorted [OF d(2)] d(3) by simp
  moreover have "sorted_list_of_set (set [0, 63, 64, 199 :: u64]) = [0, 63, 64, 199]"
    by (rule sorted_list_of_set.idem_if_sorted_distinct) simp_all
  ultimately show ?thesis using d(1)
    by (auto simp: mark_and_iterate_def len_DirtyPageSet_def)
qed

theorem double_mark_is_idempotent_passes [unit_tests]: "double_mark_is_idempotent b = Inr ()"
proof -
  obtain d where d: "and_then (new_DirtyPageSet b 10) (\<lambda>d. fold_run (mark b) d [3, 3]) = Inr d"
      "dps_inv d" "pages d = set [3, 3]"
    by (rule marked [of 10 "[3, 3]" b]) simp_all
  have "unat (dirty_count d) = 1" using dirty_count_card [OF d(2)] d(3) by simp
  then have "dirty_count d = 1" by (simp add: word_unat_eq_iff)
  then show ?thesis using d(1) by (auto simp: double_mark_is_idempotent_def len_DirtyPageSet_def)
qed

theorem clear_resets_state_passes [unit_tests]: "clear_resets_state b = Inr ()"
proof -
  obtain d where d: "and_then (new_DirtyPageSet b 10) (\<lambda>d. fold_run (mark b) d [1, 5]) = Inr d" "dps_inv d"
    by (rule marked [of 10 "[1, 5]" b]) simp_all
  have "\<not> is_dirty (clear_all d) 1" using clear_all_inv [OF d(2)] by (auto simp: pages_def)
  then show ?thesis using d(1)
    by (auto simp: clear_resets_state_def is_empty_DirtyPageSet_def clear_all_def)
qed

subsection \<open>They pass: delta.rs\<close>

text \<open>Two fresh engines; the first page goes through both.\<close>

lemma fresh_engines:
  assumes "length c = PAGE_SIZE"
  obtains e e' s' where "new_DeltaEngine 4 = Inr e" and "diff_and_commit b e 0 c = Inr (Raw 0 c, e')"
    and "apply_delta b e (Raw 0 c) = Inr (c, s')" and "engine_inv e'" and "engine_inv s'"
    and "engine_map e' = [0 \<mapsto> c]" and "engine_map s' = [0 \<mapsto> c]"
proof -
  obtain e where e: "new_DeltaEngine 4 = Inr e" "engine_inv e" "engine_map e = Map.empty"
    using new_DeltaEngine_ok [of 4] by (auto simp: isize_max_def PAGE_SIZE_def)
  have t: "trackable 0" by (simp add: trackable_def isize_max_def PAGE_SIZE_def)
  obtain e' where "diff_and_commit b e 0 c = Inr (Raw 0 c, e')" "engine_inv e'" "engine_map e' = [0 \<mapsto> c]"
    using diff_and_commit_ok [OF e(2) t assms, of b] e(3) by auto
  moreover obtain s' where "apply_delta b e (Raw 0 c) = Inr (c, s')" "engine_inv s'" "engine_map s' = [0 \<mapsto> c]"
    using apply_delta_ok [OF e(2) t assms, of "Raw 0 c" b] e(3) by auto
  ultimately show thesis using that e(1) by blast
qed

lemma second_page:
  assumes "engine_inv e" and "engine_inv s" and "engine_map e = [0 \<mapsto> a]" and "engine_map s = [0 \<mapsto> a]"
    and "length c = PAGE_SIZE"
  obtains d e' s' where "diff_and_commit b e 0 c = Inr (d, e')" and "apply_delta b s d = Inr (c, s')"
    and "d = (let runs = rle_encode (xor_page a c) in if rle_size runs < PAGE_SIZE then Xor 0 runs else Raw 0 c)"
proof -
  have t: "trackable 0" by (simp add: trackable_def isize_max_def PAGE_SIZE_def)
  obtain d e' s' where "diff_and_commit b e 0 c = Inr (d, e')" "apply_delta b s d = Inr (c, s')"
    using ship_page [OF assms(1,2) _ t assms(5), of b b] assms(3,4) by auto
  moreover obtain e'' where "diff_and_commit b e 0 c =
      Inr (let runs = rle_encode (xor_page a c) in if rle_size runs < PAGE_SIZE then Xor 0 runs else Raw 0 c, e'')"
    by (rule diff_and_commit_known [OF assms(1) t assms(5), of a b]) (use assms(3) in simp)
  ultimately show thesis using that by auto
qed

theorem first_touch_is_raw_passes [unit_tests]: "first_touch_is_raw b = Inr ()"
proof -
  obtain e e' where "new_DeltaEngine 4 = Inr e"
      "diff_and_commit b e 0 (replicate PAGE_SIZE 7) = Inr (Raw 0 (replicate PAGE_SIZE 7), e')"
    by (rule fresh_engines [of "replicate PAGE_SIZE 7" b]) simp_all
  then show ?thesis by (simp add: first_touch_is_raw_def)
qed

lemma changed_bytes_le:
  assumes "\<forall>n < PAGE_SIZE. n \<notin> set ns \<longrightarrow> prev ! n = cur ! n"
  shows "changed_bytes prev cur \<le> length ns"
proof -
  have "changed_bytes prev cur = card (set (filter (\<lambda>n. prev ! n \<noteq> cur ! n) [0..<PAGE_SIZE]))"
    by (simp only: changed_bytes_def distinct_card distinct_filter distinct_upt)
  also have "\<dots> \<le> card (set ns)" using assms by (intro card_mono) auto
  finally show ?thesis using card_length [of ns] by simp
qed

theorem sparse_mutation_roundtrips_passes [unit_tests]: "sparse_mutation_roundtrips b = Inr ()"
proof -
  let ?a = "(replicate PAGE_SIZE 0)[10 := 42] :: u8 list"
  let ?b = "?a[10 := 43, 2000 := 99]"
  obtain e e' s' where e: "new_DeltaEngine 4 = Inr e" "diff_and_commit b e 0 ?a = Inr (Raw 0 ?a, e')"
      "apply_delta b e (Raw 0 ?a) = Inr (?a, s')" "engine_inv e'" "engine_inv s'"
      "engine_map e' = [0 \<mapsto> ?a]" "engine_map s' = [0 \<mapsto> ?a]"
    by (rule fresh_engines [of ?a b]) simp_all
  obtain d e2 s2 where d: "diff_and_commit b e' 0 ?b = Inr (d, e2)" "apply_delta b s' d = Inr (?b, s2)"
      "d = (let runs = rle_encode (xor_page ?a ?b) in if rle_size runs < PAGE_SIZE then Xor 0 runs else Raw 0 ?b)"
    by (rule second_page [OF e(4-7), of ?b b]) simp_all
  have "changed_bytes ?a ?b \<le> 2"
    using changed_bytes_le [of "[10, 2000]" ?a ?b] by (simp add: nth_list_update)
  then have "rle_size (rle_encode (xor_page ?a ?b)) \<le> 26"
    using rle_size_upper [of "xor_page ?a ?b" 0 "[]"] by (simp add: rle_encode_def nonzero_xor_page rle_size_def)
  then have "encoded_len d < PAGE_SIZE" by (simp add: d(3) encoded_len_def rle_size_def Let_def PAGE_SIZE_def)
  then show ?thesis using e d(1,2) by (simp add: sparse_mutation_roundtrips_def)
qed

theorem dense_mutation_falls_back_to_raw_passes [unit_tests]: "dense_mutation_falls_back_to_raw b = Inr ()"
proof -
  have len: "length dense_page = PAGE_SIZE" by (simp add: dense_page_def)
  obtain e e' s' where e: "new_DeltaEngine 4 = Inr e" "diff_and_commit b e 0 zero_page = Inr (Raw 0 zero_page, e')"
      "apply_delta b e (Raw 0 zero_page) = Inr (zero_page, s')" "engine_inv e'" "engine_inv s'"
      "engine_map e' = [0 \<mapsto> zero_page]" "engine_map s' = [0 \<mapsto> zero_page]"
    by (rule fresh_engines [of zero_page b]) simp_all
  obtain d e2 s2 where "diff_and_commit b e' 0 dense_page = Inr (d, e2)" "apply_delta b s' d = Inr (dense_page, s2)"
    by (rule second_page [OF e(4-7) len, of b]) simp_all
  then show ?thesis
    using e by (simp add: dense_mutation_falls_back_to_raw_def flip: zero_page_def)
qed

text \<open>The last test does what its name says, although it does not assert it: the second delta is raw.\<close>

lemma dense_page_dense: "\<exists>n\<in>{a..a + 8}. xor_page zero_page dense_page ! n \<noteq> 0" if "a + 8 < PAGE_SIZE"
proof -
  have x: "xor_page zero_page dense_page ! n = of_nat (n * 131 + 7)" if "n < PAGE_SIZE" for n
    using that by (simp add: xor_page_def zero_page_def dense_page_def)
  have "of_nat (Suc a * 131 + 7) = of_nat (a * 131 + 7) + (131 :: u8)" by simp
  moreover have "(131 :: u8) \<noteq> 0" by simp
  ultimately have "of_nat (a * 131 + 7) \<noteq> (0 :: u8) \<or> of_nat (Suc a * 131 + 7) \<noteq> (0 :: u8)"
    by (metis add.left_neutral)
  then show ?thesis using x [of a] x [of "Suc a"] that by (auto intro: bexI [of _ a] bexI [of _ "Suc a"])
qed

theorem dense_mutation_is_raw: "\<not> rle_size (rle_encode (xor_page zero_page dense_page)) < PAGE_SIZE"
  using rle_size_lower [of "xor_page zero_page dense_page" 0 "[]"] dense_page_dense
  by (simp add: rle_encode_def rle_size_def)

subsection \<open>They pass: smt.rs\<close>

theorem empty_tree_root_is_stable_passes [unit_tests]: "empty_tree_root_is_stable ord1 ord2 H = Inr ()"
  by (simp add: empty_tree_root_is_stable_def root_def new_SparseMerkleTree_def)

lemma updated_tree:
  assumes "unat p < 2 ^ TREE_DEPTH"
  shows "smt_inv H (update_leaf H (new_SparseMerkleTree H) p bs)"
    and "within_depth (update_leaf H (new_SparseMerkleTree H) p bs)"
    and "leaf_hash (update_leaf H (new_SparseMerkleTree H) p bs) = (\<lambda>q. if q = p then H bs else H zero_page)"
  using update_leaf_inv [of H "new_SparseMerkleTree H"] assms by (auto simp: fun_eq_iff)

theorem touching_a_leaf_changes_the_root_passes [unit_tests]:
  assumes "\<forall>x. length (H x) = 32" and "H (replicate PAGE_SIZE 9) \<noteq> H zero_page"
    and "inj_on H (node_msgs H (leaf_fn H (new_SparseMerkleTree H)) TREE_DEPTH 0 \<union>
           node_msgs H (leaf_fn H (update_leaf H (new_SparseMerkleTree H) 1234 (replicate PAGE_SIZE 9))) TREE_DEPTH 0)"
  shows "touching_a_leaf_changes_the_root ord H = Inr ()"
proof -
  let ?t = "new_SparseMerkleTree H"
  let ?t' = "update_leaf H ?t 1234 (replicate PAGE_SIZE 9)"
  have d: "unat (1234 :: u64) < 2 ^ TREE_DEPTH" by (simp add: TREE_DEPTH_def)
  note t' = updated_tree [OF d, of H "replicate PAGE_SIZE 9"]
  have len: "length (leaf_fn H t k) = 32" if "t \<in> {?t, ?t'}" for t k
    using that assms(1) t'(3) by (auto simp: leaf_fn_def)
  have "root ord H ?t \<noteq> root ord H ?t'"
  proof
    assume "root ord H ?t = root ord H ?t'"
    then have eq: "node_hash H (leaf_fn H ?t) TREE_DEPTH 0 = node_hash H (leaf_fn H ?t') TREE_DEPTH 0"
      using root_eq_node_hash [of H ?t ord] root_eq_node_hash [OF t'(1,2), of ord] by simp
    have "leaf_fn H ?t (unat (1234 :: u64)) = leaf_fn H ?t' (unat (1234 :: u64))"
      by (rule node_binding [OF _ _ _ assms(3) eq]) (use assms(1) len in \<open>auto simp: TREE_DEPTH_def\<close>)
    then show False unfolding leaf_fn_unat using assms(2) t'(3) by simp
  qed
  then show ?thesis by (simp add: touching_a_leaf_changes_the_root_def)
qed

theorem same_touched_pages_same_root_across_instances_passes [unit_tests]:
  "same_touched_pages_same_root_across_instances ord1 ord2 H = Inr ()"
proof -
  have step: "smt_inv H (update_leaf H t p bs) \<and> within_depth (update_leaf H t p bs)"
    if "smt_inv H t \<and> within_depth t" "unat p < 2 ^ TREE_DEPTH" for t p bs
    using that update_leaf_inv [of H t] by blast
  define t where "t = update_leaf H (update_leaf H (update_leaf H (new_SparseMerkleTree H)
    0 (replicate PAGE_SIZE 1)) 5 (replicate PAGE_SIZE 2)) 1000000 (replicate PAGE_SIZE 3)"
  have "smt_inv H t \<and> within_depth t"
    unfolding t_def by (intro step) (simp_all add: TREE_DEPTH_def)
  then have "root ord1 H t = root ord2 H t" by (simp add: root_eq_node_hash)
  then show ?thesis by (simp add: same_touched_pages_same_root_across_instances_def t_def)
qed

theorem checkpoint_chain_is_tamper_evident_passes [unit_tests]:
  assumes "\<forall>x. length (H x) = 32" and "H (map of_char ''pc=0,sp=0'') \<noteq> H (map of_char ''pc=0,sp=1'')"
    and "let r = root ord H (update_leaf H (new_SparseMerkleTree H) 0 (replicate PAGE_SIZE 1)) in
         inj_on H {genesis, link_msg (H genesis) 1 r (H (map of_char ''pc=0,sp=0'')),
                   link_msg (H genesis) 1 r (H (map of_char ''pc=0,sp=1''))}"
  shows "checkpoint_chain_is_tamper_evident ord H = Inr ()"
proof -
  let ?t = "update_leaf H (new_SparseMerkleTree H) 0 (replicate PAGE_SIZE 1)"
  let ?r = "root ord H ?t"
  let ?g = "H (map of_char ''pc=0,sp=0'')" and ?g' = "H (map of_char ''pc=0,sp=1'')"
  have "unat (0 :: u64) < 2 ^ TREE_DEPTH" by (simp add: TREE_DEPTH_def)
  note t = updated_tree [OF this, of H "replicate PAGE_SIZE 1"]
  have "length (leaf_fn H ?t k) = 32" for k using assms(1) t(3) by (simp add: leaf_fn_def)
  then have "length ?r = 32"
    using root_eq_node_hash [OF t(1,2), of ord] length_node_hash [of H 32] assms(1) by simp
  then have "[(1, ?r, ?g)] = [(1 :: u64, ?r, ?g')]" if "chain_fold H (H genesis) [(1, ?r, ?g)] = chain_fold H (H genesis) [(1, ?r, ?g')]"
    by (intro chain_fold_inject [OF assms(1) _ _ that]) (use assms(1,3) in \<open>auto simp: Let_def insert_commute\<close>)
  then have "chain_fold H (H genesis) [(1, ?r, ?g)] \<noteq> chain_fold H (H genesis) [(1, ?r, ?g')]"
    using assms(2) by auto
  then show ?thesis by (simp add: checkpoint_chain_is_tamper_evident_def verify_chain_def Let_def)
qed

end
