(* ===== verification/Io_Tests.thy ===== *)
theory Io_Tests
  imports Uring Replicate
begin

section \<open>The unit tests of chronos-io and chronos-replicate\<close>

text \<open>
  The test functions of chronos-io/src/lib.rs, linux_ring.rs and chronos-replicate/src/lib.rs as
  runs that end in \<open>Inr ()\<close> or in a panic, each proved to pass. The ring tests run on any
  \<open>ArrayQueue\<close> that behaves as documented.
\<close>

subsection \<open>Tests of chronos-io/src/lib.rs\<close>

definition fd_table_isolates_guest_fds :: "build \<Rightarrow> unit run" where
  "fd_table_isolates_guest_fds b =
     and_then (register_fd b new_FdTable 10) (\<lambda>(guest_fd_a, table).
     and_then (register_fd b table 11) (\<lambda>(guest_fd_b, table).
     and_then (assert_that (guest_fd_a \<noteq> guest_fd_b)) (\<lambda>_.
     and_then (unwrap (resolve table guest_fd_a)) (\<lambda>h.
     and_then (assert_that (h = 10)) (\<lambda>_.
     and_then (unwrap (resolve table guest_fd_b)) (\<lambda>h.
     and_then (assert_that (h = 11)) (\<lambda>_.
       assert_that (isl (resolve table 9999)))))))))"

definition pending_completions_drain_in_order :: "unit run" where
  "pending_completions_drain_in_order =
     (let pending = foldl (\<lambda>pending i.
            push_completion pending \<lparr>completion_cell = 0, guest_fd = 3, request_id = i, io_result = 4096\<rparr>)
            new_PendingCompletions [0, 1, 2];
          (drained, pending) = drain_for_dispatch pending;
          ids = map request_id drained
      in and_then (assert_that (ids = [0, 1, 2])) (\<lambda>_. assert_that (is_empty_PendingCompletions pending)))"

definition stub_subsystem_round_trips_a_completion :: "unit run" where
  "stub_subsystem_round_trips_a_completion =
     (let io = new_StubIoSubsystem;
          (res, io) = stub_submit_read_fixed io 0 3 5 0 0 4096 42
      in and_then (unwrap res) (\<lambda>_.
           let (completions, io) = stub_poll_completions io
           in and_then (assert_that (length completions = 1)) (\<lambda>_.
              and_then (assert_that (request_id (completions ! 0) = 42)) (\<lambda>_.
                assert_that (io_result (completions ! 0) = 4096)))))"

subsection \<open>Test of linux_ring.rs\<close>

definition user_data_packing_round_trips :: "build \<Rightarrow> unit run" where
  "user_data_packing_round_trips b =
     (let (cell, guest_fd, request_id) = (12345, 99, 555) in
      and_then (pack_user_data b cell guest_fd request_id) (\<lambda>packed.
        let (c2, g2, r2) = unpack_user_data packed
        in assert_that ((cell, guest_fd, request_id) = (c2, g2, r2))))"

subsection \<open>Tests of chronos-replicate/src/lib.rs\<close>

text \<open>\<open>None\<close> stands for a drain that does not return.\<close>

definition push_and_drain_preserves_order :: "'q array_queue_api \<Rightarrow> unit run option" where
  "push_and_drain_preserves_order api =
     (case and_then (new_DeltaRing api 8) (\<lambda>ring.
             fold_run (\<lambda>ring tick.
               let (res, ring) = push_ring api ring \<lparr>batch_tick = tick, deltas = []\<rparr>
               in and_then (unwrap res) (\<lambda>_. Inr ring)) ring [1, 2, 3]) of
        Inl e \<Rightarrow> Some (Inl e)
      | Inr rng \<Rightarrow>
          map_option (\<lambda>(drained, rng). let ticks = map batch_tick drained in assert_that (ticks = [1, 2, 3]))
            (drain_ring api rng))"

definition full_ring_surfaces_backpressure :: "'q array_queue_api \<Rightarrow> unit run" where
  "full_ring_surfaces_backpressure api =
     and_then (new_DeltaRing api 1) (\<lambda>ring.
       let (res, ring) = push_ring api ring \<lparr>batch_tick = 1, deltas = []\<rparr> in
       and_then (unwrap res) (\<lambda>_.
         let (err, ring) = push_ring api ring \<lparr>batch_tick = 2, deltas = []\<rparr>
         in assert_that (case err of Inl (Full _) \<Rightarrow> True | _ \<Rightarrow> False)))"

definition standby_rejects_out_of_order_batches :: "build \<Rightarrow> unit run" where
  "standby_rejects_out_of_order_batches b =
     and_then (new_StandbyApplyLoop 4) (\<lambda>standby.
       let page = (replicate PAGE_SIZE 0)[0 := 1];
           batch1 = \<lparr>batch_tick = 5, deltas = [Raw 0 page]\<rparr>
       in and_then (apply_batch b standby batch1) (\<lambda>(res, standby).
          and_then (unwrap res) (\<lambda>_.
            let batch_stale = \<lparr>batch_tick = 3, deltas = []\<rparr>
            in and_then (apply_batch b standby batch_stale) (\<lambda>(err, standby).
                 assert_that (case err of Inl (OutOfOrder _ _) \<Rightarrow> True | _ \<Rightarrow> False)))))"

subsection \<open>They pass\<close>

theorem fd_table_isolates_guest_fds_passes [unit_tests]: "fd_table_isolates_guest_fds b = Inr ()"
  by (simp add: fd_table_isolates_guest_fds_def register_fd_def new_FdTable_def resolve_def plus_build_def)

theorem pending_completions_drain_in_order_passes [unit_tests]: "pending_completions_drain_in_order = Inr ()"
  by (simp add: pending_completions_drain_in_order_def push_completion_def drain_for_dispatch_def
      new_PendingCompletions_def is_empty_PendingCompletions_def)

theorem stub_subsystem_round_trips_a_completion_passes [unit_tests]: "stub_subsystem_round_trips_a_completion = Inr ()"
  by (simp add: stub_subsystem_round_trips_a_completion_def stub_submit_read_fixed_def stub_poll_completions_def
      new_StubIoSubsystem_def)

theorem user_data_packing_round_trips_passes [unit_tests]: "user_data_packing_round_trips b = Inr ()"
  by (simp add: user_data_packing_round_trips_def pack_user_data_eq unpack_packed_in_layout)

lemma push_empty:
  assumes "queue_sound api held" and "length (held (ring_queue r)) < unat (aq_capacity api (ring_queue r))"
  obtains r' where "push_ring api r x = (Inr (), r')" and "held (ring_queue r') = held (ring_queue r) @ [x]"
    and "aq_capacity api (ring_queue r') = aq_capacity api (ring_queue r)"
  using push_ring_ok [OF assms(1), of r x] assms(2) by auto

theorem push_and_drain_preserves_order_passes [unit_tests]:
  assumes "queue_sound api held"
  shows "push_and_drain_preserves_order api = Some (Inr ())"
proof -
  let ?b = "\<lambda>t. \<lparr>batch_tick = t, deltas = []\<rparr>"
  obtain r where r: "new_DeltaRing api 8 = Inr r" "held (ring_queue r) = []" "aq_capacity api (ring_queue r) = 8"
    using new_DeltaRing_ok [OF assms, of 8] by auto
  obtain r1 where r1: "push_ring api r (?b 1) = (Inr (), r1)" "held (ring_queue r1) = [?b 1]"
      "aq_capacity api (ring_queue r1) = 8"
    by (rule push_empty [OF assms, of r "?b 1"]) (use r in simp_all)
  obtain r2 where r2: "push_ring api r1 (?b 2) = (Inr (), r2)" "held (ring_queue r2) = [?b 1, ?b 2]"
      "aq_capacity api (ring_queue r2) = 8"
    by (rule push_empty [OF assms, of r1 "?b 2"]) (use r1 in simp_all)
  obtain r3 where r3: "push_ring api r2 (?b 3) = (Inr (), r3)" "held (ring_queue r3) = [?b 1, ?b 2, ?b 3]"
    by (rule push_empty [OF assms, of r2 "?b 3"]) (use r2 in simp_all)
  obtain q where "drain_loop api (ring_queue r3) [] = Some ([?b 1, ?b 2, ?b 3], q)"
    using drain_loop_ok [OF assms, of "ring_queue r3" "[]"] r3(2) by auto
  then show ?thesis
    using r(1) r1(1) r2(1) r3(1) by (simp add: push_and_drain_preserves_order_def drain_ring_def)
qed

theorem full_ring_surfaces_backpressure_passes [unit_tests]:
  assumes "queue_sound api held"
  shows "full_ring_surfaces_backpressure api = Inr ()"
proof -
  let ?b = "\<lambda>t. \<lparr>batch_tick = t, deltas = []\<rparr>"
  obtain r where r: "new_DeltaRing api 1 = Inr r" "held (ring_queue r) = []" "aq_capacity api (ring_queue r) = 1"
    using new_DeltaRing_ok [OF assms, of 1] by auto
  obtain r1 where r1: "push_ring api r (?b 1) = (Inr (), r1)" "held (ring_queue r1) = [?b 1]"
      "aq_capacity api (ring_queue r1) = 1"
    by (rule push_empty [OF assms, of r "?b 1"]) (use r in simp_all)
  have "push_ring api r1 (?b 2) = (Inl (Full 1), r1)"
    using push_ring_ok [OF assms, of r1 "?b 2"] r1 by simp
  then show ?thesis using r(1) r1(1) by (simp add: full_ring_surfaces_backpressure_def)
qed

theorem standby_rejects_out_of_order_batches_passes [unit_tests]: "standby_rejects_out_of_order_batches b = Inr ()"
proof -
  let ?p = "(replicate PAGE_SIZE 0)[0 := 1] :: u8 list"
  obtain e where e: "new_DeltaEngine 4 = Inr e" "engine_inv e"
    using new_DeltaEngine_ok [of 4] by (auto simp: isize_max_def PAGE_SIZE_def)
  have "trackable 0" by (simp add: trackable_def isize_max_def PAGE_SIZE_def)
  then obtain e' where "apply_delta b e (Raw 0 ?p) = Inr (?p, e')"
    using apply_delta_ok [OF e(2), of 0 ?p "Raw 0 ?p" b] by auto
  then show ?thesis
    using e(1) by (simp add: standby_rejects_out_of_order_batches_def new_StandbyApplyLoop_def apply_batch_def)
qed

end
