(* ===== verification/Core_Tests.thy ===== *)
theory Core_Tests
  imports Scheduler
begin

section \<open>The unit tests of chronos-core\<close>

text \<open>
  The test functions of event_log.rs and scheduler.rs as runs that end in \<open>Inr ()\<close> or in a panic,
  each proved to pass for both build profiles. The scheduler's tests build cells, so they
  run on an operating system that grants the mappings (\<open>grants_mappings\<close>), one \<open>os_calls\<close>
  per cell.
\<close>

subsection \<open>Tests of event_log.rs\<close>

definition record_then_replay_reproduces_clock_values ::
  "build \<Rightarrow> (event_key \<times> recorded_value) iter_order \<Rightarrow> unit run" where
  "record_then_replay_reproduces_clock_values b ord =
     (let recorder = new_EventRecorder Record; real_now = (\<lambda>fake_time. (fake_time + 7, fake_time + 7)) in
      and_then (wall_clock_now b recorder 1 real_now 1000) (\<lambda>(v1, recorder, fake_time).
      and_then (unwrap v1) (\<lambda>v1.
      and_then (wall_clock_now b recorder 1 real_now fake_time) (\<lambda>(v2, recorder, fake_time).
      and_then (unwrap v2) (\<lambda>v2.
      and_then (assert_that (v1 \<noteq> v2)) (\<lambda>_.
        let log = export_log ord recorder;
            replay = from_replay_log log;
            divergent_now = (\<lambda>u. (999999, u))
        in and_then (wall_clock_now b replay 1 divergent_now ()) (\<lambda>(r1, replay, u).
           and_then (unwrap r1) (\<lambda>r1.
           and_then (wall_clock_now b replay 1 divergent_now u) (\<lambda>(r2, replay, u).
           and_then (unwrap r2) (\<lambda>r2.
             assert_that ((v1, v2) = (r1, r2))))))))))))"

definition replay_missing_entry_is_a_hard_error_not_silent_fallback :: "build \<Rightarrow> unit run" where
  "replay_missing_entry_is_a_hard_error_not_silent_fallback b =
     (let replay = from_replay_log []; real_now = (\<lambda>u. (42, u)) in
      and_then (wall_clock_now b replay 0 real_now ()) (\<lambda>(err, replay, u).
        assert_that (case err of Inl (MissingEntry _ _) \<Rightarrow> True | _ \<Rightarrow> False)))"

definition ordinals_reset_across_ticks :: "build \<Rightarrow> unit run" where
  "ordinals_reset_across_ticks b =
     (let recorder = new_EventRecorder Record; real_now = (\<lambda>u. (1, u)) in
      and_then (wall_clock_now b recorder 1 real_now ()) (\<lambda>(v, recorder, u).
      and_then (unwrap v) (\<lambda>_.
      and_then (wall_clock_now b recorder 1 real_now u) (\<lambda>(v, recorder, u).
      and_then (unwrap v) (\<lambda>_.
      and_then (wall_clock_now b recorder 2 real_now u) (\<lambda>(v, recorder, u).
      and_then (unwrap v) (\<lambda>_.
        assert_that (length (log recorder) = 3))))))))"

subsection \<open>Tests of scheduler.rs\<close>

definition make_cell :: "build \<Rightarrow> (CellId \<Rightarrow> os_calls) \<Rightarrow> hash_fn \<Rightarrow> CellId \<Rightarrow> cell run" where
  "make_cell b os H i =
     (let config = \<lparr>config_id = i, initial_memory_bytes = 4096, config_quota_bytes = 4096 * 16,
                    checkpoint_interval_ticks = 4\<rparr>
      in and_then (snd (new_Cell b (os i) H config Record)) unwrap)"

definition make_cells ::
  "build \<Rightarrow> (CellId \<Rightarrow> os_calls) \<Rightarrow> hash_fn \<Rightarrow> CellId list \<Rightarrow> (CellId \<rightharpoonup> cell) run" where
  "make_cells b os H ids =
     fold_run (\<lambda>cells i. and_then (make_cell b os H i) (\<lambda>c. Inr (cells(i \<mapsto> c)))) Map.empty ids"

definition dispatch_unwrap :: "build \<Rightarrow> scheduler \<Rightarrow> (CellId \<rightharpoonup> cell) \<Rightarrow> (dispatch_outcome \<times> scheduler) run" where
  "dispatch_unwrap b sched cells =
     and_then (next_dispatch b sched cells) (\<lambda>(out, sched).
       and_then (unwrap_some out) (\<lambda>outcome. Inr (outcome, sched)))"

definition round_robin_visits_every_cell_before_repeating ::
  "build \<Rightarrow> (CellId \<Rightarrow> os_calls) \<Rightarrow> hash_fn \<Rightarrow> unit run" where
  "round_robin_visits_every_cell_before_repeating b os H =
     and_then (make_cells b os H [1, 2, 3]) (\<lambda>cells.
       let sched = new_Scheduler [1, 2, 3] in
       and_then (fold_run (\<lambda>(seen, sched) _.
           and_then (dispatch_unwrap b sched cells) (\<lambda>(outcome, sched).
             Inr (seen @ [outcome_cell outcome], sched))) ([], sched) [0..<6]) (\<lambda>(seen, sched).
         assert_that (seen = [1, 2, 3, 1, 2, 3])))"

definition tick_advances_globally_not_per_cell :: "build \<Rightarrow> (CellId \<Rightarrow> os_calls) \<Rightarrow> hash_fn \<Rightarrow> unit run" where
  "tick_advances_globally_not_per_cell b os H =
     and_then (make_cells b os H [1, 2]) (\<lambda>cells.
       let sched = new_Scheduler [1, 2] in
       and_then (dispatch_unwrap b sched cells) (\<lambda>(o1, sched).
       and_then (dispatch_unwrap b sched cells) (\<lambda>(o2, sched).
       and_then (assert_that (outcome_tick o1 = 1)) (\<lambda>_.
         assert_that (outcome_tick o2 = 2)))))"

definition checkpoint_due_respects_configured_interval ::
  "build \<Rightarrow> (CellId \<Rightarrow> os_calls) \<Rightarrow> hash_fn \<Rightarrow> unit run" where
  "checkpoint_due_respects_configured_interval b os H =
     and_then (make_cell b os H 1) (\<lambda>c.
       let cells = [1 \<mapsto> c]; sched = new_Scheduler [1] in
       and_then (fold_run (\<lambda>(outcomes, sched) _.
           and_then (dispatch_unwrap b sched cells) (\<lambda>(outcome, sched).
             Inr (outcomes @ [outcome_due outcome], sched))) ([], sched) [0..<5]) (\<lambda>(outcomes, sched).
         assert_that (outcomes = [False, False, False, True, True])))"

subsection \<open>They pass: event_log.rs\<close>

theorem record_then_replay_reproduces_clock_values_passes [unit_tests]:
  "record_then_replay_reproduces_clock_values b ord = Inr ()"
proof -
  define r where "r = \<lparr>mode = Record,
    log = hm_insert (EventKey 1 1) (RecordedClock 1014) (hm_insert (EventKey 1 0) (RecordedClock 1007) []),
    current_tick = 1, current_ordinal = 2\<rparr>"
  let ?p = "from_replay_log (export_log ord r)"
  have log: "hm_get (log ?p) = hm_get (log r)" by (rule from_export) (simp add: r_def)
  have replay: "next_ordinal b ?p 1 = Inr (0, ?p\<lparr>current_tick := 1, current_ordinal := 1\<rparr>)"
    by (simp add: next_ordinal_def plus_build_def)
  have r1: "wall_clock_now b ?p 1 f s = Inr (Inr 1007, ?p\<lparr>current_tick := 1, current_ordinal := 1\<rparr>, s)" for f and s :: unit
    by (simp add: wall_clock_now_def replay log) (simp add: r_def)
  have r2: "wall_clock_now b (?p\<lparr>current_tick := 1, current_ordinal := 1\<rparr>) 1 f s =
      Inr (Inr 1014, ?p\<lparr>current_tick := 1, current_ordinal := 2\<rparr>, s)" for f and s :: unit
    by (simp add: wall_clock_now_def next_ordinal_def plus_build_def log) (simp add: r_def)
  show ?thesis
    using r1 r2
    by (simp add: record_then_replay_reproduces_clock_values_def wall_clock_now_record new_EventRecorder_def Let_def
        flip: r_def)
qed

theorem replay_missing_entry_is_a_hard_error_not_silent_fallback_passes [unit_tests]:
  "replay_missing_entry_is_a_hard_error_not_silent_fallback b = Inr ()"
  by (simp add: replay_missing_entry_is_a_hard_error_not_silent_fallback_def wall_clock_now_def next_ordinal_def
      plus_build_def from_replay_log_def)

theorem ordinals_reset_across_ticks_passes [unit_tests]: "ordinals_reset_across_ticks b = Inr ()"
  by (simp add: ordinals_reset_across_ticks_def wall_clock_now_record new_EventRecorder_def hm_insert_def Let_def)

subsection \<open>They pass: scheduler.rs\<close>

definition grants_mappings :: "os_calls \<Rightarrow> bool" where
  "grants_mappings os \<longleftrightarrow>
     (\<forall>len. unat len \<le> 2 ^ 20 \<longrightarrow> (\<exists>a c. sys_mmap os len = Inr (a, c))) \<and> (\<forall>a len. sys_mprotect os a len = None)"

lemma make_cell_ok:
  assumes "grants_mappings (os i)"
  obtains c where "make_cell b os H i = Inr c" and "checkpoint_interval_ticks (config c) = 4"
    and "last_checkpoint_tick c = 0"
proof -
  have "unat (rounded_len 65536 + of_nat PAGE_SIZE) = 17 * PAGE_SIZE"
    using unat_rounded_len_guard [of 65536] by (simp add: quota_pages_def PAGE_SIZE_def)
  then obtain a c where "sys_mmap (os i) (rounded_len 65536 + of_nat PAGE_SIZE) = Inr (a, c)"
      "sys_mprotect (os i) (a + rounded_len 65536) (of_nat PAGE_SIZE) = None"
    using assms by (fastforce simp: grants_mappings_def PAGE_SIZE_def)
  moreover have "(4096 :: u32) \<le> 65536" by simp
  ultimately obtain m where "snd (new_MmapGuardedMemory b (os i) 4096 65536) = Inr (Inr m)"
    by (metis new_MmapGuardedMemory_success snd_conv)
  then show thesis
    using that by (simp add: make_cell_def new_Cell_def case_prod_beta)
qed

lemma make_cells_ok:
  assumes "\<forall>i\<in>set ids. grants_mappings (os i)"
  obtains cells where "make_cells b os H ids = Inr cells"
proof -
  have "\<exists>cells. fold_run (\<lambda>cells i. and_then (make_cell b os H i) (\<lambda>c. Inr (cells(i \<mapsto> c)))) m ids = Inr cells" for m
    using assms
  proof (induction ids arbitrary: m)
    case (Cons i ids)
    obtain c where "make_cell b os H i = Inr c" by (rule make_cell_ok [of os i b H]) (use Cons.prems in simp_all)
    then show ?case using Cons.IH Cons.prems by simp
  qed simp
  then show thesis using that by (auto simp: make_cells_def)
qed

lemma dispatch_unwrap_eq:
  assumes "order s = i # is" and "unat (clock_tick (clock s)) + 1 < 2 ^ 64"
  shows "dispatch_unwrap b s cells =
    Inr (\<lparr>outcome_cell = i, outcome_tick = clock_tick (clock s) + 1,
          outcome_due = (case cells i of Some x \<Rightarrow> checkpoint_due x (clock_tick (clock s) + 1) | None \<Rightarrow> False)\<rparr>,
         s\<lparr>order := is @ [i], clock := \<lparr>clock_tick = clock_tick (clock s) + 1\<rparr>\<rparr>)"
  using assms by (simp add: dispatch_unwrap_def next_dispatch_def advance_def run_simps Let_def)

theorem round_robin_visits_every_cell_before_repeating_passes [unit_tests]:
  assumes "\<forall>i. grants_mappings (os i)"
  shows "round_robin_visits_every_cell_before_repeating b os H = Inr ()"
proof -
  obtain cells where "make_cells b os H [1, 2, 3] = Inr cells"
    by (rule make_cells_ok [of "[1, 2, 3]" os b H]) (use assms in simp_all)
  moreover have "[0..<6] = [0, 1, 2, 3, 4, 5]" by code_simp
  ultimately show ?thesis
    by (simp add: round_robin_visits_every_cell_before_repeating_def dispatch_unwrap_eq new_Scheduler_def new_LogicalClock_def)
qed

theorem tick_advances_globally_not_per_cell_passes [unit_tests]:
  assumes "\<forall>i. grants_mappings (os i)"
  shows "tick_advances_globally_not_per_cell b os H = Inr ()"
proof -
  obtain cells where "make_cells b os H [1, 2] = Inr cells"
    by (rule make_cells_ok [of "[1, 2]" os b H]) (use assms in simp_all)
  then show ?thesis
    by (simp add: tick_advances_globally_not_per_cell_def dispatch_unwrap_eq new_Scheduler_def new_LogicalClock_def)
qed

theorem checkpoint_due_respects_configured_interval_passes [unit_tests]:
  assumes "grants_mappings (os 1)"
  shows "checkpoint_due_respects_configured_interval b os H = Inr ()"
proof -
  obtain c where c: "make_cell b os H 1 = Inr c" "checkpoint_interval_ticks (config c) = 4" "last_checkpoint_tick c = 0"
    by (rule make_cell_ok [of os 1 b H]) (use assms in simp_all)
  then have "checkpoint_due c t \<longleftrightarrow> 4 \<le> unat t" for t by (simp add: checkpoint_due_iff)
  moreover have "[0..<5] = [0, 1, 2, 3, 4]" by code_simp
  ultimately show ?thesis
    using c(1)
    by (simp add: checkpoint_due_respects_configured_interval_def dispatch_unwrap_eq new_Scheduler_def new_LogicalClock_def)
qed

end
