(* ===== verification/Spec2Isabelle.thy ===== *)
theory Spec2Isabelle
  imports Supervised_Replay Integrity Progress Build_Panics Standby_Audit Ring_Threads Uring_Buffers Io_Worker
    Mem_Tests Io_Tests Core_Tests
begin

text \<open>
  A verification of chronos-uvm, a deterministic multi-tenant micro-VM supervisor written
  in Rust (four crates under src/).

  \<^bold>\<open>The program.\<close> A \<open>Supervisor\<close> (chronos-core) owns cells, one per tenant, and dispatches
  them round robin, one quantum of guest execution per tick of a logical clock. A cell
  has a guarded linear memory with a dirty-page bitmap, a recorder of non-deterministic
  host calls, a chain of integrity checkpoints over a sparse Merkle tree of its pages, a
  descriptor table and a queue of I/O completions. When a checkpoint is due the cycle
  rehashes the dirty pages, appends a chain entry, pushes the dirty pages as a batch
  into the replication ring, and clears the dirty set. A standby drains the ring and
  applies the batches to its own copy of the pages.

  \<^bold>\<open>Theories and sources.\<close> Names follow the source; \<open>new_T\<close> is \<open>T::new\<close>, and a method whose
  name several types have carries the type or a short prefix.

  \<^item> \<open>Prelude\<close>: machine words, the two build profiles, panics as the left side of
    \<open>'a run\<close>, the standard library's arithmetic, \<open>HashMap\<close> with an arbitrary iteration order.
  \<^item> \<open>Dirty_Pages\<close>: chronos-mem/src/dirty.rs. \<open>dirty_page_set\<close> refines a finite set
    (interface \<open>page_set\<close>).
  \<^item> \<open>Guarded_Memory\<close>: chronos-mem/src/guarded_memory.rs. Construction with its system
    calls, \<open>translate\<close>, \<open>grow\<close>, \<open>mark_dirty\<close>, \<open>page_bytes\<close>, \<open>drop\<close>; invariant \<open>mem_inv\<close>. The
    trait \<open>GuardedMemory\<close> is the record \<open>guarded_memory_ops\<close>, its contract the locale
    \<open>guarded_memory\<close>, its implementation \<open>mmap_ops\<close>.
  \<^item> \<open>Delta\<close>: chronos-mem/src/delta.rs. The run-length coder with its index loops, and
    \<open>DeltaEngine\<close> (interface \<open>page_codec\<close>, abstraction \<open>engine_map\<close>); slice ranges of the decoder panic as in
    Rust. \<open>Delta_Size\<close>: the size of an encoding against the number of changed bytes, and the decoding of
    arbitrary deltas, whose runs may overshoot the page.
  \<^item> \<open>Merkle\<close>, \<open>Checkpoint_Chain\<close>: chronos-mem/src/smt.rs. The sparse tree against the full
    tree \<open>node_hash\<close> (interface \<open>leaf_store\<close>), and the chain; \<open>tree_synced\<close> relates tree and memory.
  \<^item> \<open>Logical_Clock\<close>, \<open>Event_Log\<close>: chronos-core/src/clock.rs and event_log.rs. Record and
    replay; the trait \<open>NonDeterminismSource\<close> is the record \<open>nondeterminism_source_ops\<close> with the
    locale \<open>nondeterminism_source\<close> and the implementation \<open>recorder_ops\<close>; event keys are a linear
    order.
  \<^item> \<open>Io\<close>, \<open>Uring\<close>: chronos-io/src/lib.rs and linux_ring.rs. \<open>FdTable\<close>, \<open>PendingCompletions\<close>
    (interface \<open>completion_queue\<close>), the trait \<open>IoSubsystem\<close> (record \<open>io_subsystem_ops\<close>, locale
    \<open>io_subsystem\<close>) with its two implementations \<open>stub_io_ops\<close> and \<open>uring_io_ops\<close>; the io_uring one is
    followed down to the submission entries the kernel receives. \<open>Uring_Buffers\<close>:
    the fixed buffers of a ring against the kernel's table and the calls that registered them (\<open>uring_uses\<close>).
    \<open>Io_Worker\<close>: the descriptor tables of many cells in front of one io_uring, in any interleaving of the
    operations (\<open>host_calls\<close>), with the entries it leaves to the kernel.
  \<^item> \<open>Replicate\<close>: chronos-replicate/src/lib.rs. \<open>DeltaRing\<close>, \<open>DeltaRingProducer\<close> with the
    aliasing of its counter address, \<open>StandbyApplyLoop\<close>. \<open>Ring_Threads\<close>: \<open>push\<close> and \<open>drain\<close> on two
    threads, cut at their accesses to shared state, under every schedule.
  \<^item> \<open>Cells\<close>, \<open>Scheduler\<close>, \<open>Supervisor\<close>: chronos-core/src/cell.rs, scheduler.rs (interface
    \<open>dispatcher\<close>) and supervisor.rs. \<open>run_one_cycle\<close> is the whole cycle; \<open>sup_step\<close> is the step
    relation of a deployment and \<open>sup_inv\<close> its invariant.
  \<^item> \<open>Cell_History\<close>: an induction principle for single cells in reachable states
    (\<open>sup_reachable_cellwise\<close>), and the history of a cell's checkpoints. \<open>Integrity\<close>: what the chain
    hash of the latest entry says about the cell behind it.
  \<^item> \<open>Determinism\<close>: runs of whole cycles (\<open>run_cycles\<close>) across build profiles and iteration
    orders, and executors that keep a state per tenant (\<open>per_tenant\<close>). \<open>Progress\<close>: runs complete, and how far
    a run of at least one rotation without faults (\<open>no_faults\<close>) leaves any cell behind its checkpoints.
  \<^item> \<open>Guest_Execution\<close>: an arbitrary guest behind the interfaces of the repository. Loads and stores access
    the mapping at the host address \<open>translate\<close> returns (\<open>host_read\<close>, \<open>host_write\<close>), stores mark their pages with
    \<open>mark_dirty\<close>, growth goes through \<open>grow\<close>, closing a descriptor through \<open>close_fd\<close>, clock and
    random reads through the cell's recorder (\<open>guest_step\<close>, \<open>quantum_loop\<close>); \<open>hosted_executor\<close> is the executor that serves it.
    A panic or an access outside the mapping in any of these is a panic of the quantum and of the cycle.
  \<^item> \<open>Guest_Profiles\<close>: that executor in the two build profiles. \<open>Build_Panics\<close>: the panics of a debug
    build (\<open>debug_panic\<close>) as the only difference between the profiles, and page-aligned tenants, which never
    meet them: there the whole debug build, executor included, runs as the whole release build.
  \<^item> \<open>Supervised_Replay\<close>: a recorded run of cycles and its replay from the exported logs
    (\<open>seed_replay\<close>), related cycle by cycle.
  \<^item> \<open>Failover\<close>, \<open>Standby_Audit\<close>: the supervisor, the ring, the batches on the wire and a standby together;
    the step relation \<open>ha_step\<close> interleaves cycles of the primary, single pops of the consumer and single
    batches of the standby. A Merkle tree built from the standby's pages (\<open>standby_tree\<close>); two tenants on one ring.
  \<^item> \<open>Mem_Tests\<close>, \<open>Io_Tests\<close>, \<open>Core_Tests\<close>: the unit tests of the four crates, as runs that end in
    \<open>Inr ()\<close> or in the panic of an assertion.

  \<^bold>\<open>What the lemmas show.\<close> Isolation: an approved guest range lies in the cell's mapping
  before the guard page, mappings of different cells are disjoint in every reachable
  state, a store is seen by the page view at exactly the addressed bytes, and the entries cells that share an io_uring
  hand to the kernel name only descriptors opened for the cell. Integrity: the incremental root is the root of the whole memory, the chain
  refolds, equal chain hashes mean equal claims, equal heads of two cells of any two
  deployments mean equal chains and equal memories, and the entries of a chain are spaced by
  the configured interval. Determinism: dispatch is a function of the registration order,
  a run of cycles does not depend on the build profile or on any hash map's iteration
  order, replay of a recorded log gives the recorded results, a whole run of the supervisor
  with arbitrary guests is reproduced from the exported logs on another host, and no tenant's cell
  depends on another tenant. Availability: page deltas, ring and standby together lose
  nothing, a standby can take over at any moment with the bytes of every page flushed,
  and even when batches in the ring and on the wire are lost its pages are the
  memory of one checkpoint of the chain, with the root recorded there; with two tenants on one
  ring this fails, as a theorem shows. Concurrency: the ring is linearizable for its two
  threads, and a drain ends as soon as it has caught up. Progress: runs complete whatever faults or
  fills up, and within a rotation without faults the checkpoints of every cell keep up with its interval also when the ring is full. Robustness: no cycle
  panics under the executor's contract, a debug build differs from a release build in two panics and nothing
  else, no guest can break the contract its executor owes, faults stay in their cell, failed construction unmaps what it mapped, every
  refusal leaves the state as it was.

  \<^bold>\<open>Parameters.\<close> Code outside the repository is an argument, with its documented behaviour
  as a named hypothesis: \<open>mmap\<close> and \<open>mprotect\<close> (\<open>os_calls\<close>; \<open>mmap_sound\<close>, \<open>mmap_fresh\<close>), blake3
  (\<open>hash_fn\<close>; absence of collisions only among the messages a theorem names), crossbeam's
  \<open>ArrayQueue\<close> (\<open>array_queue_api\<close>; \<open>queue_sound\<close>), the io-uring crate and the kernel
  (\<open>uring_api\<close>; \<open>ring_sound\<close>, \<open>buffers_sound\<close>), the host's clock and random source (\<open>host_source\<close>;
  \<open>random_fills\<close>), the guest execution engine (\<open>quantum_executor\<close>; \<open>executor_contract\<close>, one clause of which is that a
  quantum on a well-formed memory does not panic; \<open>hosted_executor\<close> fulfils it in a
  release build for every guest; in a debug build a store to a partly committed last page makes the next
  checkpoint's page view panic, which \<open>Build_Panics\<close> makes precise).
  Each hypothesis is shown to be satisfiable by a concrete instance in a witness.

  \<^bold>\<open>Bounds.\<close> The target is 64-bit (\<open>usize\<close> is a 64-bit word). Overflow of the tick counter,
  of call ordinals and of descriptor numbers is modelled per build profile; theorems on
  runs assume fewer than 2^64 ticks, 2^64 calls and 2^32 - 3 registrations. The actions of a
  quantum are bounded by \<open>max_instructions_per_quantum\<close>, as in the trait; otherwise no fuel is
  used: loops are structural, have a measure, or (\<open>drain\<close>) are partial functions with a
  proof that they return.

  \<^bold>\<open>Not modelled.\<close> The message printed on a fault, \<open>Debug\<close> and error formatting, memory
  exhaustion of the allocator, memory orderings weaker than interleaving (each access to
  the queue and to the counter is atomic), the kernel's execution of a submission entry (its transfer of data into
  registered buffers, and the buffer address, which the code leaves null), and the
  crate roots, which hold module declarations only. The hash maps of one root computation use one order function, which
  may still order different contents differently.

  \<^bold>\<open>What the sources leave open.\<close> They have no execution engine, no loop that polls completions into the
  cells and no operation that opens a descriptor for a guest; where a theorem needs one (\<open>hosted_executor\<close>,
  \<open>host_calls\<close>) it takes every guest and every interleaving. A batch names no tenant, so takeover is stated for a primary
  with one cell; one standby per tenant needs one ring per tenant, which the supervisor does not offer.
\<close>

section \<open>Properties that span components\<close>

text \<open>
  Property C1. Tenants cannot reach each other's memory: in every reachable state, whatever
  ranges two different cells get approved by \<open>translate\<close>, the host ranges are disjoint.
\<close>

theorem tenants_isolated:
  assumes "executor_contract b X" and "queue_sound api held" and "sup_reachable b H api X (s, x)"
    and "cells s i = Some c" and "cells s j = Some d" and "i \<noteq> j"
    and "translate (memory c) p l = Inr a" and "translate (memory d) q k = Inr e"
  shows "{unat a ..< unat a + unat l} \<inter> {unat e ..< unat e + unat k} = {}"
proof -
  have inv: "sup_inv b H api held s" using sup_reachable_inv [OF assms(1-3)] by simp
  then have disj: "mapping_of c \<inter> mapping_of d = {}" using assms(4-6) unfolding sup_inv_def by blast
  have "cell_inv b H c" "cell_inv b H d" using inv assms(4,5) unfolding sup_inv_def by blast+
  then have "mem_inv (memory c)" "mem_inv (memory d)" by (simp_all add: cell_inv_def)
  then have "{unat a ..< unat a + unat l} \<subseteq> mapping_of c" "{unat e ..< unat e + unat k} \<subseteq> mapping_of d"
    using translate_range [OF _ assms(7)] translate_range [OF _ assms(8)] by (auto simp: mapping_of_def)
  with disj show ?thesis by blast
qed

theorem tenants_isolated_witness:
  "\<exists>(s :: (usize \<times> tick_batch list) supervisor) c d a e. cells s 1 = Some c \<and> cells s 2 = Some d \<and>
     translate (memory c) 0 4096 = Inr a \<and> translate (memory d) 8 4088 = Inr e \<and>
     {unat a ..< unat a + 4096} \<inter> {unat e ..< unat e + 4088} = {}"
proof -
  let ?X = "example_executor Debug"
  obtain s c d where s: "\<forall>x. sup_reachable Debug example_hash example_queue ?X (s, x)" "cells s = [1 \<mapsto> c, 2 \<mapsto> d]"
      "size_bytes (memory c) = 4096" "size_bytes (memory d) = 4096"
    by (rule example_tenants [of 4 Debug example_hash ?X]) simp_all
  have cells: "cells s 1 = Some c" "cells s 2 = Some d" "(1 :: u64) \<noteq> 2" using s(2) by simp_all
  obtain a e where ae: "translate (memory c) 0 4096 = Inr a" "translate (memory d) 8 4088 = Inr e"
    using s(3,4) by (simp add: translate_eq)
  from tenants_isolated [OF example_executor_contract example_queue_sound spec [OF s(1)] cells ae]
  show ?thesis using cells ae by (intro exI [of _ s] exI [of _ c] exI [of _ d] exI [of _ a] exI [of _ e]) simp
qed

text \<open>
  Property C26. The audit trail of every cell is sound in every reachable state: refolding
  the recorded claims with \<open>verify_chain\<close> yields the chain hash of the latest entry, and
  the genesis hash before the first checkpoint.
\<close>

theorem audit_trail_verifies:
  assumes "executor_contract b X" and "queue_sound api held" and "sup_reachable b H api X (s, x)"
    and "cells s i = Some c"
  shows "verify_chain H (map claim_of (entries (checkpoints c))) =
    Inr (case latest (checkpoints c) of None \<Rightarrow> H genesis | Some e \<Rightarrow> chain_hash e)"
proof -
  have "sup_inv b H api held s" using sup_reachable_inv [OF assms(1-3)] by simp
  then have "linked H (H genesis) (entries (checkpoints c))"
    using assms(4) by (auto simp: sup_inv_def cell_inv_def chain_inv_def)
  from linked_fold [OF this] show ?thesis by (simp add: verify_chain_def latest_def)
qed

theorem audit_trail_verifies_witness:
  "\<exists>(s :: (usize \<times> tick_batch list) supervisor) c e. cells s 1 = Some c \<and> entries (checkpoints c) = [e] \<and>
     verify_chain example_hash [claim_of e] = Inr (chain_hash e)"
proof -
  let ?X = "example_executor Debug"
  obtain s0 c0 r0 where s0: "sup_reachable Debug example_hash example_queue ?X (s0, 5)" "order (sup_scheduler s0) = [1]"
      "current_tick_of (sup_scheduler s0) = 0" "cells s0 1 = Some c0" "size_bytes (memory c0) = 4096"
      "config c0 = example_config 1" "pages (dirty (memory c0)) = {}" "replication s0 = Some r0"
      "length (snd (ring_queue r0)) < unat (fst (ring_queue r0))" "entries (checkpoints c0) = []"
    by (rule example_system [of 4 Debug example_hash ?X 5]) simp_all
  obtain s d e where s: "sup_reachable Debug example_hash example_queue ?X (s, 5 + 1)" "cells s = (cells s0)(1 \<mapsto> d)"
      "entries (checkpoints d) = entries (checkpoints c0) @ [e]"
    by (rule example_cycle [OF s0(1,2) _ s0(4-9) refl]) (simp_all add: s0(3))
  have "cells s 1 = Some d" using s(2) by simp
  from audit_trail_verifies [OF example_executor_contract example_queue_sound s(1) this] this s(3) s0(10)
  show ?thesis by (intro exI [of _ s] exI [of _ d] exI [of _ e]) (simp add: latest_def)
qed

text \<open>
  The unit tests of the repository pass in the model, in a debug and in a
  release build, for every iteration order of the hash maps and every hash function:
  tests of the bitmap, the delta engine, the Merkle tree, the recorder, the scheduler
  (on an operating system that grants mappings), the I/O layer, and the ring and the standby (on
  a sound queue). The two tests that compare digests of different contents
  additionally need the absence of collisions and are theorems of their own.
\<close>

lemma unit_tests_pass:
  assumes "\<forall>i. grants_mappings (os i)" and "queue_sound api held"
  shows "mark_and_iterate b = Inr () \<and> double_mark_is_idempotent b = Inr () \<and> clear_resets_state b = Inr () \<and>
    first_touch_is_raw b = Inr () \<and> sparse_mutation_roundtrips b = Inr () \<and> dense_mutation_falls_back_to_raw b = Inr () \<and>
    empty_tree_root_is_stable od od' H = Inr () \<and> same_touched_pages_same_root_across_instances od od' H = Inr () \<and>
    record_then_replay_reproduces_clock_values b od'' = Inr () \<and>
    replay_missing_entry_is_a_hard_error_not_silent_fallback b = Inr () \<and> ordinals_reset_across_ticks b = Inr () \<and>
    round_robin_visits_every_cell_before_repeating b os H = Inr () \<and> tick_advances_globally_not_per_cell b os H = Inr () \<and>
    checkpoint_due_respects_configured_interval b os H = Inr () \<and>
    fd_table_isolates_guest_fds b = Inr () \<and> pending_completions_drain_in_order = Inr () \<and>
    stub_subsystem_round_trips_a_completion = Inr () \<and> user_data_packing_round_trips b = Inr () \<and>
    push_and_drain_preserves_order api = Some (Inr ()) \<and> full_ring_surfaces_backpressure api = Inr () \<and>
    standby_rejects_out_of_order_batches b = Inr ()"
  using assms by (simp add: unit_tests push_and_drain_preserves_order_passes [OF assms(2)]
      full_ring_surfaces_backpressure_passes [OF assms(2)])

end
